(* ===== verification/Prelude.thy ===== *)
theory Prelude
  imports Main "HOL-Library.Word"
begin

text \<open>
  Shared vocabulary of the development: the machine integer types, byte memory with
  little-endian loads and stores, the error type of the C++ code, and the lemma
  collections the component theories build on.

  The collection \<open>mem_simps\<close> holds the facts that read a memory back after it was
  written (same place, or a disjoint one); \<open>unat_simps\<close> holds the facts that move
  unsigned machine arithmetic to natural numbers when nothing wraps.
\<close>

named_theorems mem_simps
named_theorems unat_simps

section \<open>Machine integers\<close>

type_synonym u8 = "8 word"
type_synonym u32 = "32 word"
type_synonym u64 = "64 word"

text \<open>
  \<open>size_t\<close> is 64 bits wide on the platforms the code targets, so it is \<open>u64\<close>.
\<close>

lemma unat_add_u64 [unat_simps]:
  fixes a b :: u64
  assumes "unat a + unat b < 2 ^ 64"
  shows "unat (a + b) = unat a + unat b"
  using assms by (simp add: unat_word_ariths)

lemma unat_inc_u64 [unat_simps]:
  fixes a :: u64
  assumes "unat a + 1 < 2 ^ 64"
  shows "unat (a + 1) = unat a + 1"
  using unat_add_u64 [of a 1] assms by simp

lemma unat_sub_u64 [unat_simps]:
  fixes a b :: u64
  assumes "unat b \<le> unat a"
  shows "unat (a - b) = unat a - unat b"
  using assms by (simp add: unat_sub word_le_nat_alt)

lemma unat_mod_u64 [unat_simps]:
  fixes a b :: u64
  shows "unat (a mod b) = unat a mod unat b"
  by (rule unat_mod_distrib)

lemma unat_lt_u64 [simp]: "unat (a :: u64) < 18446744073709551616"
  using unsigned_less [of a, where ?'a = nat] by simp

lemma unat_lt_u32 [simp]: "unat (a :: u32) < 4294967296"
  using unsigned_less [of a, where ?'a = nat] by simp

lemma unat_lt_u8 [simp]: "unat (a :: u8) < 256"
  using unsigned_less [of a, where ?'a = nat] by simp

lemma unat_ucast_u32_u64 [unat_simps]:
  fixes a :: u32
  shows "unat (ucast a :: u64) = unat a"
proof -
  have "unat a mod 18446744073709551616 = unat a"
    by (rule mod_less, rule order.strict_trans [OF unat_lt_u32]) simp
  then show ?thesis by (simp add: unsigned_ucast_eq take_bit_nat_def)
qed

section \<open>Errors and results\<close>

text \<open>
  Every \<open>throw std::runtime_error\<close> of the modelled code has a constructor here. A failed
  \<open>assert\<close> ends the process in the Debug build the repository documents, so it is an
  error value as well; the string is the asserted condition.
\<close>

datatype error =
    Queue_Too_Large
  | Not_Power_Of_Two
  | Shm_Open_Failed
  | Queue_Uninitialized
  | Message_Too_Large
  | Message_Empty
  | Producer_Cannot_Poll
  | Db_Open_Failed
  | Config_Lookup_Failed
  | Assert_Failed string

definition bindE :: "'e + 'a \<Rightarrow> ('a \<Rightarrow> 'e + 'b) \<Rightarrow> 'e + 'b" where
  "bindE r f = (case r of Inl e \<Rightarrow> Inl e | Inr a \<Rightarrow> f a)"

lemma bindE_simps [simp]:
  "bindE (Inl e) f = Inl e"
  "bindE (Inr a) f = f a"
  by (simp_all add: bindE_def)

lemma bindE_eq_Inr:
  "bindE r f = Inr b \<longleftrightarrow> (\<exists>a. r = Inr a \<and> f a = Inr b)"
  by (cases r) simp_all

definition assertE :: "string \<Rightarrow> bool \<Rightarrow> error + unit" where
  "assertE what b = (if b then Inr () else Inl (Assert_Failed what))"

lemma assertE_simps [simp]:
  "assertE w True = Inr ()"
  "assertE w False = Inl (Assert_Failed w)"
  by (simp_all add: assertE_def)

lemma assertE_eq_Inr [simp]: "assertE w b = Inr u \<longleftrightarrow> b"
  by (simp add: assertE_def)

section \<open>Little-endian encoding\<close>

primrec le_bytes :: "nat \<Rightarrow> nat \<Rightarrow> u8 list" where
  "le_bytes 0 v = []"
| "le_bytes (Suc n) v = word_of_nat v # le_bytes n (v div 256)"

primrec le_value :: "u8 list \<Rightarrow> nat" where
  "le_value [] = 0"
| "le_value (b # bs) = unat b + 256 * le_value bs"

lemma length_le_bytes [simp]: "length (le_bytes n v) = n"
  by (induction n arbitrary: v) simp_all

lemma le_value_le_bytes [simp]: "le_value (le_bytes n v) = v mod 256 ^ n"
proof (induction n arbitrary: v)
  case 0
  show ?case by simp
next
  case (Suc n)
  have "v mod (256 * 256 ^ n) = 256 * (v div 256 mod 256 ^ n) + v mod 256"
    by (rule mod_mult2_eq)
  with Suc.IH show ?case by (simp add: unat_of_nat)
qed

lemma le_value_less: "le_value bs < 256 ^ length bs"
proof (induction bs)
  case Nil
  show ?case by simp
next
  case (Cons b bs)
  then have "le_value bs + 1 \<le> 256 ^ length bs" by simp
  then have "256 * (le_value bs + 1) \<le> 256 * 256 ^ length bs" by (rule mult_le_mono2)
  have "unat b + 256 * le_value bs < 256 * (le_value bs + 1)"
    using unat_lt_u8 [of b] unfolding distrib_left by (simp del: unat_lt_u8)
  also note \<open>256 * (le_value bs + 1) \<le> 256 * 256 ^ length bs\<close>
  finally have "unat b + 256 * le_value bs < 256 * 256 ^ length bs" .
  then show ?case by simp
qed

lemma le_bytes_le_value: "le_bytes (length bs) (le_value bs) = bs"
proof (induction bs)
  case Nil
  show ?case by simp
next
  case (Cons b bs)
  have "word_of_nat (unat b + 256 * le_value bs) = b"
    by (subst word_unat_eq_iff, subst unat_of_nat) simp
  moreover have "(unat b + 256 * le_value bs) div 256 = le_value bs"
    using unat_lt_u8 [of b] by simp
  ultimately show ?case using Cons.IH by simp
qed

lemma le_value_zeros: "(\<And>b. b \<in> set bs \<Longrightarrow> b = 0) \<Longrightarrow> le_value bs = 0"
proof (induction bs)
  case Nil
  show ?case by simp
next
  case (Cons b bs)
  have "b = 0" by (rule Cons.prems) simp
  moreover have "le_value bs = 0" by (rule Cons.IH) (rule Cons.prems, simp)
  ultimately show ?case by (simp add: unat_0)
qed

section \<open>Byte memory\<close>

text \<open>
  A mapped region is a function from byte offsets to bytes. It is total: the bytes after the
  end of the ring are those of the last mapped page, which the code can reach (see the skip
  message) but never reads.
\<close>

type_synonym mem = "nat \<Rightarrow> u8"

definition read_bytes :: "mem \<Rightarrow> nat \<Rightarrow> nat \<Rightarrow> u8 list" where
  "read_bytes m a n = map m [a..<a + n]"

definition write_bytes :: "mem \<Rightarrow> nat \<Rightarrow> u8 list \<Rightarrow> mem" where
  "write_bytes m a bs = (\<lambda>i. if a \<le> i \<and> i < a + length bs then bs ! (i - a) else m i)"

definition mem_set :: "mem \<Rightarrow> nat \<Rightarrow> u8 \<Rightarrow> nat \<Rightarrow> mem" where
  "mem_set m a b n = (\<lambda>i. if a \<le> i \<and> i < a + n then b else m i)"

definition load32 :: "mem \<Rightarrow> nat \<Rightarrow> u32" where
  "load32 m a = word_of_nat (le_value (read_bytes m a 4))"

definition load64 :: "mem \<Rightarrow> nat \<Rightarrow> u64" where
  "load64 m a = word_of_nat (le_value (read_bytes m a 8))"

definition store32 :: "mem \<Rightarrow> nat \<Rightarrow> u32 \<Rightarrow> mem" where
  "store32 m a v = write_bytes m a (le_bytes 4 (unat v))"

definition store64 :: "mem \<Rightarrow> nat \<Rightarrow> u64 \<Rightarrow> mem" where
  "store64 m a v = write_bytes m a (le_bytes 8 (unat v))"

lemma length_read_bytes [simp]: "length (read_bytes m a n) = n"
  by (simp add: read_bytes_def)

lemma read_bytes_write_bytes_same [mem_simps]:
  "length bs = n \<Longrightarrow> read_bytes (write_bytes m a bs) a n = bs"
  by (rule nth_equalityI) (simp_all add: read_bytes_def write_bytes_def)

lemma read_bytes_write_prefix:
  "length bs \<le> n \<Longrightarrow>
   read_bytes (write_bytes m a bs) a n = bs @ drop (length bs) (read_bytes m a n)"
  by (rule nth_equalityI) (auto simp: read_bytes_def write_bytes_def nth_append)

lemma read_bytes_cong:
  "(\<And>i. a \<le> i \<Longrightarrow> i < a + n \<Longrightarrow> m i = m' i) \<Longrightarrow> read_bytes m a n = read_bytes m' a n"
  by (simp add: read_bytes_def)

lemma load32_cong:
  "(\<And>i. a \<le> i \<Longrightarrow> i < a + 4 \<Longrightarrow> m i = m' i) \<Longrightarrow> load32 m a = load32 m' a"
  unfolding load32_def by (subst read_bytes_cong [of a 4 m m']) simp_all

lemma load64_cong:
  "(\<And>i. a \<le> i \<Longrightarrow> i < a + 8 \<Longrightarrow> m i = m' i) \<Longrightarrow> load64 m a = load64 m' a"
  unfolding load64_def by (subst read_bytes_cong [of a 8 m m']) simp_all

subsection \<open>Single bytes after a write\<close>

lemma write_bytes_out [mem_simps]:
  "i < a \<or> a + length bs \<le> i \<Longrightarrow> write_bytes m a bs i = m i"
  by (auto simp: write_bytes_def)

lemma mem_set_out [mem_simps]:
  "i < a \<or> a + n \<le> i \<Longrightarrow> mem_set m a b n i = m i"
  by (auto simp: mem_set_def)

lemma mem_set_in [mem_simps]:
  "a \<le> i \<Longrightarrow> i < a + n \<Longrightarrow> mem_set m a b n i = b"
  by (simp add: mem_set_def)

lemma store32_out [mem_simps]: "i < a \<or> a + 4 \<le> i \<Longrightarrow> store32 m a v i = m i"
  by (simp add: store32_def write_bytes_out)

lemma store64_out [mem_simps]: "i < a \<or> a + 8 \<le> i \<Longrightarrow> store64 m a v i = m i"
  by (simp add: store64_def write_bytes_out)

lemma fun_upd_out: "i \<noteq> a \<Longrightarrow> (m(a := b)) i = m i"
  by simp

lemma le_bytes_zero [simp]: "le_bytes n 0 = replicate n 0"
  by (induction n) simp_all

lemma store32_zero [mem_simps]: "a \<le> i \<Longrightarrow> i < a + 4 \<Longrightarrow> store32 m a 0 i = 0"
  by (simp add: store32_def write_bytes_def unat_0)

subsection \<open>Words after a write\<close>

lemma load32_store32_same [mem_simps]: "load32 (store32 m a v) a = v"
proof -
  have "load32 (store32 m a v) a = word_of_nat (unat v mod 256 ^ 4)"
    by (simp add: load32_def store32_def read_bytes_write_bytes_same)
  also have "unat v mod 256 ^ 4 = unat v" by simp
  finally show ?thesis by simp
qed

lemma load64_store64_same [mem_simps]: "load64 (store64 m a v) a = v"
proof -
  have "load64 (store64 m a v) a = word_of_nat (unat v mod 256 ^ 8)"
    by (simp add: load64_def store64_def read_bytes_write_bytes_same)
  also have "unat v mod 256 ^ 8 = unat v" by simp
  finally show ?thesis by simp
qed

lemma load32_store32_other [mem_simps]:
  "a + 4 \<le> b \<or> b + 4 \<le> a \<Longrightarrow> load32 (store32 m a v) b = load32 m b"
  by (rule load32_cong) (auto simp: store32_out)

lemma load32_store64_other [mem_simps]:
  "a + 8 \<le> b \<or> b + 4 \<le> a \<Longrightarrow> load32 (store64 m a v) b = load32 m b"
  by (rule load32_cong) (auto simp: store64_out)

lemma load64_store32_other [mem_simps]:
  "a + 4 \<le> b \<or> b + 8 \<le> a \<Longrightarrow> load64 (store32 m a v) b = load64 m b"
  by (rule load64_cong) (auto simp: store32_out)

lemma load64_store64_other [mem_simps]:
  "a + 8 \<le> b \<or> b + 8 \<le> a \<Longrightarrow> load64 (store64 m a v) b = load64 m b"
  by (rule load64_cong) (auto simp: store64_out)

lemma load32_mem_set_other [mem_simps]:
  "a + n \<le> b \<or> b + 4 \<le> a \<or> n = 0 \<Longrightarrow> load32 (mem_set m a v n) b = load32 m b"
  by (rule load32_cong) (auto simp: mem_set_def)

lemma load64_mem_set_other [mem_simps]:
  "a + n \<le> b \<or> b + 8 \<le> a \<or> n = 0 \<Longrightarrow> load64 (mem_set m a v n) b = load64 m b"
  by (rule load64_cong) (auto simp: mem_set_def)

lemma load32_upd_other [mem_simps]:
  "a < b \<or> b + 4 \<le> a \<Longrightarrow> load32 (m(a := v)) b = load32 m b"
  by (rule load32_cong) auto

lemma load64_upd_other [mem_simps]:
  "a < b \<or> b + 8 \<le> a \<Longrightarrow> load64 (m(a := v)) b = load64 m b"
  by (rule load64_cong) auto

lemma load32_write_bytes_other [mem_simps]:
  "a + length bs \<le> b \<or> b + 4 \<le> a \<Longrightarrow> load32 (write_bytes m a bs) b = load32 m b"
  by (rule load32_cong) (auto simp: write_bytes_out)

lemma load64_write_bytes_other [mem_simps]:
  "a + length bs \<le> b \<or> b + 8 \<le> a \<Longrightarrow> load64 (write_bytes m a bs) b = load64 m b"
  by (rule load64_cong) (auto simp: write_bytes_out)

lemma read_bytes_upd_other [mem_simps]:
  "i < a \<or> a + n \<le> i \<Longrightarrow> read_bytes (m(i := v)) a n = read_bytes m a n"
  by (rule read_bytes_cong) auto

lemma load64_zero [mem_simps]: "(\<And>i. a \<le> i \<Longrightarrow> i < a + 8 \<Longrightarrow> m i = 0) \<Longrightarrow> load64 m a = 0"
  by (subst load64_def, subst le_value_zeros) (auto simp: read_bytes_def)

lemma load32_zero [mem_simps]: "(\<And>i. a \<le> i \<Longrightarrow> i < a + 4 \<Longrightarrow> m i = 0) \<Longrightarrow> load32 m a = 0"
  by (subst load32_def, subst le_value_zeros) (auto simp: read_bytes_def)

end
