(* ===== verification/Spin_Policy.thy ===== *)
theory Spin_Policy
  imports Prelude
begin

text \<open>
  The spin policies of message_transport/public/messaging/SpinPolicy.h. The only state is
  \<open>HybridPolicy::spins\<close>, one counter shared by every caller of the process; what a policy
  does to the processor is the value it returns here.
\<close>

datatype spin_action =
    Cpu_Pause          \<comment> \<open>\<open>_mm_pause\<close>, the \<open>yield\<close> instruction, or its portable stand-in\<close>
  | Thread_Yield       \<comment> \<open>\<open>std::this_thread::yield\<close>\<close>
  | Thread_Sleep nat   \<comment> \<open>\<open>std::this_thread::sleep_for\<close>, nanoseconds\<close>

definition BusyWaitPolicy_execute :: spin_action where
  "BusyWaitPolicy_execute = Cpu_Pause"

definition YieldPolicy_execute :: spin_action where
  "YieldPolicy_execute = Thread_Yield"

definition DEFAULT_TIMEOUT_NS :: nat where
  "DEFAULT_TIMEOUT_NS = 100"

definition SleepPolicy_execute :: spin_action where
  "SleepPolicy_execute = Thread_Sleep DEFAULT_TIMEOUT_NS"

definition HybridPolicy_spins_init :: u64 where
  "HybridPolicy_spins_init = 1"

text \<open>
  \<open>spins++ < 100\<close> and \<open>spins++ < 1000\<close> each compare the old value and increment, so a call
  that gets past the first test increments twice.
\<close>

definition HybridPolicy_execute :: "u64 \<Rightarrow> u64 \<times> spin_action" where
  "HybridPolicy_execute spins =
     (if spins < 100 then (spins + 1, BusyWaitPolicy_execute)
      else if spins + 1 < 1000 then (spins + 2, YieldPolicy_execute)
      else (spins + 2, SleepPolicy_execute))"

primrec hybrid_spins :: "nat \<Rightarrow> u64" where
  "hybrid_spins 0 = HybridPolicy_spins_init"
| "hybrid_spins (Suc n) = fst (HybridPolicy_execute (hybrid_spins n))"

definition hybrid_action :: "nat \<Rightarrow> spin_action" where
  "hybrid_action n = snd (HybridPolicy_execute (hybrid_spins n))"

lemma unat_hybrid_step:
  "unat (fst (HybridPolicy_execute s)) =
     (if unat s < 100 then unat s + 1 else (unat s + 2) mod 2 ^ 64)"
proof (cases "unat s < 100")
  case True
  then show ?thesis
    by (simp add: HybridPolicy_execute_def word_less_nat_alt unat_add_u64)
next
  case False
  then show ?thesis
    by (simp add: HybridPolicy_execute_def word_less_nat_alt unat_word_ariths)
qed

lemma unat_hybrid_spins:
  "n < 2 ^ 62 \<Longrightarrow>
   unat (hybrid_spins n) = (if n < 99 then n + 1 else 100 + 2 * (n - 99))"
proof (induction n)
  case 0
  show ?case by (simp add: HybridPolicy_spins_init_def)
next
  case (Suc n)
  then have IH: "unat (hybrid_spins n) = (if n < 99 then n + 1 else 100 + 2 * (n - 99))"
    by simp
  show ?case
  proof (cases "n < 99")
    case True
    with IH show ?thesis by (simp add: unat_hybrid_step)
  next
    case False
    with Suc.prems have "100 + 2 * (n - 99) + 2 < 2 ^ 64" by simp
    with IH False show ?thesis by (simp add: unat_hybrid_step)
  qed
qed

text \<open>
  The back-off schedule of \<open>HybridPolicy\<close>: the first 99 calls of the process pause the
  processor, the next 450 yield, and every later one sleeps, for the first \<open>2 ^ 62\<close> calls
  (before the counter can wrap). Because a call past the first phase counts twice, the yield
  phase is half as long as the two thresholds suggest.
\<close>

lemma hybrid_schedule:
  assumes "n < 2 ^ 62"
  shows "hybrid_action n =
    (if n < 99 then Cpu_Pause else if n < 549 then Thread_Yield else Thread_Sleep 100)"
proof -
  note spins = unat_hybrid_spins [OF assms]
  have "unat (hybrid_spins n) + 1 < 2 ^ 64"
    using assms spins by (simp split: if_splits)
  then have "unat (hybrid_spins n + 1) = unat (hybrid_spins n) + 1"
    by (rule unat_inc_u64)
  moreover have "2 * (n - 99) < 899 \<longleftrightarrow> n < 549" if "\<not> n < 99"
    using that by arith
  ultimately show ?thesis
    using spins
    by (simp add: hybrid_action_def HybridPolicy_execute_def word_less_nat_alt
        BusyWaitPolicy_execute_def YieldPolicy_execute_def SleepPolicy_execute_def
        DEFAULT_TIMEOUT_NS_def split: if_splits)
qed

lemma hybrid_schedule_witness:
  "hybrid_action 98 = Cpu_Pause \<and> hybrid_action 99 = Thread_Yield \<and>
   hybrid_action 548 = Thread_Yield \<and> hybrid_action 549 = Thread_Sleep 100"
  using hybrid_schedule [of 98] hybrid_schedule [of 99] hybrid_schedule [of 548]
    hybrid_schedule [of 549] by simp

end
