(* ===== verification/Readers_And_Offset.thy ===== *)
theory Readers_And_Offset
  imports Prelude
begin

text \<open>
  \<open>IpcQueue::UnpackedReadersAndWriterOffset\<close> and \<open>IpcQueue::is_power_of_two\<close>
  (message_transport/public/messaging/ipc_queue.h): the 64-bit word that carries the number of
  readers in its low 8 bits and the absolute write offset in the other 56, so that one
  compare-and-exchange changes both.
\<close>

unbundle bit_operations_syntax

section \<open>The packed word\<close>

record UnpackedReadersAndWriterOffset =
  num_readers :: u64
  write_offset :: u64
  original_value :: u64

definition unwrap :: "u64 \<Rightarrow> UnpackedReadersAndWriterOffset" where
  "unwrap value =
     \<lparr>num_readers = value AND 0x00000000000000FF,
      write_offset = drop_bit 8 value AND 0x00FFFFFFFFFFFFFF,
      original_value = value\<rparr>"

definition repack :: "u64 \<Rightarrow> u64 \<Rightarrow> u64" where
  "repack n off = (n AND 0x00000000000000FF) OR (push_bit 8 off AND 0xFFFFFFFFFFFFFF00)"

text \<open>
  The three mutators return the new packed value and leave the changed field in the object;
  both are kept, the object second.
\<close>

definition return_add_reader ::
    "UnpackedReadersAndWriterOffset \<Rightarrow> u64 \<times> UnpackedReadersAndWriterOffset" where
  "return_add_reader w =
     (let w' = w\<lparr>num_readers := num_readers w + 1\<rparr>
      in (repack (num_readers w') (write_offset w'), w'))"

definition return_sub_reader ::
    "UnpackedReadersAndWriterOffset \<Rightarrow> u64 \<times> UnpackedReadersAndWriterOffset" where
  "return_sub_reader w =
     (let w' = w\<lparr>num_readers := num_readers w - 1\<rparr>
      in (repack (num_readers w') (write_offset w'), w'))"

definition return_add_offset ::
    "UnpackedReadersAndWriterOffset \<Rightarrow> u64 \<Rightarrow> u64 \<times> UnpackedReadersAndWriterOffset" where
  "return_add_offset w message_size =
     (let w' = w\<lparr>write_offset := write_offset w + message_size\<rparr>
      in (repack (num_readers w') (write_offset w'), w'))"

subsection \<open>The fields as natural numbers\<close>

lemma unat_take_bit_u64: "unat (take_bit n (v :: u64)) = take_bit n (unat v)"
  by (simp add: unsigned_take_bit_eq)

lemma u64_and_255: "(v :: u64) AND 255 = take_bit 8 v"
  by (simp add: take_bit_eq_mask mask_eq_exp_minus_1)

lemma u64_and_mask56: "(v :: u64) AND 0x00FFFFFFFFFFFFFF = take_bit 56 v"
  by (simp add: take_bit_eq_mask mask_eq_exp_minus_1)

lemma push_bit_8_high: "push_bit 8 v AND 0xFFFFFFFFFFFFFF00 = push_bit 8 (v :: u64)"
proof -
  have "(0xFFFFFFFFFFFFFF00 :: u64) = NOT (mask 8)"
    by (simp add: mask_eq_exp_minus_1 not_eq_complement)
  show ?thesis
    unfolding \<open>0xFFFFFFFFFFFFFF00 = NOT (mask 8)\<close>
    by (auto intro!: bit_eqI simp: bit_simps)
qed

lemma unat_num_readers_unwrap: "unat (num_readers (unwrap v)) = unat v mod 256"
  by (simp add: unwrap_def u64_and_255 unat_take_bit_u64 take_bit_nat_def)

lemma unat_write_offset_unwrap: "unat (write_offset (unwrap v)) = unat v div 256"
proof -
  have "unat v div 256 < 72057594037927936"
    using unat_lt_u64 [of v] by (simp add: div_less_iff_less_mult)
  then show ?thesis
    by (simp add: unwrap_def u64_and_mask56 unat_take_bit_u64 unat_drop_bit_eq take_bit_nat_def
        drop_bit_nat_def)
qed

lemma unat_repack: "unat (repack n off) = unat n mod 256 + 256 * (unat off mod 2 ^ 56)"
proof -
  have "take_bit 8 n AND push_bit 8 off = 0"
    by (rule bit_eqI) (auto simp: bit_simps)
  then have "repack n off = take_bit 8 n + push_bit 8 off"
    by (simp add: repack_def u64_and_255 push_bit_8_high disjunctive_add_eq_or)
  moreover have "unat (push_bit 8 off) = 256 * (unat off mod 2 ^ 56)"
    using mod_mult_mult1 [of 256 "unat off" "2 ^ 56"]
    by (simp add: unsigned_push_bit_eq take_bit_nat_def push_bit_nat_def mult.commute)
  moreover have "unat (take_bit 8 n) = unat n mod 256"
    by (simp add: unat_take_bit_u64 take_bit_nat_def)
  moreover have "unat n mod 256 + 256 * (unat off mod 2 ^ 56) < 2 ^ 64"
  proof -
    have "unat n mod 256 < 256" and "unat off mod 2 ^ 56 < 2 ^ 56"
      by simp_all
    then show ?thesis by simp
  qed
  ultimately show ?thesis by (simp add: unat_add_u64)
qed

lemma num_readers_unwrap_repack:
  "unat (num_readers (unwrap (repack n off))) = unat n mod 256"
  by (simp add: unat_num_readers_unwrap unat_repack)

lemma write_offset_unwrap_repack:
  "unat (write_offset (unwrap (repack n off))) = unat off mod 2 ^ 56"
  by (simp add: unat_write_offset_unwrap unat_repack)

lemma repack_unwrap: "repack (num_readers (unwrap v)) (write_offset (unwrap v)) = v"
proof -
  have "unat v div 256 < 72057594037927936"
    using unat_lt_u64 [of v] by (simp add: div_less_iff_less_mult)
  then show ?thesis
    by (simp add: word_unat_eq_iff unat_repack unat_num_readers_unwrap unat_write_offset_unwrap)
qed

lemmas unwrap_repack = num_readers_unwrap_repack write_offset_unwrap_repack

lemma word_u64_eqI: "unat a = unat b \<Longrightarrow> a = (b :: u64)"
  by (simp add: word_unat_eq_iff)

lemma unat_write_offset_less: "unat (write_offset (unwrap v)) < 2 ^ 56"
  using unat_lt_u64 [of v] by (simp add: unat_write_offset_unwrap div_less_iff_less_mult)

lemma write_offset_repack_unwrap:
  "write_offset (unwrap (repack n (write_offset (unwrap v)))) = write_offset (unwrap v)"
  using unat_write_offset_less [of v]
  by (intro word_u64_eqI) (simp add: unwrap_repack)

lemma num_readers_repack_unwrap:
  "num_readers (unwrap (repack (num_readers (unwrap v)) off)) = num_readers (unwrap v)"
  by (intro word_u64_eqI, subst num_readers_unwrap_repack) (simp add: unat_num_readers_unwrap)

lemma packed_readers_add:
  "unat (num_readers (unwrap (fst (return_add_reader (unwrap v)))))
     = (unat (num_readers (unwrap v)) + 1) mod 256"
  by (simp add: return_add_reader_def num_readers_unwrap_repack unat_word_ariths mod_mod_cancel)

lemma packed_readers_sub:
  "unat (num_readers (unwrap (fst (return_sub_reader (unwrap v)))))
     = (unat (num_readers (unwrap v)) + 255) mod 256"
proof -
  let ?n = "num_readers (unwrap v)"
  have "?n - 1 = ?n + 0xFFFFFFFFFFFFFFFF" by simp
  then have "unat (?n - 1) mod 256 = (unat ?n + 18446744073709551615) mod 256"
    by (simp only: unat_word_ariths) (simp add: mod_mod_cancel)
  also have "\<dots> = (unat ?n + 18446744073709551615 mod 256) mod 256"
    by (rule mod_add_right_eq [symmetric])
  also have "\<dots> = (unat ?n + 255) mod 256" by simp
  finally show ?thesis
    by (simp add: return_sub_reader_def num_readers_unwrap_repack)
qed

lemma packed_offset_add:
  "unat (write_offset (unwrap (fst (return_add_offset (unwrap v) n))))
     = (unat (write_offset (unwrap v)) + unat n) mod 2 ^ 56"
  by (simp add: return_add_offset_def write_offset_unwrap_repack unat_word_ariths mod_mod_cancel)

lemma packed_frames:
  "write_offset (unwrap (fst (return_add_reader (unwrap v)))) = write_offset (unwrap v)"
  "write_offset (unwrap (fst (return_sub_reader (unwrap v)))) = write_offset (unwrap v)"
  "num_readers (unwrap (fst (return_add_offset (unwrap v) n))) = num_readers (unwrap v)"
  by (simp_all add: return_add_reader_def return_sub_reader_def return_add_offset_def
      write_offset_repack_unwrap num_readers_repack_unwrap)

text \<open>
  Each mutator of the packed word changes exactly its own field: joining and leaving move
  the reader count by one modulo 256 and keep the offset, claiming moves the offset modulo
  \<open>2 ^ 56\<close> and keeps the count. So a compare-and-exchange on the word that adds a reader can
  never move the write position, and one that claims space can never change the number of
  readers.
\<close>

theorem packed_mutators_independent:
  "unat (num_readers (unwrap (fst (return_add_reader (unwrap v)))))
     = (unat (num_readers (unwrap v)) + 1) mod 256 \<and>
   write_offset (unwrap (fst (return_add_reader (unwrap v)))) = write_offset (unwrap v) \<and>
   unat (num_readers (unwrap (fst (return_sub_reader (unwrap v)))))
     = (unat (num_readers (unwrap v)) + 255) mod 256 \<and>
   write_offset (unwrap (fst (return_sub_reader (unwrap v)))) = write_offset (unwrap v) \<and>
   num_readers (unwrap (fst (return_add_offset (unwrap v) n))) = num_readers (unwrap v) \<and>
   unat (write_offset (unwrap (fst (return_add_offset (unwrap v) n))))
     = (unat (write_offset (unwrap v)) + unat n) mod 2 ^ 56"
  by (intro conjI packed_readers_add packed_readers_sub packed_offset_add packed_frames)

text \<open>
  A reader that joins and then leaves restores the packed word bit for bit, whatever the
  word was, also when the 8-bit count wraps.
\<close>

lemma join_then_leave_restores:
  "fst (return_sub_reader (unwrap (fst (return_add_reader (unwrap v))))) = v"
proof -
  let ?w = "unwrap (fst (return_add_reader (unwrap v)))"
  have "(unat (num_readers ?w) + 255) mod 256 = unat (num_readers (unwrap v))"
    by (simp only: packed_readers_add) (simp add: unat_num_readers_unwrap mod_simps)
  then have "num_readers (unwrap (fst (return_sub_reader ?w))) = num_readers (unwrap v)"
    by (intro word_u64_eqI) (simp add: packed_readers_sub)
  moreover have "write_offset (unwrap (fst (return_sub_reader ?w))) = write_offset (unwrap v)"
    by (simp add: packed_frames)
  ultimately show ?thesis
    by (metis repack_unwrap)
qed

section \<open>Powers of two\<close>

definition is_power_of_two :: "u64 \<Rightarrow> bool" where
  "is_power_of_two n \<longleftrightarrow> n \<noteq> 0 \<and> (n AND (n - 1)) = 0"

text \<open>
  The bit trick the constructor uses to validate the queue size accepts exactly the powers
  of two a 64-bit size can hold.
\<close>

lemma is_power_of_two_iff: "is_power_of_two n \<longleftrightarrow> (\<exists>k<64. n = 2 ^ k)"
proof
  assume "is_power_of_two n"
  then have "n \<noteq> 0" and and0: "n AND (n - 1) = 0" by (simp_all add: is_power_of_two_def)
  then have pos: "1 \<le> unat n" by (simp add: unat_gt_0 Suc_le_eq)
  then obtain k where k: "2 ^ k \<le> unat n" "unat n < 2 ^ (k + 1)"
    using ex_power_ivl1 [of 2 "unat n"] by auto
  have "k < 64"
  proof (rule ccontr)
    assume "\<not> k < 64"
    then have "(2 :: nat) ^ 64 \<le> 2 ^ k" by (intro power_increasing) auto
    with k(1) have "2 ^ 64 \<le> unat n" by (rule order.trans [rotated])
    then have "18446744073709551616 \<le> unat n" by simp
    with unat_lt_u64 [of n] show False by linarith
  qed
  have unat_pred: "unat (n - 1) = unat n - 1"
    using pos by (simp add: unat_sub_u64)
  have "unat n = 2 ^ k"
  proof (rule ccontr)
    assume "unat n \<noteq> 2 ^ k"
    with k have pred: "2 ^ k \<le> unat n - 1" "unat n - 1 < 2 ^ (k + 1)" by auto
    have "unat n div 2 ^ k = 1" and "(unat n - 1) div 2 ^ k = 1"
      using k pred by (auto intro!: div_nat_eqI)
    then have "bit (unat n) k" and "bit (unat (n - 1)) k"
      by (simp_all add: bit_iff_odd unat_pred)
    then have "bit n k" and "bit (n - 1) k"
      by (simp_all only: bit_unsigned_iff)
    then have "bit (n AND (n - 1)) k" by (simp add: bit_simps)
    with and0 show False by simp
  qed
  then have "word_of_nat (unat n) = (word_of_nat (2 ^ k) :: u64)" by simp
  then have "n = 2 ^ k" by simp
  with \<open>k < 64\<close> show "\<exists>k<64. n = 2 ^ k" by blast
next
  assume "\<exists>k<64. n = 2 ^ k"
  then obtain k where "k < 64" and n: "n = 2 ^ k" by blast
  have "n - 1 = mask k" by (simp add: n mask_eq_exp_minus_1)
  then have "n AND (n - 1) = take_bit k (2 ^ k)" by (simp add: n take_bit_eq_mask)
  moreover have "take_bit k (2 ^ k :: u64) = 0"
    by (rule bit_eqI) (simp add: bit_simps)
  ultimately show "is_power_of_two n"
    using \<open>k < 64\<close> n by (simp add: is_power_of_two_def)
qed

end
