(* ===== verification/Ipc_Headers.thy ===== *)
theory Ipc_Headers
  imports Prelude
begin

text \<open>
  The shared-memory layout of message_transport/public/messaging/ipc_queue_headers.h: the
  global header at the start of the mapped file, the ring of bytes after it, and the packed
  message header in front of every payload.

  A ring offset is counted from the end of the global header, as the code counts it.
\<close>

section \<open>The global header\<close>

record WriteFields =
  readers_and_write_offset :: u64
  message_count :: u64
  shm_queue_size_bytes :: u64
  num_writers :: u32

record ReadFields =
  read_offset :: u64
  last_cleared_abs_offset :: u64

record GlobalHeader =
  magic :: u32
  write_fields :: WriteFields
  read_fields :: ReadFields

definition sizeof_GlobalHeader :: u64 where
  "sizeof_GlobalHeader = 192"

record Segment =
  global_header :: GlobalHeader
  ring :: mem

definition MAGIC :: u32 where
  "MAGIC = 0xDEADBEEF"

text \<open>Single fields of a mapped segment, read and written as the atomics are.\<close>

definition packed_of :: "Segment \<Rightarrow> u64" where
  "packed_of s = readers_and_write_offset (write_fields (global_header s))"

definition set_packed :: "u64 \<Rightarrow> Segment \<Rightarrow> Segment" where
  "set_packed v s = s\<lparr>global_header := (global_header s)
     \<lparr>write_fields := (write_fields (global_header s))\<lparr>readers_and_write_offset := v\<rparr>\<rparr>\<rparr>"

definition count_of :: "Segment \<Rightarrow> u64" where
  "count_of s = message_count (write_fields (global_header s))"

definition set_count :: "u64 \<Rightarrow> Segment \<Rightarrow> Segment" where
  "set_count v s = s\<lparr>global_header := (global_header s)
     \<lparr>write_fields := (write_fields (global_header s))\<lparr>message_count := v\<rparr>\<rparr>\<rparr>"

definition writers_of :: "Segment \<Rightarrow> u32" where
  "writers_of s = num_writers (write_fields (global_header s))"

definition set_writers :: "u32 \<Rightarrow> Segment \<Rightarrow> Segment" where
  "set_writers v s = s\<lparr>global_header := (global_header s)
     \<lparr>write_fields := (write_fields (global_header s))\<lparr>num_writers := v\<rparr>\<rparr>\<rparr>"

definition read_offset_of :: "Segment \<Rightarrow> u64" where
  "read_offset_of s = read_offset (read_fields (global_header s))"

definition set_read_offset :: "u64 \<Rightarrow> Segment \<Rightarrow> Segment" where
  "set_read_offset v s = s\<lparr>global_header := (global_header s)
     \<lparr>read_fields := (read_fields (global_header s))\<lparr>read_offset := v\<rparr>\<rparr>\<rparr>"

definition set_last_cleared :: "u64 \<Rightarrow> Segment \<Rightarrow> Segment" where
  "set_last_cleared v s = s\<lparr>global_header := (global_header s)
     \<lparr>read_fields := (read_fields (global_header s))\<lparr>last_cleared_abs_offset := v\<rparr>\<rparr>\<rparr>"

lemma segment_fields [simp]:
  "packed_of (set_packed v s) = v"
  "packed_of (set_count c s) = packed_of s"
  "packed_of (set_writers w s) = packed_of s"
  "packed_of (set_read_offset r s) = packed_of s"
  "packed_of (set_last_cleared r s) = packed_of s"
  "packed_of (s\<lparr>ring := m\<rparr>) = packed_of s"
  "read_offset_of (set_packed v s) = read_offset_of s"
  "read_offset_of (set_count c s) = read_offset_of s"
  "read_offset_of (set_writers w s) = read_offset_of s"
  "read_offset_of (set_read_offset r s) = r"
  "read_offset_of (set_last_cleared r s) = read_offset_of s"
  "read_offset_of (s\<lparr>ring := m\<rparr>) = read_offset_of s"
  "count_of (set_packed v s) = count_of s"
  "count_of (set_count c s) = c"
  "count_of (set_writers w s) = count_of s"
  "count_of (set_read_offset r s) = count_of s"
  "count_of (set_last_cleared r s) = count_of s"
  "count_of (s\<lparr>ring := m\<rparr>) = count_of s"
  "writers_of (set_packed v s) = writers_of s"
  "writers_of (set_count c s) = writers_of s"
  "writers_of (set_writers w s) = w"
  "writers_of (set_read_offset r s) = writers_of s"
  "writers_of (set_last_cleared r s) = writers_of s"
  "writers_of (s\<lparr>ring := m\<rparr>) = writers_of s"
  "ring (set_packed v s) = ring s"
  "ring (set_count c s) = ring s"
  "ring (set_writers w s) = ring s"
  "ring (set_read_offset r s) = ring s"
  "ring (set_last_cleared r s) = ring s"
  by (simp_all add: packed_of_def set_packed_def count_of_def set_count_def writers_of_def
      set_writers_def read_offset_of_def set_read_offset_def set_last_cleared_def)

lemma set_packed_twice [simp]: "set_packed v (set_packed u s) = set_packed v s"
  by (simp add: set_packed_def)

section \<open>Enumerations\<close>

datatype MessageType = NORMAL | PADDING

primrec message_type_value :: "MessageType \<Rightarrow> u32" where
  "message_type_value NORMAL = 0x0000"
| "message_type_value PADDING = 0x0001"

datatype CommitFlag = NOT_READY | READY_FOR_CONSUMER | ABORTED

primrec commit_flag_value :: "CommitFlag \<Rightarrow> u8" where
  "commit_flag_value NOT_READY = 0"
| "commit_flag_value READY_FOR_CONSUMER = 1"
| "commit_flag_value ABORTED = 2"

text \<open>
  A byte read from shared memory need not be an enumerator: \<open>None\<close> is any other value, which
  a \<open>switch\<close> sends to its \<open>default\<close>.
\<close>

definition commit_flag_of_byte :: "u8 \<Rightarrow> CommitFlag option" where
  "commit_flag_of_byte b =
     (if b = 0 then Some NOT_READY
      else if b = 1 then Some READY_FOR_CONSUMER
      else if b = 2 then Some ABORTED
      else None)"

lemma commit_flag_of_value [simp]: "commit_flag_of_byte (commit_flag_value f) = Some f"
  by (cases f) (simp_all add: commit_flag_of_byte_def)

lemma commit_flag_of_byte_eq [simp]:
  "commit_flag_of_byte 0 = Some NOT_READY"
  "commit_flag_of_byte 1 = Some READY_FOR_CONSUMER"
  "commit_flag_of_byte 2 = Some ABORTED"
  "commit_flag_of_byte b = Some READY_FOR_CONSUMER \<longleftrightarrow> b = 1"
  "commit_flag_of_byte b = Some ABORTED \<longleftrightarrow> b = 2"
  by (auto simp: commit_flag_of_byte_def)

section \<open>The message header\<close>

text \<open>
  The header is packed (\<open>#pragma pack(push, 1)\<close>): \<open>abs_offset\<close> takes 8 bytes,
  \<open>message_size\<close> 4, \<open>type\<close> 4, \<open>num_readers\<close> 1 and \<open>commit_flag\<close> 1. A field is
  addressed by the ring offset of its header plus the sizes of the fields before it.
\<close>

definition MessageHeader_layout :: "(string \<times> nat) list" where
  "MessageHeader_layout =
     [(''abs_offset'', 8), (''message_size'', 4), (''type'', 4), (''num_readers'', 1),
      (''commit_flag'', 1)]"

fun field_offset :: "(string \<times> nat) list \<Rightarrow> string \<Rightarrow> nat" where
  "field_offset [] f = 0"
| "field_offset ((g, n) # fs) f = (if f = g then 0 else n + field_offset fs f)"

definition sizeof_MessageHeader :: u64 where
  "sizeof_MessageHeader = 18"

lemma sizeof_MessageHeader_layout:
  "unat sizeof_MessageHeader = sum_list (map snd MessageHeader_layout)"
  by (simp add: sizeof_MessageHeader_def MessageHeader_layout_def)

definition hdr_abs_offset :: "mem \<Rightarrow> nat \<Rightarrow> u64" where
  "hdr_abs_offset m a = load64 m a"

definition hdr_message_size :: "mem \<Rightarrow> nat \<Rightarrow> u32" where
  "hdr_message_size m a = load32 m (a + 8)"

definition hdr_type :: "mem \<Rightarrow> nat \<Rightarrow> u32" where
  "hdr_type m a = load32 m (a + 12)"

definition hdr_num_readers :: "mem \<Rightarrow> nat \<Rightarrow> u8" where
  "hdr_num_readers m a = m (a + 16)"

definition hdr_commit_flag :: "mem \<Rightarrow> nat \<Rightarrow> u8" where
  "hdr_commit_flag m a = m (a + 17)"

definition set_abs_offset :: "nat \<Rightarrow> u64 \<Rightarrow> mem \<Rightarrow> mem" where
  "set_abs_offset a v m = store64 m a v"

definition set_message_size :: "nat \<Rightarrow> u32 \<Rightarrow> mem \<Rightarrow> mem" where
  "set_message_size a v m = store32 m (a + 8) v"

definition set_type :: "nat \<Rightarrow> MessageType \<Rightarrow> mem \<Rightarrow> mem" where
  "set_type a t m = store32 m (a + 12) (message_type_value t)"

definition set_num_readers :: "nat \<Rightarrow> u8 \<Rightarrow> mem \<Rightarrow> mem" where
  "set_num_readers a v m = m(a + 16 := v)"

definition set_commit_flag :: "nat \<Rightarrow> CommitFlag \<Rightarrow> mem \<Rightarrow> mem" where
  "set_commit_flag a f m = m(a + 17 := commit_flag_value f)"

lemmas hdr_get_defs =
  hdr_abs_offset_def hdr_message_size_def hdr_type_def hdr_num_readers_def hdr_commit_flag_def

lemmas hdr_set_defs =
  set_abs_offset_def set_message_size_def set_type_def set_num_readers_def set_commit_flag_def

lemma header_field_offsets:
  "field_offset MessageHeader_layout ''message_size'' = 8"
  "field_offset MessageHeader_layout ''type'' = 12"
  "field_offset MessageHeader_layout ''num_readers'' = 16"
  "field_offset MessageHeader_layout ''commit_flag'' = 17"
  by (simp_all add: MessageHeader_layout_def)

text \<open>Reading a field after writing a field of the same header.\<close>

lemma hdr_same [simp]:
  "hdr_abs_offset (set_abs_offset a v m) a = v"
  "hdr_abs_offset (set_message_size a n m) a = hdr_abs_offset m a"
  "hdr_abs_offset (set_type a t m) a = hdr_abs_offset m a"
  "hdr_abs_offset (set_num_readers a k m) a = hdr_abs_offset m a"
  "hdr_abs_offset (set_commit_flag a f m) a = hdr_abs_offset m a"
  "hdr_message_size (set_abs_offset a v m) a = hdr_message_size m a"
  "hdr_message_size (set_message_size a n m) a = n"
  "hdr_message_size (set_type a t m) a = hdr_message_size m a"
  "hdr_message_size (set_num_readers a k m) a = hdr_message_size m a"
  "hdr_message_size (set_commit_flag a f m) a = hdr_message_size m a"
  "hdr_type (set_abs_offset a v m) a = hdr_type m a"
  "hdr_type (set_message_size a n m) a = hdr_type m a"
  "hdr_type (set_type a t m) a = message_type_value t"
  "hdr_type (set_num_readers a k m) a = hdr_type m a"
  "hdr_type (set_commit_flag a f m) a = hdr_type m a"
  "hdr_num_readers (set_abs_offset a v m) a = hdr_num_readers m a"
  "hdr_num_readers (set_message_size a n m) a = hdr_num_readers m a"
  "hdr_num_readers (set_type a t m) a = hdr_num_readers m a"
  "hdr_num_readers (set_num_readers a k m) a = k"
  "hdr_num_readers (set_commit_flag a f m) a = hdr_num_readers m a"
  "hdr_commit_flag (set_abs_offset a v m) a = hdr_commit_flag m a"
  "hdr_commit_flag (set_message_size a n m) a = hdr_commit_flag m a"
  "hdr_commit_flag (set_type a t m) a = hdr_commit_flag m a"
  "hdr_commit_flag (set_num_readers a k m) a = hdr_commit_flag m a"
  "hdr_commit_flag (set_commit_flag a f m) a = commit_flag_value f"
  by (simp_all add: hdr_get_defs hdr_set_defs mem_simps)

text \<open>Writing the payload of a header leaves the header alone.\<close>

lemma hdr_payload_frame [simp]:
  assumes "18 \<le> d"
  shows "hdr_abs_offset (mem_set m (a + d) b n) a = hdr_abs_offset m a"
    "hdr_message_size (mem_set m (a + d) b n) a = hdr_message_size m a"
    "hdr_type (mem_set m (a + d) b n) a = hdr_type m a"
    "hdr_num_readers (mem_set m (a + d) b n) a = hdr_num_readers m a"
    "hdr_commit_flag (mem_set m (a + d) b n) a = hdr_commit_flag m a"
    "hdr_abs_offset (write_bytes m (a + d) bs) a = hdr_abs_offset m a"
    "hdr_message_size (write_bytes m (a + d) bs) a = hdr_message_size m a"
    "hdr_type (write_bytes m (a + d) bs) a = hdr_type m a"
    "hdr_num_readers (write_bytes m (a + d) bs) a = hdr_num_readers m a"
    "hdr_commit_flag (write_bytes m (a + d) bs) a = hdr_commit_flag m a"
  using assms by (simp_all add: hdr_get_defs mem_simps)

text \<open>A header depends on its own 18 bytes only, and a write to it reaches no other byte.\<close>

lemma hdr_cong:
  assumes "\<And>i. a \<le> i \<Longrightarrow> i < a + 18 \<Longrightarrow> m i = m' i"
  shows "hdr_abs_offset m a = hdr_abs_offset m' a"
    "hdr_message_size m a = hdr_message_size m' a"
    "hdr_type m a = hdr_type m' a"
    "hdr_num_readers m a = hdr_num_readers m' a"
    "hdr_commit_flag m a = hdr_commit_flag m' a"
  unfolding hdr_get_defs by (auto intro!: load64_cong load32_cong assms)

lemma hdr_set_out [mem_simps]:
  assumes "i < a \<or> a + 18 \<le> i"
  shows "set_abs_offset a v m i = m i"
    "set_message_size a n m i = m i"
    "set_type a t m i = m i"
    "set_num_readers a k m i = m i"
    "set_commit_flag a f m i = m i"
  using assms by (auto simp: hdr_set_defs mem_simps)

end
