(* ===== verification/Ipc_Queue.thy ===== *)
theory Ipc_Queue
  imports Readers_And_Offset Ipc_Headers
begin

text \<open>
  The operations of \<open>IpcQueue\<close> on one mapped segment (message_transport/ipc_queue.cpp and
  public/messaging/ipc_queue.h) and of the RAII wrappers it hands out
  (ipc_queue_element_wrapper.h).

  Every operation takes the process-local queue object \<open>q\<close> and the shared segment \<open>s\<close> and
  returns them updated. Reserving space and waiting for the readers are separate functions, since
  other agents run between them; \<open>claim_buffer\<close> composes them for an agent nobody interrupts
  and returns \<open>Must_Wait\<close> where the code would spin.
\<close>

section \<open>State\<close>

record IpcQueue =
  is_writer :: bool
  file_name :: string
  agent_name :: string
  queue_size_bytes :: u64
  available_queue_size_bytes :: u64
  abs_read_offset :: u64
  read_message_cnt :: u64
  fd :: int

text \<open>
  A wrapper is the span it was built with: the ring offset of the message header and the total
  length. Readers also carry the \<open>released\<close> mark.
\<close>

record RaiiWrapper =
  wrapper_data :: nat
  wrapper_size :: u64

record ReaderWrapper = RaiiWrapper +
  released :: bool

section \<open>A new queue object and a new file\<close>

text \<open>
  The parameters, the member initialisers of the constructor (the file descriptor is opened
  after them) and \<open>init_new_file\<close>, which fills a file that did not exist before.
\<close>

record IpcQueueParameters =
  param_file_name :: string
  param_queue_size :: u64
  param_is_writer :: bool
  param_agent_name :: string

definition IpcQueue_members :: "IpcQueueParameters \<Rightarrow> IpcQueue" where
  "IpcQueue_members params =
     \<lparr>is_writer = param_is_writer params,
      file_name = param_file_name params,
      agent_name = param_agent_name params,
      queue_size_bytes = param_queue_size params + sizeof_GlobalHeader,
      available_queue_size_bytes = param_queue_size params,
      abs_read_offset = 0,
      read_message_cnt = 0,
      fd = -1\<rparr>"

definition init_new_file :: "IpcQueue \<Rightarrow> Segment" where
  "init_new_file q =
     \<lparr>global_header =
        \<lparr>magic = MAGIC,
         write_fields =
           \<lparr>readers_and_write_offset = 0, message_count = 0,
            shm_queue_size_bytes = queue_size_bytes q, num_writers = 0\<rparr>,
         read_fields = \<lparr>read_offset = 0, last_cleared_abs_offset = 0\<rparr>\<rparr>,
      ring = (\<lambda>_. 0)\<rparr>"

section \<open>Reader registration\<close>

text \<open>
  \<open>modify_readers\<close> retries its compare-and-exchange until it succeeds; as one atomic step it
  replaces the packed word by the packed word with the count changed.
\<close>

definition modify_readers :: "bool \<Rightarrow> Segment \<Rightarrow> Segment \<times> UnpackedReadersAndWriterOffset" where
  "modify_readers add_new_reader s =
     (let (desired, wrapper) =
        (if add_new_reader then return_add_reader (unwrap (packed_of s))
         else return_sub_reader (unwrap (packed_of s)))
      in (set_packed desired s, wrapper))"

definition IpcQueue_name :: "IpcQueue \<Rightarrow> string" where
  "IpcQueue_name q = agent_name q"

definition IpcQueue_num_readers :: "Segment \<Rightarrow> u64" where
  "IpcQueue_num_readers s = num_readers (unwrap (packed_of s))"

section \<open>Releasing a message\<close>

definition release_buffer ::
    "IpcQueue \<Rightarrow> Segment \<Rightarrow> nat \<Rightarrow> error + (IpcQueue \<times> Segment)" where
  "release_buffer q s a =
     (let message_len = ucast (hdr_message_size (ring s) a) :: u64;
          total_message_len = message_len + sizeof_MessageHeader in
      bindE (assertE ''abs_read_offset % available_queue_size_bytes == distance''
               (unat (abs_read_offset q mod available_queue_size_bytes q) = a)) (\<lambda>_.
      bindE (assertE ''total_message_len <= available_queue_size_bytes''
               (total_message_len \<le> available_queue_size_bytes q)) (\<lambda>_.
      let q1 = q\<lparr>abs_read_offset := abs_read_offset q + total_message_len\<rparr>;
          prev_count = hdr_num_readers (ring s) a;
          s1 = s\<lparr>ring := set_num_readers a (prev_count - 1) (ring s)\<rparr> in
      if prev_count > 1 then Inr (q1, s1)
      else
        let m2 = mem_set (ring s1) (a + 18) 0 (unat (hdr_message_size (ring s1) a));
            s2 = set_last_cleared (hdr_abs_offset m2 a) (s1\<lparr>ring := m2\<rparr>);
            m3 = set_commit_flag a NOT_READY (set_type a NORMAL (set_message_size a 0 (ring s2)));
            prev_read_low_watermark = read_offset_of s2;
            s3 = set_read_offset (prev_read_low_watermark + total_message_len) (s2\<lparr>ring := m3\<rparr>) in
        bindE (assertE ''prev_read_low_watermark + total_message_len == abs_read_offset''
                 (prev_read_low_watermark + total_message_len = abs_read_offset q1)) (\<lambda>_.
        Inr (q1, s3)))))"

section \<open>Committing, aborting and padding\<close>

definition commit_buffer :: "Segment \<Rightarrow> nat \<Rightarrow> Segment" where
  "commit_buffer s a = s\<lparr>ring := set_commit_flag a READY_FOR_CONSUMER (ring s)\<rparr>"

definition abort_buffer :: "Segment \<Rightarrow> nat \<Rightarrow> Segment" where
  "abort_buffer s a =
     (let m1 = mem_set (ring s) (a + 18) 0 (unat (hdr_message_size (ring s) a))
      in s\<lparr>ring := set_commit_flag a ABORTED m1\<rparr>)"

text \<open>
  \<open>message_header + sizeof(MessageHeader)\<close> is arithmetic on a \<open>MessageHeader*\<close>, so the
  payload pointer of the padding is \<open>18 * 18\<close> bytes past the header, not 18.
\<close>

definition skip_payload :: "nat \<Rightarrow> nat" where
  "skip_payload a = a + unat sizeof_MessageHeader * unat sizeof_MessageHeader"

definition insert_skip_message ::
    "IpcQueue \<Rightarrow> Segment \<Rightarrow> u64 \<Rightarrow> u64 \<Rightarrow> error + Segment" where
  "insert_skip_message q s abs_skip_offset n =
     (let skip_offset = abs_skip_offset mod available_queue_size_bytes q;
          padding_size = available_queue_size_bytes q - skip_offset - sizeof_MessageHeader;
          a = unat skip_offset in
      bindE (assertE ''skip_offset + sizeof(MessageHeader) <= available_queue_size_bytes''
               (skip_offset + sizeof_MessageHeader \<le> available_queue_size_bytes q)) (\<lambda>_.
      let m1 = set_abs_offset a abs_skip_offset (ring s);
          m2 = set_message_size a (ucast padding_size) m1;
          m3 = set_type a PADDING m2;
          m4 = set_num_readers a (ucast n) m3;
          m5 = mem_set m4 (skip_payload a) 0 (unat padding_size) in
      Inr (commit_buffer (s\<lparr>ring := m5\<rparr>) a)))"

section \<open>Claiming space\<close>

definition bytes_remaining_at_end :: "u64 \<Rightarrow> u64 \<Rightarrow> u64" where
  "bytes_remaining_at_end available off = available - off mod available"

definition bytes_to_bump :: "u64 \<Rightarrow> u64 \<Rightarrow> u64 \<Rightarrow> u64" where
  "bytes_to_bump available off total_len =
     (if total_len + sizeof_MessageHeader \<le> bytes_remaining_at_end available off then total_len
      else bytes_remaining_at_end available off)"

text \<open>
  A ticket is what a successful compare-and-exchange gives the writer: the packed word it
  replaced, unpacked, and the absolute offset where its region ends.
\<close>

record Ticket =
  claimed_word :: UnpackedReadersAndWriterOffset
  claimed_end :: u64

definition reserve_write_offset :: "IpcQueue \<Rightarrow> Segment \<Rightarrow> u64 \<Rightarrow> Segment \<times> Ticket" where
  "reserve_write_offset q s total_size_with_header =
     (let current = packed_of s;
          wrapper = unwrap current;
          bump = bytes_to_bump (available_queue_size_bytes q) (write_offset wrapper)
                   total_size_with_header;
          (desired, wrapper') = return_add_offset wrapper bump
      in (set_packed desired s, \<lparr>claimed_word = unwrap current, claimed_end = write_offset wrapper'\<rparr>))"

definition must_wait :: "IpcQueue \<Rightarrow> Segment \<Rightarrow> Ticket \<Rightarrow> bool" where
  "must_wait q s t \<longleftrightarrow> claimed_end t - read_offset_of s > available_queue_size_bytes q"

text \<open>
  After the wait: either the region is at the end of the ring and only takes a skip message
  (\<open>None\<close>: claim again), or the header is written and the wrapper handed out.
\<close>

definition place_claim ::
    "IpcQueue \<Rightarrow> Segment \<Rightarrow> u64 \<Rightarrow> Ticket \<Rightarrow> error + (Segment \<times> RaiiWrapper option)" where
  "place_claim q s msg_size t =
     (let wrapper = claimed_word t;
          total_message_len = msg_size + sizeof_MessageHeader;
          rel_write_offset = write_offset wrapper mod available_queue_size_bytes q;
          remaining = available_queue_size_bytes q - rel_write_offset in
      if total_message_len + sizeof_MessageHeader > remaining then
        bindE (insert_skip_message q s (write_offset wrapper) (num_readers wrapper))
          (\<lambda>s'. Inr (s', None))
      else
        let a = unat rel_write_offset;
            m1 = set_abs_offset a (write_offset wrapper) (ring s);
            m2 = set_message_size a (ucast msg_size) m1;
            m3 = set_type a NORMAL m2;
            m4 = set_num_readers a (ucast (num_readers wrapper)) m3;
            s1 = set_count (count_of s + 1) (s\<lparr>ring := m4\<rparr>) in
        Inr (s1, Some \<lparr>wrapper_data = a, wrapper_size = total_message_len\<rparr>))"

datatype ClaimResult =
    Claimed Segment RaiiWrapper
  | Must_Wait Segment Ticket

text \<open>
  The recursion of \<open>claim_buffer\<close> after a skip message is bounded by fuel; \<open>None\<close> is fuel
  run out. \<open>claim_resume\<close> is the code from the wait loop on, for a writer that was spinning.
\<close>

fun claim_buffer :: "nat \<Rightarrow> IpcQueue \<Rightarrow> Segment \<Rightarrow> u64 \<Rightarrow> (error + ClaimResult) option"
  and claim_resume ::
    "nat \<Rightarrow> IpcQueue \<Rightarrow> Segment \<Rightarrow> u64 \<Rightarrow> Ticket \<Rightarrow> (error + ClaimResult) option" where
  "claim_buffer 0 q s msg_size = None"
| "claim_buffer (Suc n) q s msg_size =
     (if msg_size > available_queue_size_bytes q - sizeof_MessageHeader \<or> \<not> is_writer q then
        Some (Inl Message_Too_Large)
      else if msg_size = 0 then Some (Inl Message_Empty)
      else let (s1, t) = reserve_write_offset q s (msg_size + sizeof_MessageHeader)
           in claim_resume n q s1 msg_size t)"
| "claim_resume n q s msg_size t =
     (if must_wait q s t then Some (Inr (Must_Wait s t))
      else case place_claim q s msg_size t of
        Inl e \<Rightarrow> Some (Inl e)
      | Inr (s', Some b) \<Rightarrow> Some (Inr (Claimed s' b))
      | Inr (s', None) \<Rightarrow> claim_buffer n q s' msg_size)"

declare claim_buffer.simps(2) [simp del] claim_resume.simps [simp del]

section \<open>Polling\<close>

definition mk_reader_wrapper :: "nat \<Rightarrow> u64 \<Rightarrow> ReaderWrapper" where
  "mk_reader_wrapper a len = \<lparr>wrapper_data = a, wrapper_size = len, released = False\<rparr>"

text \<open>
  One level of \<open>poll_buffer\<close>: it returns to the caller, or it has released a skip message or an
  aborted message and polls again.
\<close>

datatype PollStep =
    Poll_Return IpcQueue Segment "ReaderWrapper option"
  | Poll_Again IpcQueue Segment

definition poll_once :: "IpcQueue \<Rightarrow> Segment \<Rightarrow> error + PollStep" where
  "poll_once q s =
     (if is_writer q then Inl Producer_Cannot_Poll
      else
        let a = unat (abs_read_offset q mod available_queue_size_bytes q) in
        case commit_flag_of_byte (hdr_commit_flag (ring s) a) of
          Some READY_FOR_CONSUMER \<Rightarrow>
            (if abs_read_offset q \<noteq> hdr_abs_offset (ring s) a then Inr (Poll_Return q s None)
             else
               let total_message_len =
                     ucast (hdr_message_size (ring s) a) + sizeof_MessageHeader in
               bindE (assertE ''total_message_len <= available_queue_size_bytes''
                        (total_message_len \<le> available_queue_size_bytes q)) (\<lambda>_.
               if hdr_type (ring s) a = message_type_value PADDING then
                 bindE (release_buffer q s a) (\<lambda>(q', s'). Inr (Poll_Again q' s'))
               else
                 Inr (Poll_Return (q\<lparr>read_message_cnt := read_message_cnt q + 1\<rparr>) s
                        (Some (mk_reader_wrapper a total_message_len)))))
        | Some ABORTED \<Rightarrow>
            bindE (release_buffer q s a) (\<lambda>(q', s'). Inr (Poll_Again q' s'))
        | _ \<Rightarrow> Inr (Poll_Return q s None))"

text \<open>The whole recursion; each level takes one unit of fuel and \<open>None\<close> is fuel run out.\<close>

fun poll_buffer ::
    "nat \<Rightarrow> IpcQueue \<Rightarrow> Segment \<Rightarrow> (error + (IpcQueue \<times> Segment \<times> ReaderWrapper option)) option" where
  "poll_buffer 0 q s = None"
| "poll_buffer (Suc n) q s =
     (case poll_once q s of
        Inl e \<Rightarrow> Some (Inl e)
      | Inr (Poll_Return q' s' r) \<Rightarrow> Some (Inr (q', s', r))
      | Inr (Poll_Again q' s') \<Rightarrow> poll_buffer n q' s')"

text \<open>
  \<open>read_buffer\<close> polls until a message is there. What the other agents do to the segment while
  it spins is the argument \<open>others\<close>, indexed by the round; the fuel bounds the rounds.
\<close>

fun read_buffer ::
    "nat \<Rightarrow> nat \<Rightarrow> (nat \<Rightarrow> Segment \<Rightarrow> Segment) \<Rightarrow> IpcQueue \<Rightarrow> Segment \<Rightarrow>
     (error + (IpcQueue \<times> Segment \<times> ReaderWrapper)) option" where
  "read_buffer 0 k others q s = None"
| "read_buffer (Suc n) k others q s =
     (case poll_buffer k q s of
        None \<Rightarrow> None
      | Some (Inl e) \<Rightarrow> Some (Inl e)
      | Some (Inr (q', s', Some r)) \<Rightarrow> Some (Inr (q', s', r))
      | Some (Inr (q', s', None)) \<Rightarrow> read_buffer n k others q' (others n s'))"

section \<open>Leaving\<close>

text \<open>
  \<open>decrement_readers_until\<close>: a reader that leaves releases what it has not read. The loop
  stops at the first message that is not \<open>READY_FOR_CONSUMER\<close>.
\<close>

fun decrement_readers_until ::
    "nat \<Rightarrow> IpcQueue \<Rightarrow> Segment \<Rightarrow> u64 \<Rightarrow> (error + (IpcQueue \<times> Segment)) option" where
  "decrement_readers_until 0 q s abs_write_offset = None"
| "decrement_readers_until (Suc n) q s abs_write_offset =
     (if abs_read_offset q \<le> abs_write_offset then
        let a = unat (abs_read_offset q mod available_queue_size_bytes q) in
        if commit_flag_of_byte (hdr_commit_flag (ring s) a) \<noteq> Some READY_FOR_CONSUMER then
          Some (Inr (q, s))
        else (case release_buffer q s a of
                Inl e \<Rightarrow> Some (Inl e)
              | Inr (q', s') \<Rightarrow> decrement_readers_until n q' s' abs_write_offset)
      else Some (Inr (q, s)))"

section \<open>The RAII wrappers\<close>

definition write_to_buffer :: "Segment \<Rightarrow> RaiiWrapper \<Rightarrow> u8 list \<Rightarrow> error + Segment" where
  "write_to_buffer s w data =
     bindE (assertE ''size + sizeof(MessageHeader) <= wrapper.size_bytes()''
              (length data + unat sizeof_MessageHeader \<le> unat (wrapper_size w))) (\<lambda>_.
     Inr (commit_buffer (s\<lparr>ring := write_bytes (ring s) (wrapper_data w + 18) data\<rparr>)
            (wrapper_data w)))"

definition wrapper_commit :: "Segment \<Rightarrow> RaiiWrapper \<Rightarrow> Segment" where
  "wrapper_commit s w = commit_buffer s (wrapper_data w)"

definition wrapper_abort :: "Segment \<Rightarrow> RaiiWrapper \<Rightarrow> Segment" where
  "wrapper_abort s w = abort_buffer s (wrapper_data w)"

text \<open>
  The constructors of a writer's wrapper. Moving one copies its span and leaves the other with its
  own; its destructor does nothing.
\<close>

definition make_writer_wrapper :: "nat \<Rightarrow> u64 \<Rightarrow> RaiiWrapper" where
  "make_writer_wrapper buffer buffer_size = \<lparr>wrapper_data = buffer, wrapper_size = buffer_size\<rparr>"

definition writer_move :: "RaiiWrapper \<Rightarrow> RaiiWrapper \<times> RaiiWrapper" where
  "writer_move other = (make_writer_wrapper (wrapper_data other) (wrapper_size other), other)"

lemma writer_move_fst [simp]: "fst (writer_move b) = b"
  by (simp add: writer_move_def make_writer_wrapper_def)

text \<open>\<open>get_as_span\<close> of a writer: where its payload starts and how long it is.\<close>

definition get_as_span :: "RaiiWrapper \<Rightarrow> nat \<times> u64" where
  "get_as_span w = (wrapper_data w + 18, wrapper_size w - sizeof_MessageHeader)"

definition mark_as_read :: "ReaderWrapper \<Rightarrow> ReaderWrapper" where
  "mark_as_read r = r\<lparr>released := True\<rparr>"

definition wrapper_release ::
    "IpcQueue \<Rightarrow> Segment \<Rightarrow> ReaderWrapper \<Rightarrow> error + (IpcQueue \<times> Segment \<times> ReaderWrapper)" where
  "wrapper_release q s r =
     bindE (release_buffer q s (wrapper_data r)) (\<lambda>(q', s'). Inr (q', s', r\<lparr>released := True\<rparr>))"

text \<open>The destructor of a reader wrapper releases the message unless it was released before.\<close>

definition wrapper_destruct ::
    "IpcQueue \<Rightarrow> Segment \<Rightarrow> ReaderWrapper \<Rightarrow> error + (IpcQueue \<times> Segment)" where
  "wrapper_destruct q s r =
     (if released r then Inr (q, s)
      else bindE (wrapper_release q s r) (\<lambda>(q', s', r'). Inr (q', s')))"

text \<open>
  The move constructor: the new wrapper has the other's span and is not released, the other is
  left empty and released.
\<close>

definition reader_move :: "ReaderWrapper \<Rightarrow> ReaderWrapper \<times> ReaderWrapper" where
  "reader_move other =
     (mk_reader_wrapper (wrapper_data other) (wrapper_size other),
      other\<lparr>wrapper_data := 0, wrapper_size := 0, released := True\<rparr>)"

definition get_as :: "nat \<Rightarrow> Segment \<Rightarrow> ReaderWrapper \<Rightarrow> error + u8 list" where
  "get_as sizeof_T s r =
     bindE (assertE ''sizeof(T) <= wrapper.size_bytes()'' (sizeof_T \<le> unat (wrapper_size r))) (\<lambda>_.
     Inr (read_bytes (ring s) (wrapper_data r + 18) sizeof_T))"

definition copy_contents_into :: "Segment \<Rightarrow> ReaderWrapper \<Rightarrow> u64 \<Rightarrow> error + (u8 list \<times> u64)" where
  "copy_contents_into s r max_capacity =
     (let n = wrapper_size r - sizeof_MessageHeader in
      bindE (assertE ''max_capacity >= (wrapper.size_bytes() - sizeof(MessageHeader))''
               (max_capacity \<ge> n)) (\<lambda>_.
      Inr (read_bytes (ring s) (wrapper_data r + 18) (unat n), n)))"

definition get_as_view :: "Segment \<Rightarrow> ReaderWrapper \<Rightarrow> u8 list" where
  "get_as_view s r =
     read_bytes (ring s) (wrapper_data r + 18) (unat (wrapper_size r - sizeof_MessageHeader))"

definition get_buffer :: "Segment \<Rightarrow> ReaderWrapper \<Rightarrow> nat option" where
  "get_buffer s r =
     (if commit_flag_of_byte (hdr_commit_flag (ring s) (wrapper_data r)) = Some READY_FOR_CONSUMER
      then Some (wrapper_data r + 18) else None)"

definition get_payload_size :: "Segment \<Rightarrow> ReaderWrapper \<Rightarrow> u64" where
  "get_payload_size s r = ucast (hdr_message_size (ring s) (wrapper_data r))"

end
