(* ===== verification/Ipc_Claim.thy ===== *)
theory Ipc_Claim
  imports Ipc_Queue
begin

text \<open>
  The writer's side of the queue: what reserving space does to the write offset, when a region
  takes a skip message, which bytes placing a claim writes, and what \<open>claim_buffer\<close> returns.
  Offsets are read as natural numbers; the hypotheses keep them below \<open>2 ^ 56\<close>, where the packed
  offset would wrap.
\<close>

section \<open>Offsets as natural numbers\<close>

definition q_cap :: "IpcQueue \<Rightarrow> nat" where
  "q_cap q = unat (available_queue_size_bytes q)"

definition seg_hi :: "Segment \<Rightarrow> nat" where
  "seg_hi s = unat (write_offset (unwrap (packed_of s)))"

definition seg_lo :: "Segment \<Rightarrow> nat" where
  "seg_lo s = unat (read_offset_of s)"

definition seg_readers :: "Segment \<Rightarrow> nat" where
  "seg_readers s = unat (num_readers (unwrap (packed_of s)))"

definition ticket_start :: "Ticket \<Rightarrow> nat" where
  "ticket_start t = unat (write_offset (claimed_word t))"

definition ticket_end :: "Ticket \<Rightarrow> nat" where
  "ticket_end t = unat (claimed_end t)"

text \<open>
  A queue object of a usable size. The constructor allows at most 2 to the power 30; below 64
  bytes no message of at least one byte can be placed.
\<close>

definition sane_queue :: "IpcQueue \<Rightarrow> bool" where
  "sane_queue q \<longleftrightarrow> 64 \<le> q_cap q \<and> q_cap q \<le> 2 ^ 30"

lemma seg_hi_less: "seg_hi s < 2 ^ 56"
  unfolding seg_hi_def by (rule unat_write_offset_less)

lemma seg_nat_frames [simp]:
  "seg_hi (set_count c s) = seg_hi s" "seg_lo (set_count c s) = seg_lo s"
  "seg_hi (set_read_offset r s) = seg_hi s"
  "seg_hi (set_last_cleared r s) = seg_hi s" "seg_lo (set_last_cleared r s) = seg_lo s"
  "seg_hi (s\<lparr>ring := m\<rparr>) = seg_hi s" "seg_lo (s\<lparr>ring := m\<rparr>) = seg_lo s"
  "seg_lo (set_packed p s) = seg_lo s"
  "seg_lo (set_read_offset r s) = unat r"
  "seg_readers (set_count c s) = seg_readers s"
  "seg_readers (set_read_offset r s) = seg_readers s"
  "seg_readers (set_last_cleared r s) = seg_readers s"
  "seg_readers (s\<lparr>ring := m\<rparr>) = seg_readers s"
  by (simp_all add: seg_hi_def seg_lo_def seg_readers_def)

lemma unat_sizeof_MessageHeader [simp]: "unat sizeof_MessageHeader = 18"
  by (simp add: sizeof_MessageHeader_def)

subsection \<open>The reservation\<close>

definition region_len :: "nat \<Rightarrow> nat \<Rightarrow> nat \<Rightarrow> nat" where
  "region_len c off n = (if n + 18 \<le> c - off mod c then n else c - off mod c)"

lemma mod_room:
  fixes off c :: nat
  assumes "0 < c"
  shows "off mod c + (c - off mod c) = c" "0 < c - off mod c"
  using mod_less_divisor [OF assms, of off] by simp_all

lemma mod_to_end:
  fixes off c :: nat
  assumes "0 < c"
  shows "(off + (c - off mod c)) mod c = 0"
proof -
  have "(off + (c - off mod c)) mod c = (off mod c + (c - off mod c)) mod c"
    by (rule mod_add_left_eq [symmetric])
  then show ?thesis by (simp add: mod_room(1) [OF assms])
qed

lemma unat_bytes_remaining:
  assumes "0 < q_cap q"
  shows "unat (bytes_remaining_at_end (available_queue_size_bytes q) off)
     = q_cap q - unat off mod q_cap q"
  using mod_less_divisor [OF assms, of "unat off"]
  by (simp add: bytes_remaining_at_end_def q_cap_def unat_sub_u64 unat_mod_u64)

lemma unat_bytes_to_bump:
  assumes "sane_queue q" "unat n < 2 ^ 32"
  shows "unat (bytes_to_bump (available_queue_size_bytes q) off n)
     = region_len (q_cap q) (unat off) (unat n)"
proof -
  have pos: "0 < q_cap q" using assms(1) by (simp add: sane_queue_def)
  have "unat (n + sizeof_MessageHeader) = unat n + 18"
    using assms(2) by (simp add: unat_add_u64)
  then show ?thesis
    by (simp add: bytes_to_bump_def region_len_def word_le_nat_alt unat_bytes_remaining [OF pos])
qed

lemma region_len_le: "region_len c off n \<le> c"
  by (simp add: region_len_def) arith

lemma reserve_write_offset_nat:
  assumes sane: "sane_queue q" and n: "unat n < 2 ^ 32"
    and room: "seg_hi s + region_len (q_cap q) (seg_hi s) (unat n) < 2 ^ 56"
    and eq: "reserve_write_offset q s n = (s', t)"
  shows "seg_hi s' = seg_hi s + region_len (q_cap q) (seg_hi s) (unat n)"
    and "claimed_word t = unwrap (packed_of s)"
    and "ticket_start t = seg_hi s"
    and "ticket_end t = seg_hi s'"
    and "seg_readers s' = seg_readers s"
    and "seg_lo s' = seg_lo s"
    and "ring s' = ring s"
proof -
  let ?off = "write_offset (unwrap (packed_of s))"
  let ?bump = "bytes_to_bump (available_queue_size_bytes q) ?off n"
  have bump: "unat ?bump = region_len (q_cap q) (seg_hi s) (unat n)"
    using unat_bytes_to_bump [OF sane n, of ?off] by (simp add: seg_hi_def)
  have s': "s' = set_packed (fst (return_add_offset (unwrap (packed_of s)) ?bump)) s"
    and t: "t = \<lparr>claimed_word = unwrap (packed_of s), claimed_end = ?off + ?bump\<rparr>"
    using eq by (auto simp: reserve_write_offset_def return_add_offset_def Let_def)
  show hi: "seg_hi s' = seg_hi s + region_len (q_cap q) (seg_hi s) (unat n)"
    using room by (simp add: s' seg_hi_def packed_offset_add bump)
  show "claimed_word t = unwrap (packed_of s)" by (simp add: t)
  then show "ticket_start t = seg_hi s" by (simp add: ticket_start_def seg_hi_def)
  have "unat (?off + ?bump) = unat ?off + unat ?bump"
    using room bump by (intro unat_add_u64) (simp add: seg_hi_def)
  then show "ticket_end t = seg_hi s'"
    using hi bump by (simp add: t ticket_end_def) (simp add: seg_hi_def)
  show "seg_readers s' = seg_readers s" "seg_lo s' = seg_lo s" "ring s' = ring s"
    by (simp_all add: s' seg_readers_def packed_frames)
qed

text \<open>
  The offset invariant of the ring: from the write position to the end of the ring there is room
  for one more header, so a region that does not fit can always be turned into a skip message.
\<close>

definition header_room :: "nat \<Rightarrow> nat \<Rightarrow> bool" where
  "header_room c off \<longleftrightarrow> off mod c + 18 \<le> c"

lemma header_room_0: "18 \<le> c \<Longrightarrow> header_room c 0"
  by (simp add: header_room_def)

lemma header_room_region:
  assumes "header_room c off" "18 \<le> c"
  shows "header_room c (off + region_len c off n)"
proof (cases "n + 18 \<le> c - off mod c")
  case True
  with assms have "off mod c + n < c" by simp
  then have "(off + n) mod c = off mod c + n"
    by (metis mod_add_left_eq mod_less)
  with True assms show ?thesis by (simp add: header_room_def region_len_def)
next
  case False
  have "(off + (c - off mod c)) mod c = 0" using assms(2) by (intro mod_to_end) simp
  with False assms show ?thesis by (simp add: header_room_def region_len_def)
qed

lemma region_end_in_ring:
  assumes "0 < c"
  shows "off mod c + region_len c off n \<le> c"
  using mod_room [OF assms, of off] by (auto simp: region_len_def)

lemma region_len_ge:
  assumes "header_room c off" "18 \<le> n"
  shows "18 \<le> region_len c off n"
  using assms by (auto simp: region_len_def header_room_def)

subsection \<open>Waiting for the readers\<close>

lemma must_wait_nat:
  assumes "seg_lo s \<le> ticket_end t"
  shows "must_wait q s t \<longleftrightarrow> q_cap q < ticket_end t - seg_lo s"
  using assms
  by (simp add: must_wait_def ticket_end_def seg_lo_def q_cap_def word_less_nat_alt unat_sub_u64)

lemma mod_advance:
  fixes c i k :: nat
  assumes "i < c" "k mod c \<le> i"
  shows "(k + (i - k mod c)) mod c = i"
proof -
  have "(k + (i - k mod c)) mod c = (k mod c + (i - k mod c)) mod c"
    by (rule mod_add_left_eq [symmetric])
  with assms show ?thesis by simp
qed

text \<open>
  Two regions that lie, disjoint, inside one window of the ring's size and do not straddle its
  end occupy disjoint ring bytes.
\<close>

lemma ring_disjoint:
  fixes c s1 s2 t1 t2 i :: nat
  assumes "s1 + t1 \<le> s2" "s2 + t2 \<le> s1 + c"
    and "s1 mod c + t1 \<le> c" "s2 mod c + t2 \<le> c"
    and "s1 mod c \<le> i" "i < s1 mod c + t1" "s2 mod c \<le> i" "i < s2 mod c + t2"
  shows False
proof -
  define y1 where "y1 = s1 + (i - s1 mod c)"
  define y2 where "y2 = s2 + (i - s2 mod c)"
  have "i < c" using assms(3,6) by simp
  have "y1 mod c = i" and "y2 mod c = i"
    unfolding y1_def y2_def using \<open>i < c\<close> assms(5,7) by (simp_all only: mod_advance)
  moreover have "y1 < y2" and "y2 < y1 + c"
    using assms by (simp_all add: y1_def y2_def)
  ultimately have "(y2 - y1) mod c = 0"
    by (metis less_imp_le_nat mod_eq_dvd_iff_nat mod_0_imp_dvd dvd_imp_mod_0)
  then show False
    using \<open>y1 < y2\<close> \<open>y2 < y1 + c\<close> by (simp add: mod_less)
qed

section \<open>Placing a claim\<close>

text \<open>The ring after a skip message and after the header of a message, as one expression.\<close>

definition skip_ring :: "nat \<Rightarrow> u64 \<Rightarrow> u64 \<Rightarrow> u64 \<Rightarrow> mem \<Rightarrow> mem" where
  "skip_ring a off pad n m =
     set_commit_flag a READY_FOR_CONSUMER
       (mem_set (set_num_readers a (ucast n) (set_type a PADDING
          (set_message_size a (ucast pad) (set_abs_offset a off m)))) (a + 324) 0 (unat pad))"

definition header_ring :: "nat \<Rightarrow> u64 \<Rightarrow> u64 \<Rightarrow> u64 \<Rightarrow> mem \<Rightarrow> mem" where
  "header_ring a off sz n m =
     set_num_readers a (ucast n) (set_type a NORMAL
       (set_message_size a (ucast sz) (set_abs_offset a off m)))"

lemma skip_ring_header:
  "hdr_abs_offset (skip_ring a off pad n m) a = off"
  "hdr_message_size (skip_ring a off pad n m) a = ucast pad"
  "hdr_type (skip_ring a off pad n m) a = message_type_value PADDING"
  "hdr_num_readers (skip_ring a off pad n m) a = ucast n"
  "hdr_commit_flag (skip_ring a off pad n m) a = commit_flag_value READY_FOR_CONSUMER"
  by (simp_all add: skip_ring_def)

lemma header_ring_header:
  "hdr_abs_offset (header_ring a off sz n m) a = off"
  "hdr_message_size (header_ring a off sz n m) a = ucast sz"
  "hdr_type (header_ring a off sz n m) a = message_type_value NORMAL"
  "hdr_num_readers (header_ring a off sz n m) a = ucast n"
  "hdr_commit_flag (header_ring a off sz n m) a = hdr_commit_flag m a"
  by (simp_all add: header_ring_def)

lemma header_ring_out: "i < a \<or> a + 18 \<le> i \<Longrightarrow> header_ring a off sz n m i = m i"
  by (simp add: header_ring_def mem_simps)

lemma skip_ring_out:
  "i < a \<or> a + 18 \<le> i \<Longrightarrow>
   skip_ring a off pad n m i = (if a + 324 \<le> i \<and> i < a + 324 + unat pad then 0 else m i)"
  by (auto simp: skip_ring_def mem_simps mem_set_def)

lemma insert_skip_message_eq:
  assumes "sane_queue q" and "header_room (q_cap q) (unat off)"
  shows "insert_skip_message q s off n = Inr (s\<lparr>ring :=
     skip_ring (unat off mod q_cap q) off
       (available_queue_size_bytes q - off mod available_queue_size_bytes q - sizeof_MessageHeader)
       n (ring s)\<rparr>)"
proof -
  let ?c = "available_queue_size_bytes q"
  have room: "unat (off mod ?c) + 18 \<le> q_cap q"
    using assms(2) by (simp add: header_room_def unat_mod_u64 q_cap_def)
  have "unat (off mod ?c) + 18 < 2 ^ 64"
    using room assms(1) by (simp add: sane_queue_def)
  then have "off mod ?c + sizeof_MessageHeader \<le> ?c"
    using room by (simp add: word_le_nat_alt unat_add_u64 q_cap_def)
  then show ?thesis
    by (simp add: insert_skip_message_def commit_buffer_def skip_ring_def skip_payload_def
        unat_mod_u64 q_cap_def Let_def)
qed

lemma unat_padding_size:
  assumes "sane_queue q" and "header_room (q_cap q) (unat off)"
  shows "unat (available_queue_size_bytes q - off mod available_queue_size_bytes q
       - sizeof_MessageHeader) = q_cap q - unat off mod q_cap q - 18"
proof -
  let ?c = "available_queue_size_bytes q"
  have "unat (off mod ?c) \<le> unat ?c"
    using assms(2) by (simp add: header_room_def unat_mod_u64 q_cap_def)
  then have "unat (?c - off mod ?c) = q_cap q - unat off mod q_cap q"
    by (simp add: unat_sub_u64 unat_mod_u64 q_cap_def)
  moreover have "18 \<le> q_cap q - unat off mod q_cap q"
    using assms(2) by (simp add: header_room_def)
  ultimately show ?thesis
    by (simp add: unat_sub_u64)
qed

text \<open>Whether a claim fits is decided by the region the reservation took.\<close>

definition claim_fits :: "nat \<Rightarrow> nat \<Rightarrow> nat \<Rightarrow> bool" where
  "claim_fits c off sz \<longleftrightarrow> sz + 36 \<le> c - off mod c"

lemma region_len_fits: "claim_fits c off sz \<Longrightarrow> region_len c off (sz + 18) = sz + 18"
  by (simp add: claim_fits_def region_len_def)

lemma region_len_not_fits:
  "\<not> claim_fits c off sz \<Longrightarrow> region_len c off (sz + 18) = c - off mod c"
  by (auto simp: claim_fits_def region_len_def)

lemma place_claim_guard:
  assumes "sane_queue q" "unat sz < 2 ^ 31"
  shows "(sz + sizeof_MessageHeader + sizeof_MessageHeader
           > available_queue_size_bytes q - off mod available_queue_size_bytes q)
     \<longleftrightarrow> \<not> claim_fits (q_cap q) (unat off) (unat sz)"
proof -
  have pos: "0 < q_cap q" using assms(1) by (simp add: sane_queue_def)
  have "unat (sz + sizeof_MessageHeader) = unat sz + 18"
    using assms(2) by (simp add: unat_add_u64)
  then have "unat (sz + sizeof_MessageHeader + sizeof_MessageHeader) = unat sz + 36"
    using assms(2) by (subst unat_add_u64) simp_all
  then show ?thesis
    using unat_bytes_remaining [OF pos, of off]
    by (auto simp: bytes_remaining_at_end_def word_less_nat_alt claim_fits_def)
qed

lemma place_claim_fits:
  assumes "sane_queue q" "unat sz < 2 ^ 31"
    and "claim_fits (q_cap q) (ticket_start t) (unat sz)"
  shows "place_claim q s sz t =
    Inr (set_count (count_of s + 1) (s\<lparr>ring :=
           header_ring (ticket_start t mod q_cap q) (write_offset (claimed_word t)) sz
             (num_readers (claimed_word t)) (ring s)\<rparr>),
         Some \<lparr>wrapper_data = ticket_start t mod q_cap q,
               wrapper_size = sz + sizeof_MessageHeader\<rparr>)"
  using place_claim_guard [OF assms(1,2), of "write_offset (claimed_word t)"] assms(3)
  by (simp add: place_claim_def ticket_start_def header_ring_def unat_mod_u64 q_cap_def Let_def)

lemma place_claim_skips:
  assumes "sane_queue q" "unat sz < 2 ^ 31"
    and "\<not> claim_fits (q_cap q) (ticket_start t) (unat sz)"
    and "header_room (q_cap q) (ticket_start t)"
  shows "place_claim q s sz t =
    Inr (s\<lparr>ring := skip_ring (ticket_start t mod q_cap q) (write_offset (claimed_word t))
       (available_queue_size_bytes q
          - write_offset (claimed_word t) mod available_queue_size_bytes q - sizeof_MessageHeader)
       (num_readers (claimed_word t)) (ring s)\<rparr>, None)"
  using place_claim_guard [OF assms(1,2), of "write_offset (claimed_word t)"] assms(3,4)
  by (simp add: place_claim_def ticket_start_def insert_skip_message_eq [OF assms(1)] Let_def)

lemma place_claim_size:
  "place_claim q s sz t = Inr (s', Some b) \<Longrightarrow> wrapper_size b = sz + sizeof_MessageHeader"
  by (auto simp: place_claim_def Let_def bindE_eq_Inr split: if_splits)

section \<open>Concrete queues for the witnesses\<close>

text \<open>A writer and a reader object of a queue of \<open>n\<close> bytes, and the file the first creates.\<close>

definition demo_params :: "u64 \<Rightarrow> bool \<Rightarrow> IpcQueueParameters" where
  "demo_params n w =
     \<lparr>param_file_name = ''/q'', param_queue_size = n, param_is_writer = w,
      param_agent_name = ''demo''\<rparr>"

definition demo_writer :: "u64 \<Rightarrow> IpcQueue" where
  "demo_writer n = IpcQueue_members (demo_params n True)"

definition demo_reader :: "u64 \<Rightarrow> IpcQueue" where
  "demo_reader n = IpcQueue_members (demo_params n False)"

definition demo_segment :: "u64 \<Rightarrow> Segment" where
  "demo_segment n = init_new_file (demo_writer n)"

lemma demo_queue_simps [simp]:
  "available_queue_size_bytes (demo_writer n) = n" "is_writer (demo_writer n)"
  "available_queue_size_bytes (demo_reader n) = n" "\<not> is_writer (demo_reader n)"
  "abs_read_offset (demo_reader n) = 0"
  "q_cap (demo_writer n) = unat n" "q_cap (demo_reader n) = unat n"
  by (simp_all add: demo_writer_def demo_reader_def demo_params_def IpcQueue_members_def q_cap_def)

lemma demo_segment_simps [simp]:
  "packed_of (demo_segment n) = 0" "read_offset_of (demo_segment n) = 0"
  "count_of (demo_segment n) = 0" "ring (demo_segment n) i = 0"
  "seg_hi (demo_segment n) = 0" "seg_lo (demo_segment n) = 0" "seg_readers (demo_segment n) = 0"
  by (simp_all add: demo_segment_def init_new_file_def packed_of_def read_offset_of_def count_of_def
      seg_hi_def seg_lo_def seg_readers_def unat_write_offset_unwrap unat_num_readers_unwrap)

section \<open>Properties of a reservation and of its placement\<close>

text \<open>
  C32. A reservation takes a region that starts at the old write offset, ends at the new one,
  lies inside the ring without straddling its end, is long enough for a message header, and
  leaves room for one more header after it; the number of readers and the ring are untouched.
  The room after the region is what makes the skip message of the next claim possible.
\<close>

theorem reserved_region:
  assumes "sane_queue q" "header_room (q_cap q) (seg_hi s)" "seg_hi s + q_cap q < 2 ^ 56"
    and "18 \<le> unat n" "unat n < 2 ^ 32"
    and eq: "reserve_write_offset q s n = (s', t)"
  shows "ticket_start t = seg_hi s \<and> ticket_end t = seg_hi s' \<and>
    ticket_start t mod q_cap q + (ticket_end t - ticket_start t) \<le> q_cap q \<and>
    18 \<le> ticket_end t - ticket_start t \<and>
    header_room (q_cap q) (seg_hi s') \<and>
    seg_readers s' = seg_readers s \<and> ring s' = ring s"
proof -
  have room: "seg_hi s + region_len (q_cap q) (seg_hi s) (unat n) < 2 ^ 56"
    using assms(3) region_len_le [of "q_cap q" "seg_hi s" "unat n"] by simp
  note r = reserve_write_offset_nat [OF assms(1,5) room eq]
  have "0 < q_cap q" "18 \<le> q_cap q" using assms(1) by (simp_all add: sane_queue_def)
  then show ?thesis
    using r region_end_in_ring [of "q_cap q" "seg_hi s" "unat n"]
      region_len_ge [OF assms(2,4)] header_room_region [OF assms(2), of "unat n"]
    by simp
qed

theorem reserved_region_witness:
  "ticket_start (snd (reserve_write_offset (demo_writer 64) (demo_segment 64) 46)) = 0 \<and>
   header_room 64 (seg_hi (fst (reserve_write_offset (demo_writer 64) (demo_segment 64) 46)))"
proof -
  obtain s' t where "reserve_write_offset (demo_writer 64) (demo_segment 64) 46 = (s', t)"
    by fastforce
  then show ?thesis
    using reserved_region [of "demo_writer 64" "demo_segment 64" 46 s' t]
    by (simp add: sane_queue_def header_room_def)
qed

text \<open>
  The writer never laps the slowest reader: once the wait loop lets a reserved region
  through, no byte of it is the ring position of an absolute offset between the low watermark
  and the region, so no message that some reader has not released is overwritten.
\<close>

lemma claimed_region_avoids_unread:
  assumes "0 < q_cap q" "ticket_start t mod q_cap q + (ticket_end t - ticket_start t) \<le> q_cap q"
    and "\<not> must_wait q s t"
    and "seg_lo s \<le> p" "p < ticket_start t" "ticket_start t \<le> ticket_end t"
  shows "p mod q_cap q < ticket_start t mod q_cap q \<or>
    ticket_start t mod q_cap q + (ticket_end t - ticket_start t) \<le> p mod q_cap q"
proof (rule ccontr)
  assume "\<not> ?thesis"
  moreover have "ticket_end t \<le> seg_lo s + q_cap q"
    using must_wait_nat [of s t q] assms by simp
  moreover have "p mod q_cap q + 1 \<le> q_cap q"
    using mod_less_divisor [OF assms(1), of p] by simp
  ultimately show False
    using ring_disjoint [of p 1 "ticket_start t" "ticket_end t - ticket_start t" "q_cap q"
        "p mod q_cap q"] assms
    by simp
qed

lemma claimed_region_avoids_unread_witness:
  "(3 :: nat) mod 64 < 46 mod 64 \<or> 46 mod 64 + (64 - 46) \<le> (3 :: nat) mod 64"
  using claimed_region_avoids_unread
    [of "demo_writer 64" "\<lparr>claimed_word = unwrap (repack 0 46), claimed_end = 64\<rparr>"
        "demo_segment 64" 3]
  by (simp add: ticket_start_def ticket_end_def write_offset_unwrap_repack must_wait_def)

text \<open>Whatever the free space, placing a claim returns.\<close>

lemma place_claim_total:
  assumes "sane_queue q" "header_room (q_cap q) (ticket_start t)" "0 < unat sz" "unat sz < 2 ^ 31"
  shows "\<exists>x. place_claim q s sz t = Inr x"
  using place_claim_fits [OF assms(1,4)] place_claim_skips [OF assms(1,4) _ assms(2)] by blast

text \<open>
  Placing a reserved region succeeds without a failed assertion, hands out a wrapper exactly
  when message and a further header fit before the end of the ring, and writes no byte of the
  ring outside the region.
\<close>

theorem place_claim_stays_in_region:
  assumes "sane_queue q" "header_room (q_cap q) (ticket_start t)"
    and "0 < unat sz" "unat sz < 2 ^ 31"
  shows "\<exists>s' r. place_claim q s sz t = Inr (s', r) \<and>
    (r = None \<longleftrightarrow> \<not> claim_fits (q_cap q) (ticket_start t) (unat sz)) \<and>
    (\<forall>i<q_cap q. i < ticket_start t mod q_cap q \<or>
       ticket_start t mod q_cap q + region_len (q_cap q) (ticket_start t) (unat sz + 18) \<le> i \<longrightarrow>
       ring s' i = ring s i)"
proof (cases "claim_fits (q_cap q) (ticket_start t) (unat sz)")
  case True
  show ?thesis
    by (simp add: place_claim_fits [OF assms(1,4) True] region_len_fits [OF True] True
        header_ring_out)
next
  case False
  have "ticket_start t mod q_cap q + (q_cap q - ticket_start t mod q_cap q) = q_cap q"
    using assms(1) by (intro mod_room) (simp add: sane_queue_def)
  then show ?thesis
    by (simp add: place_claim_skips [OF assms(1,4) False assms(2)] region_len_not_fits [OF False]
        False skip_ring_out)
qed

theorem place_claim_stays_in_region_witness:
  "\<exists>s' r. place_claim (demo_writer 64) (demo_segment 64) 28
      \<lparr>claimed_word = unwrap (repack 0 46), claimed_end = 64\<rparr> = Inr (s', r) \<and> r = None \<and>
      ring s' 0 = 0"
  using place_claim_stays_in_region
    [of "demo_writer 64" "\<lparr>claimed_word = unwrap (repack 0 46), claimed_end = 64\<rparr>" 28
        "demo_segment 64"]
  by (auto simp: ticket_start_def write_offset_unwrap_repack sane_queue_def header_room_def
      claim_fits_def)

text \<open>
  The payload of a skip message is cleared in the wrong place. The pointer arithmetic on
  \<open>MessageHeader*\<close> moves the \<open>memset\<close> 324 bytes past the header instead of 18: the 306
  bytes after the header keep what they held, and the write runs 306 bytes past the end of the
  ring.
\<close>

lemma skip_memset_misplaced:
  assumes "sane_queue q" "header_room (q_cap q) (unat off)"
    and a: "a = unat off mod q_cap q" and "a + 18 < q_cap q"
  shows "\<exists>s'. insert_skip_message q s off n = Inr s' \<and>
    (\<forall>i. a + 18 \<le> i \<and> i < a + 324 \<longrightarrow> ring s' i = ring s i) \<and>
    (\<forall>i. a + 324 \<le> i \<and> i < q_cap q + 306 \<longrightarrow> ring s' i = 0) \<and>
    ring s' (q_cap q + 305) = 0"
proof -
  have pad: "unat (available_queue_size_bytes q - off mod available_queue_size_bytes q
      - sizeof_MessageHeader) = q_cap q - a - 18"
    using unat_padding_size [OF assms(1,2)] a by simp
  show ?thesis
    using assms(4)
    by (simp add: insert_skip_message_eq [OF assms(1,2)] skip_ring_out pad flip: a)
qed

lemma skip_memset_misplaced_witness:
  "\<exists>s'. insert_skip_message (demo_writer 64) ((demo_segment 64)\<lparr>ring := (\<lambda>_. 7)\<rparr>) 20 1 = Inr s' \<and>
     ring s' 40 = 7 \<and> ring s' 369 = 0"
proof -
  let ?s = "(demo_segment 64)\<lparr>ring := (\<lambda>_. 7)\<rparr>"
  obtain s' where "insert_skip_message (demo_writer 64) ?s 20 1 = Inr s'"
    and "\<forall>i. 38 \<le> i \<and> i < 344 \<longrightarrow> ring s' i = ring ?s i" and "ring s' 369 = 0"
    using skip_memset_misplaced [of "demo_writer 64" 20 20 ?s 1]
    by (fastforce simp: sane_queue_def header_room_def)
  then show ?thesis by (intro exI [of _ s']) simp
qed

section \<open>What claim_buffer returns\<close>

lemma claim_checks_nat:
  assumes "sane_queue q"
  shows "sz > available_queue_size_bytes q - sizeof_MessageHeader \<longleftrightarrow> q_cap q < unat sz + 18"
proof -
  have "unat (available_queue_size_bytes q - sizeof_MessageHeader) = q_cap q - 18"
    using assms by (simp add: unat_sub_u64 q_cap_def sane_queue_def)
  then show ?thesis using assms by (auto simp: word_less_nat_alt sane_queue_def)
qed

lemma claim_buffer_error:
  assumes "sane_queue q" "q_cap q < unat sz + 18 \<or> \<not> is_writer q \<or> sz = 0"
  shows "claim_buffer (Suc n) q s sz =
    Some (Inl (if q_cap q < unat sz + 18 \<or> \<not> is_writer q then Message_Too_Large
               else Message_Empty))"
  using assms(2) by (auto simp: claim_buffer.simps claim_checks_nat [OF assms(1)])

lemma claim_buffer_step:
  assumes "sane_queue q" "is_writer q" "unat sz + 18 \<le> q_cap q" "sz \<noteq> 0"
    and "seg_hi s + q_cap q < 2 ^ 56"
  obtains s1 t where
    "claim_buffer (Suc n) q s sz = claim_resume n q s1 sz t"
    "claimed_word t = unwrap (packed_of s)"
    "seg_hi s1 = seg_hi s + region_len (q_cap q) (seg_hi s) (unat sz + 18)"
    "ticket_start t = seg_hi s" "ticket_end t = seg_hi s1"
    "seg_readers s1 = seg_readers s" "seg_lo s1 = seg_lo s" "ring s1 = ring s"
    "count_of s1 = count_of s"
proof -
  obtain s1 t where eq: "reserve_write_offset q s (sz + sizeof_MessageHeader) = (s1, t)"
    by fastforce
  have small: "unat sz < 2 ^ 31" using assms(1,3) by (simp add: sane_queue_def)
  then have n18: "unat (sz + sizeof_MessageHeader) = unat sz + 18"
    by (simp add: unat_add_u64)
  have room: "seg_hi s + region_len (q_cap q) (seg_hi s) (unat (sz + sizeof_MessageHeader)) < 2 ^ 56"
    using assms(5) region_len_le [of "q_cap q" "seg_hi s" "unat (sz + sizeof_MessageHeader)"] by simp
  have "unat (sz + sizeof_MessageHeader) < 2 ^ 32" using small n18 by simp
  note r = reserve_write_offset_nat [OF assms(1) this room eq]
  have "\<not> q_cap q < unat sz + 18" using assms(3) by simp
  then have "claim_buffer (Suc n) q s sz = claim_resume n q s1 sz t"
    using assms(2,4) by (simp add: claim_buffer.simps claim_checks_nat [OF assms(1)] eq)
  moreover have "count_of s1 = count_of s"
    using eq by (auto simp: reserve_write_offset_def Let_def split: prod.splits)
  ultimately show ?thesis using that r unfolding n18 by simp
qed

text \<open>
  A message that the size check lets through but that needs more than the whole ring with the
  extra header is turned into a skip message every time.
\<close>

lemma oversize_never_claimed:
  assumes "sane_queue q" "is_writer q" "unat sz + 18 \<le> q_cap q" "q_cap q < unat sz + 36"
    and "header_room (q_cap q) (seg_hi s)" "seg_hi s + n * q_cap q < 2 ^ 56"
  shows "claim_buffer n q s sz = None \<or>
    (\<exists>s' t. claim_buffer n q s sz = Some (Inr (Must_Wait s' t)))"
  using assms(5,6)
proof (induction n arbitrary: s)
  case 0
  show ?case by simp
next
  case (Suc n)
  have nofit: "\<not> claim_fits (q_cap q) k (unat sz)" for k
    using assms(4) diff_le_self [of "q_cap q" "k mod q_cap q"] by (simp add: claim_fits_def)
  have "sz \<noteq> 0" using assms(1,4) by (auto simp: sane_queue_def)
  then obtain s1 t where
    eq: "claim_buffer (Suc n) q s sz = claim_resume n q s1 sz t"
    and hi: "seg_hi s1 = seg_hi s + region_len (q_cap q) (seg_hi s) (unat sz + 18)"
    and start: "ticket_start t = seg_hi s"
    using claim_buffer_step [of q sz s n thesis] assms(1-3) Suc.prems by simp
  show ?case
  proof (cases "must_wait q s1 t")
    case True
    then show ?thesis by (simp add: eq claim_resume.simps)
  next
    case False
    have small: "unat sz < 2 ^ 31" using assms(1,3) by (simp add: sane_queue_def)
    obtain m where place: "place_claim q s1 sz t = Inr (s1\<lparr>ring := m\<rparr>, None)"
      using place_claim_skips [OF assms(1) small nofit] Suc.prems(1) start by auto
    have "region_len (q_cap q) (seg_hi s) (unat sz + 18) \<le> q_cap q" by (rule region_len_le)
    moreover have "header_room (q_cap q) (seg_hi s1)"
      unfolding hi using Suc.prems(1) assms(1)
      by (intro header_room_region) (simp_all add: sane_queue_def)
    ultimately show ?thesis
      using Suc.IH [of "s1\<lparr>ring := m\<rparr>"] Suc.prems(2) hi False
      by (simp add: eq place claim_resume.simps)
  qed
qed

text \<open>
  C31. Messages of the last 18 sizes that \<open>claim_buffer\<close> accepts can never be sent. A size
  between the ring minus 36 and the ring minus 18 passes the size check, yet however often the
  code retries and whatever is free, it only pads the rest of the ring or waits for readers: it
  neither throws nor returns a buffer.
\<close>

theorem accepted_size_never_placed:
  assumes "sane_queue q" "is_writer q" "unat sz + 18 \<le> q_cap q" "q_cap q < unat sz + 36"
    and "header_room (q_cap q) (seg_hi s)" "seg_hi s + n * q_cap q < 2 ^ 56"
  shows "(\<forall>e. claim_buffer n q s sz \<noteq> Some (Inl e)) \<and>
    (\<forall>s' b. claim_buffer n q s sz \<noteq> Some (Inr (Claimed s' b)))"
  using oversize_never_claimed [OF assms] by auto

theorem accepted_size_never_placed_witness:
  "\<forall>s' b. claim_buffer 1000 (demo_writer 64) (demo_segment 64) 40 \<noteq> Some (Inr (Claimed s' b))"
  using accepted_size_never_placed [of "demo_writer 64" 40 "demo_segment 64" 1000]
  by (simp add: sane_queue_def header_room_def)

lemma claim_valid_no_error:
  assumes "sane_queue q" "is_writer q" "unat sz + 18 \<le> q_cap q" "sz \<noteq> 0"
    and "header_room (q_cap q) (seg_hi s)" "seg_hi s + n * q_cap q < 2 ^ 56"
  shows "claim_buffer n q s sz \<noteq> Some (Inl e)"
  using assms(5,6)
proof (induction n arbitrary: s)
  case 0
  show ?case by simp
next
  case (Suc n)
  obtain s1 t where
    eq: "claim_buffer (Suc n) q s sz = claim_resume n q s1 sz t"
    and hi: "seg_hi s1 = seg_hi s + region_len (q_cap q) (seg_hi s) (unat sz + 18)"
    and start: "ticket_start t = seg_hi s"
    using claim_buffer_step [of q sz s n thesis] assms(1-4) Suc.prems by simp
  have small: "unat sz < 2 ^ 31" using assms(1,3) by (simp add: sane_queue_def)
  show ?case
  proof (cases "claim_fits (q_cap q) (ticket_start t) (unat sz)")
    case True
    then show ?thesis
      by (simp add: eq claim_resume.simps place_claim_fits [OF assms(1) small True])
  next
    case False
    obtain m where place: "place_claim q s1 sz t = Inr (s1\<lparr>ring := m\<rparr>, None)"
      using place_claim_skips [OF assms(1) small False] Suc.prems(1) start by auto
    have "region_len (q_cap q) (seg_hi s) (unat sz + 18) \<le> q_cap q" by (rule region_len_le)
    moreover have "header_room (q_cap q) (seg_hi s1)"
      unfolding hi using Suc.prems(1) assms(1)
      by (intro header_room_region) (simp_all add: sane_queue_def)
    ultimately have "claim_buffer n q (s1\<lparr>ring := m\<rparr>) sz \<noteq> Some (Inl e)"
      using Suc.IH [of "s1\<lparr>ring := m\<rparr>"] Suc.prems(2) hi by simp
    then show ?thesis
      by (simp add: eq place claim_resume.simps)
  qed
qed

text \<open>
  C16. The only errors of \<open>claim_buffer\<close> are the two it documents: a message that needs more
  than the ring, or a claim through a reader, is \<open>Message_Too_Large\<close>; otherwise an empty
  message is \<open>Message_Empty\<close>. In particular the assertion of \<open>insert_skip_message\<close> never
  fails, however often the claim is retried.
\<close>

theorem claim_buffer_errors:
  assumes "sane_queue q" "header_room (q_cap q) (seg_hi s)" "seg_hi s + Suc n * q_cap q < 2 ^ 56"
  shows "claim_buffer (Suc n) q s sz = Some (Inl e) \<longleftrightarrow>
    (e = Message_Too_Large \<and> (q_cap q < unat sz + 18 \<or> \<not> is_writer q)) \<or>
    (e = Message_Empty \<and> sz = 0 \<and> is_writer q)"
proof (cases "q_cap q < unat sz + 18 \<or> \<not> is_writer q \<or> sz = 0")
  case True
  have "\<not> q_cap q < unat sz + 18" if "sz = 0"
    using that assms(1) by (simp add: sane_queue_def)
  then show ?thesis
    using True by (auto simp: claim_buffer_error [OF assms(1) True])
next
  case False
  then show ?thesis
    using claim_valid_no_error [OF assms(1), of sz s "Suc n" e] assms(2,3) by auto
qed

theorem claim_buffer_errors_witness:
  "claim_buffer 1 (demo_writer 64) (demo_segment 64) 47 = Some (Inl Message_Too_Large) \<and>
   claim_buffer 1 (demo_writer 64) (demo_segment 64) 0 = Some (Inl Message_Empty)"
  using claim_buffer_errors [of "demo_writer 64" "demo_segment 64" 0 47 Message_Too_Large]
    claim_buffer_errors [of "demo_writer 64" "demo_segment 64" 0 0 Message_Empty]
  by (simp add: sane_queue_def header_room_def)

text \<open>The start of the region a claim finally gets, after at most one skip message.\<close>

definition claim_start :: "nat \<Rightarrow> nat \<Rightarrow> nat \<Rightarrow> nat" where
  "claim_start c off sz = (if claim_fits c off sz then off else off + (c - off mod c))"

lemma claim_start_fits:
  assumes "0 < c" "sz + 36 \<le> c"
  shows "claim_fits c (claim_start c off sz) sz"
proof (cases "claim_fits c off sz")
  case True
  then show ?thesis by (simp add: claim_start_def)
next
  case False
  have "(off + (c - off mod c)) mod c = 0" by (rule mod_to_end [OF assms(1)])
  with False assms(2) show ?thesis by (simp add: claim_start_def claim_fits_def)
qed

text \<open>The segment after a successful claim at absolute offset \<open>x\<close>.\<close>

definition claimed_header :: "IpcQueue \<Rightarrow> Segment \<Rightarrow> Segment \<Rightarrow> nat \<Rightarrow> u64 \<Rightarrow> bool" where
  "claimed_header q s s' x sz \<longleftrightarrow>
     (let a = x mod q_cap q in
      unat (hdr_abs_offset (ring s') a) = x \<and>
      unat (hdr_message_size (ring s') a) = unat sz \<and>
      hdr_type (ring s') a = message_type_value NORMAL \<and>
      unat (hdr_num_readers (ring s') a) = seg_readers s)"

lemma claim_fitting_step:
  assumes "sane_queue q" "is_writer q" "sz \<noteq> 0" "claim_fits (q_cap q) (seg_hi s) (unat sz)"
    and "seg_lo s \<le> seg_hi s" "seg_hi s + unat sz + 18 \<le> seg_lo s + q_cap q"
    and "seg_hi s + q_cap q < 2 ^ 56"
  shows "\<exists>s' b. claim_buffer (Suc n) q s sz = Some (Inr (Claimed s' b)) \<and>
    wrapper_data b = seg_hi s mod q_cap q \<and> wrapper_size b = sz + sizeof_MessageHeader \<and>
    seg_hi s' = seg_hi s + unat sz + 18 \<and> seg_lo s' = seg_lo s \<and>
    count_of s' = count_of s + 1 \<and> claimed_header q s s' (seg_hi s) sz"
proof -
  have "unat sz + 18 \<le> q_cap q"
    using assms(4) by (simp add: claim_fits_def)
  then obtain s1 t where
    eq: "claim_buffer (Suc n) q s sz = claim_resume n q s1 sz t"
    and word: "claimed_word t = unwrap (packed_of s)"
    and hi: "seg_hi s1 = seg_hi s + (unat sz + 18)"
    and t: "ticket_start t = seg_hi s" "ticket_end t = seg_hi s1"
    and s1: "seg_readers s1 = seg_readers s" "seg_lo s1 = seg_lo s" "count_of s1 = count_of s"
    using claim_buffer_step [of q sz s n thesis] assms region_len_fits [OF assms(4)] by auto
  have small: "unat sz < 2 ^ 31"
    using \<open>unat sz + 18 \<le> q_cap q\<close> assms(1) by (simp add: sane_queue_def)
  have "\<not> must_wait q s1 t"
    using must_wait_nat [of s1 t q] assms(5,6) hi t s1 by simp
  then have "claim_buffer (Suc n) q s sz = Some (Inr (Claimed
      (set_count (count_of s1 + 1) (s1\<lparr>ring :=
         header_ring (seg_hi s mod q_cap q) (write_offset (unwrap (packed_of s))) sz
           (num_readers (unwrap (packed_of s))) (ring s1)\<rparr>))
      \<lparr>wrapper_data = seg_hi s mod q_cap q, wrapper_size = sz + sizeof_MessageHeader\<rparr>))"
    using place_claim_fits [OF assms(1) small, of t s1] assms(4) t
    by (simp add: eq claim_resume.simps word)
  moreover have "unat (ucast sz :: u32) = unat sz"
    using small by (simp add: unsigned_ucast_eq take_bit_nat_def)
  moreover have "unat (ucast (num_readers (unwrap (packed_of s))) :: u8) = seg_readers s"
    by (simp add: unsigned_ucast_eq take_bit_nat_def seg_readers_def unat_num_readers_unwrap)
  ultimately show ?thesis
    using hi s1
    by (simp add: claimed_header_def header_ring_header seg_hi_def)
qed

lemma claim_skipping_step:
  assumes "sane_queue q" "is_writer q" "sz \<noteq> 0" "unat sz + 18 \<le> q_cap q"
    and nofit: "\<not> claim_fits (q_cap q) (seg_hi s) (unat sz)"
    and "header_room (q_cap q) (seg_hi s)"
    and "seg_lo s \<le> seg_hi s" "seg_hi s + (q_cap q - seg_hi s mod q_cap q) \<le> seg_lo s + q_cap q"
    and "seg_hi s + q_cap q < 2 ^ 56"
  shows "\<exists>s1. claim_buffer (Suc n) q s sz = claim_buffer n q s1 sz \<and>
    seg_hi s1 = seg_hi s + (q_cap q - seg_hi s mod q_cap q) \<and> seg_lo s1 = seg_lo s \<and>
    seg_readers s1 = seg_readers s \<and> count_of s1 = count_of s"
proof -
  obtain s1 t where
    eq: "claim_buffer (Suc n) q s sz = claim_resume n q s1 sz t"
    and hi: "seg_hi s1 = seg_hi s + (q_cap q - seg_hi s mod q_cap q)"
    and t: "ticket_start t = seg_hi s" "ticket_end t = seg_hi s1"
    and s1: "seg_readers s1 = seg_readers s" "seg_lo s1 = seg_lo s" "count_of s1 = count_of s"
    using claim_buffer_step [of q sz s n thesis] assms region_len_not_fits [OF nofit] by auto
  have small: "unat sz < 2 ^ 31" using assms(1,4) by (simp add: sane_queue_def)
  have "\<not> must_wait q s1 t"
    using must_wait_nat [of s1 t q] assms(7,8) hi t s1 by simp
  moreover obtain m where "place_claim q s1 sz t = Inr (s1\<lparr>ring := m\<rparr>, None)"
    using place_claim_skips [OF assms(1) small, of t s1] assms(6) nofit t by auto
  ultimately show ?thesis
    using hi s1 by (intro exI [of _ "s1\<lparr>ring := m\<rparr>"]) (simp add: eq claim_resume.simps)
qed

lemma claim_reaches:
  assumes "sane_queue q" "is_writer q" "sz \<noteq> 0" "unat sz + 36 \<le> q_cap q"
    and "header_room (q_cap q) (seg_hi s)" "seg_lo s \<le> seg_hi s"
    and x: "x = claim_start (q_cap q) (seg_hi s) (unat sz)"
    and "x + unat sz + 18 \<le> seg_lo s + q_cap q"
    and "seg_hi s + 2 * q_cap q < 2 ^ 56"
  shows "\<exists>s' b. claim_buffer 3 q s sz = Some (Inr (Claimed s' b)) \<and>
    wrapper_data b = x mod q_cap q \<and> wrapper_size b = sz + sizeof_MessageHeader \<and>
    seg_hi s' = x + unat sz + 18 \<and> seg_lo s' = seg_lo s \<and>
    count_of s' = count_of s + 1 \<and> claimed_header q s s' x sz"
proof (cases "claim_fits (q_cap q) (seg_hi s) (unat sz)")
  case True
  then have "x = seg_hi s" by (simp add: x claim_start_def)
  with True assms show ?thesis
    using claim_fitting_step [of q sz s 2] by (simp add: numeral_3_eq_3 numeral_2_eq_2)
next
  case False
  then have x': "x = seg_hi s + (q_cap q - seg_hi s mod q_cap q)"
    by (simp add: x claim_start_def)
  obtain s1 where skip: "claim_buffer (Suc 2) q s sz = claim_buffer 2 q s1 sz"
    and s1: "seg_hi s1 = x" "seg_lo s1 = seg_lo s" "seg_readers s1 = seg_readers s"
      "count_of s1 = count_of s"
    using claim_skipping_step [of q sz s 2] assms False x' by auto
  have "0 < q_cap q" using assms(1) by (simp add: sane_queue_def)
  then have "claim_fits (q_cap q) (seg_hi s1) (unat sz)"
    using claim_start_fits [of "q_cap q" "unat sz" "seg_hi s"] assms(4) s1 x by simp
  moreover have "x \<le> seg_hi s + q_cap q" "seg_hi s \<le> x" using x' by simp_all
  ultimately have "\<exists>s' b. claim_buffer (Suc 1) q s1 sz = Some (Inr (Claimed s' b)) \<and>
    wrapper_data b = seg_hi s1 mod q_cap q \<and> wrapper_size b = sz + sizeof_MessageHeader \<and>
    seg_hi s' = seg_hi s1 + unat sz + 18 \<and> seg_lo s' = seg_lo s1 \<and>
    count_of s' = count_of s1 + 1 \<and> claimed_header q s1 s' (seg_hi s1) sz"
    using assms(1-3,6,8,9) s1 by (intro claim_fitting_step) simp_all
  then show ?thesis
    using s1 skip by (simp add: numeral_3_eq_3 numeral_2_eq_2 claimed_header_def)
qed

text \<open>
  C15. A claim that has room terminates and succeeds, with at most one skip message: for a message
  of at most the ring minus 36 bytes, when the region it ends up in is within one ring of the low
  watermark, three units of fuel give the buffer. Its header carries the claimed absolute offset,
  the size, the type \<open>NORMAL\<close> and the number of readers registered at that moment; the write
  offset moves to its end, the low watermark stays, and the message count grows by one.
\<close>

theorem claim_succeeds:
  assumes "sane_queue q" "is_writer q" "sz \<noteq> 0" "unat sz + 36 \<le> q_cap q"
    and "header_room (q_cap q) (seg_hi s)" "seg_lo s \<le> seg_hi s"
    and x: "x = claim_start (q_cap q) (seg_hi s) (unat sz)"
    and "x + unat sz + 18 \<le> seg_lo s + q_cap q"
    and "seg_hi s + 2 * q_cap q < 2 ^ 56"
  shows "\<exists>s' b. claim_buffer 3 q s sz = Some (Inr (Claimed s' b)) \<and>
    wrapper_data b = x mod q_cap q \<and> wrapper_size b = sz + sizeof_MessageHeader \<and>
    seg_hi s' = x + unat sz + 18 \<and> seg_lo s' = seg_lo s \<and>
    count_of s' = count_of s + 1 \<and> claimed_header q s s' x sz"
  using assms by (rule claim_reaches)

theorem claim_succeeds_witness:
  "\<exists>s' b. claim_buffer 3 (demo_writer 64) (demo_segment 64) 28 = Some (Inr (Claimed s' b)) \<and>
    seg_hi s' = 46"
  using claim_succeeds [of "demo_writer 64" 28 "demo_segment 64" 0]
  by (auto simp: sane_queue_def header_room_def claim_start_def claim_fits_def)

end
