(* ===== verification/Ipc_Read.thy ===== *)
theory Ipc_Read
  imports Ipc_Claim
begin

text \<open>
  The reader's side: what releasing a message changes, when its assertions hold, what polling
  returns, and that a committed message is read back byte for byte.
\<close>

section \<open>Releasing\<close>

definition msg_total :: "mem \<Rightarrow> nat \<Rightarrow> u64" where
  "msg_total m a = ucast (hdr_message_size m a) + sizeof_MessageHeader"

lemma unat_msg_total [simp]: "unat (msg_total m a) = unat (hdr_message_size m a) + 18"
proof -
  have "unat (hdr_message_size m a) + 18 < 2 ^ 64"
    using order.strict_trans [OF unat_lt_u32 [of "hdr_message_size m a"], of "2 ^ 64 - 18"] by simp
  then show ?thesis
    by (simp add: msg_total_def unat_add_u64 unat_ucast_u32_u64)
qed

text \<open>The ring after one reader's release, and after the last one's.\<close>

definition released_ring :: "nat \<Rightarrow> mem \<Rightarrow> mem" where
  "released_ring a m = set_num_readers a (hdr_num_readers m a - 1) m"

definition cleared_ring :: "nat \<Rightarrow> mem \<Rightarrow> mem" where
  "cleared_ring a m =
     set_commit_flag a NOT_READY (set_type a NORMAL (set_message_size a 0
       (mem_set (released_ring a m) (a + 18) 0 (unat (hdr_message_size m a)))))"

definition after_release :: "nat \<Rightarrow> IpcQueue \<Rightarrow> Segment \<Rightarrow> IpcQueue" where
  "after_release a q s = q\<lparr>abs_read_offset := abs_read_offset q + msg_total (ring s) a\<rparr>"

definition after_last_release :: "nat \<Rightarrow> Segment \<Rightarrow> Segment" where
  "after_last_release a s =
     set_read_offset (read_offset_of s + msg_total (ring s) a)
       (set_last_cleared (hdr_abs_offset (ring s) a) s\<lparr>ring := cleared_ring a (ring s)\<rparr>)"

lemma set_ring_last_cleared:
  "(set_last_cleared v (s\<lparr>ring := m\<rparr>))\<lparr>ring := m'\<rparr> = (set_last_cleared v s)\<lparr>ring := m'\<rparr>"
  by (simp add: set_last_cleared_def)

lemma release_buffer_eq:
  "release_buffer q s a =
     (if unat (abs_read_offset q mod available_queue_size_bytes q) \<noteq> a then
        Inl (Assert_Failed ''abs_read_offset % available_queue_size_bytes == distance'')
      else if \<not> msg_total (ring s) a \<le> available_queue_size_bytes q then
        Inl (Assert_Failed ''total_message_len <= available_queue_size_bytes'')
      else if hdr_num_readers (ring s) a > 1 then
        Inr (after_release a q s, s\<lparr>ring := released_ring a (ring s)\<rparr>)
      else if read_offset_of s \<noteq> abs_read_offset q then
        Inl (Assert_Failed ''prev_read_low_watermark + total_message_len == abs_read_offset'')
      else Inr (after_release a q s, after_last_release a s))"
  by (simp add: release_buffer_def msg_total_def [symmetric] Let_def after_release_def
      after_last_release_def released_ring_def cleared_ring_def set_ring_last_cleared assertE_def)

lemma cleared_ring_bytes:
  "cleared_ring a m i =
     (if a + 8 \<le> i \<and> i < a + 16 \<or> i = a + 17 \<or>
         a + 18 \<le> i \<and> i < a + 18 + unat (hdr_message_size m a) then 0
      else if i = a + 16 then hdr_num_readers m a - 1
      else m i)"
proof -
  consider "a + 8 \<le> i \<and> i < a + 12" | "a + 12 \<le> i \<and> i < a + 16" | "i = a + 16" | "i = a + 17"
    | "a + 18 \<le> i" | "i < a + 8"
    by arith
  then show ?thesis
    by cases (auto simp: cleared_ring_def released_ring_def hdr_set_defs mem_simps mem_set_def)
qed

lemma released_ring_bytes:
  "released_ring a m i = (if i = a + 16 then hdr_num_readers m a - 1 else m i)"
  by (simp add: released_ring_def hdr_set_defs)

text \<open>
  What the last reader's release does: it zeroes the whole message but the eight bytes of
  its \<open>abs_offset\<close>, touches no other byte, marks the header \<open>NOT_READY\<close> for the next lap, and
  moves the low watermark and its own read offset to the end of the message.
\<close>

theorem last_release_clears:
  assumes "a = unat (abs_read_offset q mod available_queue_size_bytes q)"
    and "unat (hdr_message_size (ring s) a) + 18 \<le> q_cap q"
    and "hdr_num_readers (ring s) a = 1" "read_offset_of s = abs_read_offset q"
  shows "\<exists>q' s'. release_buffer q s a = Inr (q', s') \<and>
    (\<forall>i. a + 8 \<le> i \<and> i < a + 18 + unat (hdr_message_size (ring s) a) \<longrightarrow> ring s' i = 0) \<and>
    (\<forall>i. i < a + 8 \<or> a + 18 + unat (hdr_message_size (ring s) a) \<le> i \<longrightarrow> ring s' i = ring s i) \<and>
    read_offset_of s' = read_offset_of s + msg_total (ring s) a \<and>
    abs_read_offset q' = read_offset_of s' \<and> packed_of s' = packed_of s"
proof -
  have "msg_total (ring s) a \<le> available_queue_size_bytes q"
    using assms(2) by (simp add: word_le_nat_alt q_cap_def)
  then have eq: "release_buffer q s a = Inr (after_release a q s, after_last_release a s)"
    using assms by (simp add: release_buffer_eq)
  show ?thesis
    using assms(3,4)
    by (intro exI [of _ "after_release a q s"] exI [of _ "after_last_release a s"])
      (auto simp: eq after_release_def after_last_release_def cleared_ring_bytes)
qed

theorem last_release_clears_witness:
  "\<exists>q' s'. release_buffer (demo_reader 64) ((demo_segment 64)\<lparr>ring := (\<lambda>_. 0)(16 := 1)\<rparr>) 0
     = Inr (q', s') \<and> abs_read_offset q' = 18"
proof -
  have "load32 ((\<lambda>_. 0)(16 := 1)) 8 = 0" by (simp add: mem_simps)
  then show ?thesis
    using last_release_clears [of 0 "demo_reader 64" "(demo_segment 64)\<lparr>ring := (\<lambda>_. 0)(16 := 1)\<rparr>"]
    by (auto simp: hdr_get_defs msg_total_def sizeof_MessageHeader_def)
qed

text \<open>
  The assertions of \<open>release_buffer\<close>. A release by the last reader succeeds only when its
  own read offset is the low watermark, and a release while others still have to read only counts
  down: it changes one byte of the ring and no offset of the segment.
\<close>

lemma release_cases:
  assumes "a = unat (abs_read_offset q mod available_queue_size_bytes q)"
    and "unat (hdr_message_size (ring s) a) + 18 \<le> q_cap q"
  shows "(hdr_num_readers (ring s) a > 1 \<longrightarrow>
      release_buffer q s a = Inr (after_release a q s,
        s\<lparr>ring := (ring s)(a + 16 := hdr_num_readers (ring s) a - 1)\<rparr>)) \<and>
    (hdr_num_readers (ring s) a \<le> 1 \<longrightarrow>
      (release_buffer q s a = Inl (Assert_Failed
         ''prev_read_low_watermark + total_message_len == abs_read_offset'')
       \<longleftrightarrow> read_offset_of s \<noteq> abs_read_offset q))"
proof -
  have "msg_total (ring s) a \<le> available_queue_size_bytes q"
    using assms(2) by (simp add: word_le_nat_alt q_cap_def)
  then show ?thesis
    using assms(1) by (auto simp: release_buffer_eq released_ring_def hdr_set_defs)
qed

lemma release_cases_witness:
  "release_buffer (demo_reader 64)
     (set_read_offset 5 ((demo_segment 64)\<lparr>ring := (\<lambda>_. 0)(16 := 1)\<rparr>)) 0 =
   Inl (Assert_Failed ''prev_read_low_watermark + total_message_len == abs_read_offset'')"
proof -
  have "load32 ((\<lambda>_. 0)(16 := 1)) 8 = 0" by (simp add: mem_simps)
  then show ?thesis
    using release_cases [of 0 "demo_reader 64"
        "set_read_offset 5 ((demo_segment 64)\<lparr>ring := (\<lambda>_. 0)(16 := 1)\<rparr>)"]
    by (simp add: hdr_get_defs)
qed

section \<open>Polling\<close>

lemma poll_once_writer: "is_writer q \<Longrightarrow> poll_once q s = Inl Producer_Cannot_Poll"
  by (simp add: poll_once_def)

lemma poll_once_not_ready:
  assumes "\<not> is_writer q" "a = unat (abs_read_offset q mod available_queue_size_bytes q)"
    and "hdr_commit_flag (ring s) a = 0"
  shows "poll_once q s = Inr (Poll_Return q s None)"
  using assms by (simp add: poll_once_def)

lemma poll_once_stale:
  assumes "\<not> is_writer q" "a = unat (abs_read_offset q mod available_queue_size_bytes q)"
    and "hdr_commit_flag (ring s) a = 1" "hdr_abs_offset (ring s) a \<noteq> abs_read_offset q"
  shows "poll_once q s = Inr (Poll_Return q s None)"
  using assms by (simp add: poll_once_def)

lemma poll_once_message:
  assumes "\<not> is_writer q" "a = unat (abs_read_offset q mod available_queue_size_bytes q)"
    and "hdr_commit_flag (ring s) a = 1" "hdr_abs_offset (ring s) a = abs_read_offset q"
    and "hdr_type (ring s) a = message_type_value NORMAL"
    and "unat (hdr_message_size (ring s) a) + 18 \<le> q_cap q"
  shows "poll_once q s =
    Inr (Poll_Return (q\<lparr>read_message_cnt := read_message_cnt q + 1\<rparr>) s
      (Some (mk_reader_wrapper a (msg_total (ring s) a))))"
proof -
  have "msg_total (ring s) a \<le> available_queue_size_bytes q"
    using assms(6) by (simp add: word_le_nat_alt q_cap_def)
  then show ?thesis using assms(1-5) by (simp add: poll_once_def msg_total_def Let_def)
qed

lemma poll_once_padding:
  assumes "\<not> is_writer q" "a = unat (abs_read_offset q mod available_queue_size_bytes q)"
    and "hdr_commit_flag (ring s) a = 1" "hdr_abs_offset (ring s) a = abs_read_offset q"
    and "hdr_type (ring s) a = message_type_value PADDING"
    and "unat (hdr_message_size (ring s) a) + 18 \<le> q_cap q"
  shows "poll_once q s = bindE (release_buffer q s a) (\<lambda>(q', s'). Inr (Poll_Again q' s'))"
proof -
  have "msg_total (ring s) a \<le> available_queue_size_bytes q"
    using assms(6) by (simp add: word_le_nat_alt q_cap_def)
  then show ?thesis using assms(1-5) by (simp add: poll_once_def msg_total_def Let_def)
qed

lemma poll_once_aborted:
  assumes "\<not> is_writer q" "a = unat (abs_read_offset q mod available_queue_size_bytes q)"
    and "hdr_commit_flag (ring s) a = 2"
  shows "poll_once q s = bindE (release_buffer q s a) (\<lambda>(q', s'). Inr (Poll_Again q' s'))"
  using assms by (simp add: poll_once_def)

lemma get_as_view_wrapper:
  "get_as_view s (mk_reader_wrapper a (msg_total (ring s) a)) =
     read_bytes (ring s) (a + 18) (unat (hdr_message_size (ring s) a))"
proof -
  have "unat (msg_total (ring s) a - sizeof_MessageHeader) = unat (hdr_message_size (ring s) a)"
    by (subst unat_sub_u64) simp_all
  then show ?thesis by (simp add: get_as_view_def mk_reader_wrapper_def)
qed

text \<open>
  C33. Round trip of one message. Claim a buffer, fill it through \<open>write_to_buffer\<close>, and a reader
  that stands at the claimed offset polls exactly the bytes that were written; polling changes
  nothing but the reader's own message counter, so polling again returns the same message.
\<close>

theorem publish_then_poll:
  assumes sane: "sane_queue q" and claim: "claimed_header q s0 s x sz"
    and "wrapper_data b = x mod q_cap q" "wrapper_size b = sz + sizeof_MessageHeader"
    and "length data = unat sz" "unat sz + 18 \<le> q_cap q"
    and r: "\<not> is_writer r" "available_queue_size_bytes r = available_queue_size_bytes q"
      "unat (abs_read_offset r) = x"
  shows "\<exists>s' w. write_to_buffer s b data = Inr s' \<and>
    poll_buffer (Suc n) r s' = Some (Inr (r\<lparr>read_message_cnt := read_message_cnt r + 1\<rparr>, s', Some w)) \<and>
    get_as_view s' w = data \<and> get_payload_size s' w = sz"
proof -
  let ?a = "x mod q_cap q"
  let ?m = "set_commit_flag ?a READY_FOR_CONSUMER (write_bytes (ring s) (?a + 18) data)"
  let ?s' = "s\<lparr>ring := ?m\<rparr>"
  have small: "unat sz < 2 ^ 31" using assms(6) sane by (simp add: sane_queue_def)
  have "unat (wrapper_size b) = unat sz + 18"
    using small assms(4) by (simp add: unat_add_u64)
  then have written: "write_to_buffer s b data = Inr ?s'"
    using assms(3,5) by (simp add: write_to_buffer_def commit_buffer_def)
  have a: "?a = unat (abs_read_offset r mod available_queue_size_bytes r)"
    using r by (simp add: unat_mod_u64 q_cap_def)
  have hdr: "hdr_abs_offset ?m ?a = abs_read_offset r" "unat (hdr_message_size ?m ?a) = unat sz"
    "hdr_type ?m ?a = message_type_value NORMAL" "hdr_commit_flag ?m ?a = 1"
    using claim r(3) by (simp_all add: claimed_header_def Let_def word_u64_eqI)
  have "poll_buffer (Suc n) r ?s' = Some (Inr (r\<lparr>read_message_cnt := read_message_cnt r + 1\<rparr>, ?s',
      Some (mk_reader_wrapper ?a (msg_total ?m ?a))))"
    using poll_once_message [OF r(1) a, of ?s'] hdr assms(6) r(2) by (simp add: q_cap_def)
  moreover have "get_as_view ?s' (mk_reader_wrapper ?a (msg_total ?m ?a)) = data"
    using get_as_view_wrapper [of ?s' ?a] hdr(2) assms(5)
    by (simp add: read_bytes_write_bytes_same set_commit_flag_def read_bytes_upd_other)
  moreover have "get_payload_size ?s' (mk_reader_wrapper ?a (msg_total ?m ?a)) = sz"
    using hdr(2) by (intro word_u64_eqI) (simp add: get_payload_size_def mk_reader_wrapper_def
        unat_ucast_u32_u64)
  ultimately show ?thesis using written by blast
qed

theorem publish_then_poll_witness:
  "\<exists>s b s' w. claim_buffer 3 (demo_writer 64) (demo_segment 64) 3 = Some (Inr (Claimed s b)) \<and>
    write_to_buffer s b [1, 2, 3] = Inr s' \<and>
    poll_buffer 1 (demo_reader 64) s' =
      Some (Inr ((demo_reader 64)\<lparr>read_message_cnt := read_message_cnt (demo_reader 64) + 1\<rparr>, s', Some w)) \<and>
    get_as_view s' w = [1, 2, 3]"
proof -
  let ?w = "demo_writer 64" and ?r = "demo_reader 64"
  have x: "claim_start (q_cap ?w) (seg_hi (demo_segment 64)) (unat (3 :: u64)) = 0"
    by (simp add: claim_start_def claim_fits_def)
  obtain s b where claim: "claim_buffer 3 ?w (demo_segment 64) 3 = Some (Inr (Claimed s b))"
    and b: "wrapper_data b = 0" "wrapper_size b = 3 + sizeof_MessageHeader"
      "claimed_header ?w (demo_segment 64) s 0 3"
    using claim_reaches [of ?w 3 "demo_segment 64", OF _ _ _ _ _ _ x [symmetric]]
    by (auto simp: sane_queue_def header_room_def)
  have "length [1, 2, 3 :: u8] = unat (3 :: u64)" by simp
  with publish_then_poll [of ?w "demo_segment 64" s 0 3 b "[1, 2, 3]" ?r 0] b claim show ?thesis
    by (fastforce simp: sane_queue_def)
qed

end
