(* ===== verification/Ipc_System.thy ===== *)
theory Ipc_System
  imports Ipc_Read
begin

text \<open>
  Several writer threads and several readers on one segment, as a step relation. A step is one
  atomic action of the code on shared memory: the compare-and-exchange of a claim, the placement
  of a header or of a skip message once the wait is over, the write and commit of a payload or its
  abortion, a reader joining, one level of a poll, a release, and a reader leaving.

  Some conditions are not checked by the code, and the theorems about this relation hold for
  runs that meet them: a writer claims only when a reader is registered (\<open>is_ready\<close> of a
  publication); a reader joins only while no reserved region lies beyond the window of the slowest
  reader; a reader leaves while no writer is at work, the ring is not full and no aborted message
  is before it; a reader one ring's size ahead of the slowest one does not release what it takes
  for an aborted message; and the places in the ring where messages start belong to a set \<open>G\<close> of
  places at least one header apart (messages of one size keep to such a set, and so do messages of
  any sizes until the ring is full for the first time). The theory \<open>Ipc_Hazards\<close> shows what happens without them.
\<close>

datatype WriterPhase =
    Waiting u64 Ticket      \<comment> \<open>reserved, in the wait loop, with the payload size asked for\<close>
  | Holding RaiiWrapper     \<comment> \<open>the buffer was handed out\<close>

record Sys =
  seg :: Segment
  open_readers :: "nat \<rightharpoonup> IpcQueue"
  held :: "nat \<rightharpoonup> ReaderWrapper"
  threads :: "nat \<rightharpoonup> WriterPhase"
  received :: "nat \<Rightarrow> u8 list list"
  joined :: "nat \<Rightarrow> nat"
  sent :: "nat \<rightharpoonup> u8 list"
  dropped :: "nat set"

text \<open>
  \<open>received\<close>, \<open>joined\<close>, \<open>sent\<close> and \<open>dropped\<close> are not in the program: they record the payloads a
  reader has released since it joined, the write offset at which it joined, by absolute offset the
  payload of every message committed so far, and the offsets of the messages aborted so far.
\<close>

definition sys_init :: "IpcQueue \<Rightarrow> Sys \<Rightarrow> bool" where
  "sys_init wq \<sigma> \<longleftrightarrow> seg \<sigma> = init_new_file wq \<and> open_readers \<sigma> = Map.empty \<and>
     held \<sigma> = Map.empty \<and> threads \<sigma> = Map.empty \<and> sent \<sigma> = Map.empty \<and>
     dropped \<sigma> = {}"

text \<open>The size checks at the start of \<open>claim_buffer\<close>.\<close>

definition claim_checks :: "IpcQueue \<Rightarrow> u64 \<Rightarrow> bool" where
  "claim_checks q sz \<longleftrightarrow>
     \<not> (sz > available_queue_size_bytes q - sizeof_MessageHeader \<or> \<not> is_writer q) \<and> sz \<noteq> 0"

text \<open>A reader object that attaches to the file of the writer \<open>wq\<close>, after the constructor.\<close>

definition joined_reader :: "IpcQueue \<Rightarrow> IpcQueue \<Rightarrow> UnpackedReadersAndWriterOffset \<Rightarrow> IpcQueue" where
  "joined_reader wq q0 w =
     q0\<lparr>is_writer := False,
        available_queue_size_bytes := available_queue_size_bytes wq,
        abs_read_offset := write_offset w\<rparr>"

text \<open>
  The payload after \<open>write_to_buffer\<close>: the data, and behind it what the buffer held before. The
  header says at which absolute offset it was claimed.
\<close>

definition payload_after_write :: "Segment \<Rightarrow> RaiiWrapper \<Rightarrow> u8 list \<Rightarrow> u8 list" where
  "payload_after_write s b data =
     data @ drop (length data) (read_bytes (ring s) (wrapper_data b + 18) (unat (wrapper_size b) - 18))"

definition claimed_at :: "Segment \<Rightarrow> RaiiWrapper \<Rightarrow> nat" where
  "claimed_at s b = unat (hdr_abs_offset (ring s) (wrapper_data b))"

text \<open>Where a reader stands.\<close>

definition reader_at :: "IpcQueue \<Rightarrow> nat" where
  "reader_at q = unat (abs_read_offset q)"

text \<open>Places at least one header apart; the multiples of a number are such a set.\<close>

definition spaced :: "nat set \<Rightarrow> bool" where
  "spaced G \<longleftrightarrow> 0 \<in> G \<and> (\<forall>p\<in>G. \<forall>p'\<in>G. p < p' \<longrightarrow> p + 18 \<le> p')"

definition grid :: "nat \<Rightarrow> nat set" where
  "grid n = {p. n dvd p}"

lemma grid_iff [simp]: "p \<in> grid n \<longleftrightarrow> n dvd p"
  by (simp add: grid_def)

lemma spaced_grid [simp, intro]:
  assumes "18 \<le> n"
  shows "spaced (grid n)"
proof -
  have "p + 18 \<le> p'" if p: "n dvd p" "n dvd p'" "p < p'" for p p'
  proof -
    have "n dvd p' - p" "0 < p' - p" using p by simp_all
    then have "n \<le> p' - p" by (rule dvd_imp_le)
    with assms p(3) show ?thesis by linarith
  qed
  then show ?thesis by (simp add: spaced_def)
qed

lemma spacedD: "spaced G \<Longrightarrow> p \<in> G \<Longrightarrow> p' \<in> G \<Longrightarrow> p < p' \<Longrightarrow> p + 18 \<le> p'"
  by (simp add: spaced_def)

lemma spaced_zero: "spaced G \<Longrightarrow> 0 \<in> G"
  by (simp add: spaced_def)

inductive sys_step :: "IpcQueue \<Rightarrow> nat set \<Rightarrow> Sys \<Rightarrow> Sys \<Rightarrow> bool" for wq :: IpcQueue and G :: "nat set" where
  reserve:
    "threads \<sigma> w = None \<Longrightarrow> open_readers \<sigma> \<noteq> Map.empty \<Longrightarrow> claim_checks wq sz \<Longrightarrow>
     reserve_write_offset wq (seg \<sigma>) (sz + sizeof_MessageHeader) = (s', t) \<Longrightarrow>
     seg_hi s' mod q_cap wq \<in> G \<Longrightarrow> seg_hi (seg \<sigma>) + 2 * q_cap wq < 2 ^ 56 \<Longrightarrow>
     sys_step wq G \<sigma> (\<sigma>\<lparr>seg := s', threads := (threads \<sigma>)(w \<mapsto> Waiting sz t)\<rparr>)"
| place:
    "threads \<sigma> w = Some (Waiting sz t) \<Longrightarrow> \<not> must_wait wq (seg \<sigma>) t \<Longrightarrow>
     place_claim wq (seg \<sigma>) sz t = Inr (s', Some b) \<Longrightarrow>
     sys_step wq G \<sigma> (\<sigma>\<lparr>seg := s', threads := (threads \<sigma>)(w \<mapsto> Holding b)\<rparr>)"
| skip:
    "threads \<sigma> w = Some (Waiting sz t) \<Longrightarrow> \<not> must_wait wq (seg \<sigma>) t \<Longrightarrow>
     place_claim wq (seg \<sigma>) sz t = Inr (s', None) \<Longrightarrow>
     sys_step wq G \<sigma> (\<sigma>\<lparr>seg := s', threads := (threads \<sigma>)(w := None)\<rparr>)"
| publish:
    "threads \<sigma> w = Some (Holding b) \<Longrightarrow> write_to_buffer (seg \<sigma>) b data = Inr s' \<Longrightarrow>
     sys_step wq G \<sigma> (\<sigma>\<lparr>seg := s', threads := (threads \<sigma>)(w := None),
       sent := (sent \<sigma>)(claimed_at (seg \<sigma>) b \<mapsto> payload_after_write (seg \<sigma>) b data)\<rparr>)"
| abort:
    "threads \<sigma> w = Some (Holding b) \<Longrightarrow>
     sys_step wq G \<sigma> (\<sigma>\<lparr>seg := wrapper_abort (seg \<sigma>) b, threads := (threads \<sigma>)(w := None),
       dropped := insert (claimed_at (seg \<sigma>) b) (dropped \<sigma>)\<rparr>)"
| join:
    "open_readers \<sigma> r = None \<Longrightarrow> held \<sigma> r = None \<Longrightarrow> card (dom (open_readers \<sigma>)) < 255 \<Longrightarrow>
     seg_hi (seg \<sigma>) \<le> seg_lo (seg \<sigma>) + q_cap wq \<Longrightarrow>
     modify_readers True (seg \<sigma>) = (s', wr) \<Longrightarrow>
     sys_step wq G \<sigma> (\<sigma>\<lparr>seg := s',
       open_readers := (open_readers \<sigma>)(r \<mapsto> joined_reader wq q0 wr),
       received := (received \<sigma>)(r := []),
       joined := (joined \<sigma>)(r := seg_hi (seg \<sigma>))\<rparr>)"
| poll_return:
    "open_readers \<sigma> r = Some q \<Longrightarrow> held \<sigma> r = None \<Longrightarrow>
     poll_once q (seg \<sigma>) = Inr (Poll_Return q' s' got) \<Longrightarrow>
     sys_step wq G \<sigma> (\<sigma>\<lparr>seg := s', open_readers := (open_readers \<sigma>)(r \<mapsto> q'),
       held := (held \<sigma>)(r := got)\<rparr>)"
| poll_again:
    "open_readers \<sigma> r = Some q \<Longrightarrow> held \<sigma> r = None \<Longrightarrow>
     reader_at q < seg_lo (seg \<sigma>) + q_cap wq \<Longrightarrow> poll_once q (seg \<sigma>) = Inr (Poll_Again q' s') \<Longrightarrow>
     sys_step wq G \<sigma> (\<sigma>\<lparr>seg := s', open_readers := (open_readers \<sigma>)(r \<mapsto> q')\<rparr>)"
| release:
    "open_readers \<sigma> r = Some q \<Longrightarrow> held \<sigma> r = Some wr \<Longrightarrow>
     wrapper_release q (seg \<sigma>) wr = Inr (q', s', wr') \<Longrightarrow>
     sys_step wq G \<sigma> (\<sigma>\<lparr>seg := s', open_readers := (open_readers \<sigma>)(r \<mapsto> q'),
       held := (held \<sigma>)(r := None),
       received := (received \<sigma>)(r := received \<sigma> r @ [get_as_view (seg \<sigma>) wr])\<rparr>)"
| leave:
    "open_readers \<sigma> r = Some q \<Longrightarrow> held \<sigma> r = None \<Longrightarrow> threads \<sigma> = Map.empty \<Longrightarrow>
     seg_hi (seg \<sigma>) < seg_lo (seg \<sigma>) + q_cap wq \<Longrightarrow> \<forall>x\<in>dropped \<sigma>. x < reader_at q \<Longrightarrow>
     modify_readers False (seg \<sigma>) = (s0, wr) \<Longrightarrow>
     decrement_readers_until n q s0 (write_offset wr) = Some (Inr (q', s')) \<Longrightarrow>
     sys_step wq G \<sigma> (\<sigma>\<lparr>seg := s', open_readers := (open_readers \<sigma>)(r := None)\<rparr>)"
| writer_opens:
    "sys_step wq G \<sigma> (\<sigma>\<lparr>seg := set_writers (writers_of (seg \<sigma>) + 1) (seg \<sigma>)\<rparr>)"
| writer_closes:
    "sys_step wq G \<sigma> (\<sigma>\<lparr>seg := set_writers (writers_of (seg \<sigma>) - 1) (seg \<sigma>)\<rparr>)"

inductive_cases sys_stepE: "sys_step wq G \<sigma> \<sigma>'"

end
