(* ===== verification/State_Machine.thy ===== *)
theory State_Machine
  imports Main
begin

text \<open>
  Two interfaces every stateful component is proved against: a state machine with an invariant,
  and a forward simulation between a detailed machine and its specification.
\<close>

section \<open>Invariants\<close>

locale invariant_machine =
  fixes init :: "'s \<Rightarrow> bool"
    and step :: "'s \<Rightarrow> 's \<Rightarrow> bool"
    and inv :: "'s \<Rightarrow> bool"
  assumes init_inv: "init s \<Longrightarrow> inv s"
    and step_inv: "inv s \<Longrightarrow> step s t \<Longrightarrow> inv t"
begin

lemma steps_inv: "step\<^sup>*\<^sup>* s t \<Longrightarrow> inv s \<Longrightarrow> inv t"
  by (induction rule: rtranclp_induct) (auto intro: step_inv)

lemma reachable_inv: "init s \<Longrightarrow> step\<^sup>*\<^sup>* s t \<Longrightarrow> inv t"
  by (blast intro: steps_inv init_inv)

end

section \<open>Forward simulation\<close>

text \<open>
  A detailed machine is related to an abstract one by \<open>rel\<close>; a detailed step is matched by any
  number of abstract steps.
\<close>

locale forward_simulation =
  fixes cinit :: "'c \<Rightarrow> bool"
    and cstep :: "'c \<Rightarrow> 'c \<Rightarrow> bool"
    and ainit :: "'a \<Rightarrow> bool"
    and astep :: "'a \<Rightarrow> 'a \<Rightarrow> bool"
    and rel :: "'c \<Rightarrow> 'a \<Rightarrow> bool"
  assumes init_sim: "cinit c \<Longrightarrow> \<exists>a. ainit a \<and> rel c a"
    and step_sim: "rel c a \<Longrightarrow> cstep c c' \<Longrightarrow> \<exists>a'. astep\<^sup>*\<^sup>* a a' \<and> rel c' a'"
begin

lemma steps_sim: "cstep\<^sup>*\<^sup>* c c' \<Longrightarrow> rel c a \<Longrightarrow> \<exists>a'. astep\<^sup>*\<^sup>* a a' \<and> rel c' a'"
proof (induction rule: rtranclp_induct)
  case base
  then show ?case by blast
next
  case (step c1 c2)
  then obtain a1 where "astep\<^sup>*\<^sup>* a a1" and "rel c1 a1" by blast
  with step.hyps(2) step_sim show ?case by (meson rtranclp_trans)
qed

lemma reachable_sim:
  "cinit c \<Longrightarrow> cstep\<^sup>*\<^sup>* c c' \<Longrightarrow> \<exists>a a'. ainit a \<and> astep\<^sup>*\<^sup>* a a' \<and> rel c' a'"
  by (meson init_sim steps_sim)

end

text \<open>A simulation of a machine with an invariant gives the invariant of the abstract state.\<close>

locale simulation_with_invariant =
  forward_simulation cinit cstep ainit astep rel + abs: invariant_machine ainit astep inv
  for cinit :: "'c \<Rightarrow> bool" and cstep and ainit :: "'a \<Rightarrow> bool" and astep and rel and inv
begin

lemma reachable_related:
  assumes "cinit c" "cstep\<^sup>*\<^sup>* c c'"
  obtains a where "rel c' a" "inv a"
  using reachable_sim [OF assms] abs.reachable_inv by blast

end

end
