(* ===== verification/Broadcast_Spec.thy ===== *)
theory Broadcast_Spec
  imports Prelude State_Machine
begin

text \<open>
  What the message queue promises, without its bytes: a broadcast log. Writers append entries of
  the log in the order of their reservations and fill them in later; every reader walks the log
  from the place where it joined; an entry may be placed only within one ring's size of the
  slowest reader. The queue itself is shown to implement this machine in \<open>Ipc_Refinement\<close>.
\<close>

section \<open>Entries and the log\<close>

datatype EntryState =
    Reserved_Entry | Claimed_Entry | Skipped_Entry | Aborted_Entry | Published_Entry "u8 list"

record Entry =
  e_start :: nat
  e_len :: nat
  e_state :: EntryState

definition e_end :: "Entry \<Rightarrow> nat" where
  "e_end e = e_start e + e_len e"

fun final_state :: "EntryState \<Rightarrow> bool" where
  "final_state Skipped_Entry = True"
| "final_state Aborted_Entry = True"
| "final_state (Published_Entry bs) = True"
| "final_state _ = False"

fun payload_of :: "EntryState \<Rightarrow> u8 list list" where
  "payload_of (Published_Entry bs) = [bs]"
| "payload_of _ = []"

text \<open>The log is a gapless sequence of entries from one offset to another.\<close>

fun chain :: "nat \<Rightarrow> Entry list \<Rightarrow> nat \<Rightarrow> bool" where
  "chain a [] b \<longleftrightarrow> a = b"
| "chain a (e # es) b \<longleftrightarrow> e_start e = a \<and> 0 < e_len e \<and> chain (e_end e) es b"

definition set_state :: "nat \<Rightarrow> EntryState \<Rightarrow> Entry list \<Rightarrow> Entry list" where
  "set_state x st L = map (\<lambda>e. if e_start e = x then e\<lparr>e_state := st\<rparr> else e) L"

definition boundary :: "Entry list \<Rightarrow> nat \<Rightarrow> nat \<Rightarrow> bool" where
  "boundary L h x \<longleftrightarrow> x = h \<or> (\<exists>e\<in>set L. e_start e = x)"

text \<open>What a reader that joined at \<open>j\<close> and stands at \<open>p\<close> has passed.\<close>

definition passed :: "nat \<Rightarrow> nat \<Rightarrow> Entry list \<Rightarrow> Entry list" where
  "passed j p L = filter (\<lambda>e. j \<le> e_start e \<and> e_start e < p) L"

definition payloads :: "Entry list \<Rightarrow> u8 list list" where
  "payloads L = concat (map (\<lambda>e. payload_of (e_state e)) L)"

subsection \<open>Facts about chains\<close>

lemma chain_le: "chain a L b \<Longrightarrow> a \<le> b"
  by (induction L arbitrary: a) (fastforce simp: e_end_def)+

lemma chain_append: "chain a (L @ M) b \<longleftrightarrow> (\<exists>x. chain a L x \<and> chain x M b)"
  by (induction L arbitrary: a) auto

lemma chain_mem_bounds:
  "chain a L b \<Longrightarrow> e \<in> set L \<Longrightarrow> a \<le> e_start e \<and> 0 < e_len e \<and> e_end e \<le> b"
proof (induction L arbitrary: a)
  case Nil
  then show ?case by simp
next
  case (Cons d L)
  then have "chain (e_end d) L b" by simp
  with Cons show ?case
    using chain_le [of "e_end d" L b] by (fastforce simp: e_end_def)
qed

lemma chain_disjoint:
  "chain a L b \<Longrightarrow> e \<in> set L \<Longrightarrow> f \<in> set L \<Longrightarrow> e = f \<or> e_end e \<le> e_start f \<or> e_end f \<le> e_start e"
proof (induction L arbitrary: a)
  case Nil
  then show ?case by simp
next
  case (Cons d L)
  then have "chain (e_end d) L b" by simp
  then show ?case
    using Cons chain_mem_bounds [of "e_end d" L b] by auto
qed

lemma chain_unique:
  assumes "chain a L b" "e \<in> set L" "f \<in> set L" "e_start e = e_start f"
  shows "e = f"
  using chain_disjoint [OF assms(1-3)] chain_mem_bounds [OF assms(1,2)]
    chain_mem_bounds [OF assms(1,3)] assms(4)
  by (auto simp: e_end_def)

lemma chain_boundary_end:
  "chain a L b \<Longrightarrow> e \<in> set L \<Longrightarrow> boundary L b (e_end e)"
proof (induction L arbitrary: a)
  case Nil
  then show ?case by simp
next
  case (Cons d L)
  then have ch: "chain (e_end d) L b" by simp
  show ?case
  proof (cases "e = d")
    case True
    with ch show ?thesis by (cases L) (auto simp: boundary_def)
  next
    case False
    with Cons.prems Cons.IH [OF ch] show ?thesis by (auto simp: boundary_def)
  qed
qed

lemma boundary_jump:
  assumes "chain a L b" "e \<in> set L" "boundary L b x" "e_start e < x"
  shows "e_end e \<le> x"
  using assms(3)
proof (cases "x = b")
  case True
  with chain_mem_bounds [OF assms(1,2)] show ?thesis by simp
next
  case False
  with assms(3) obtain f where "f \<in> set L" "e_start f = x" by (auto simp: boundary_def)
  with chain_disjoint [OF assms(1,2)] assms(4) chain_mem_bounds [OF assms(1)] show ?thesis
    by (fastforce simp: e_end_def)
qed

lemma set_state_fields [simp]:
  "map e_start (set_state x st L) = map e_start L"
  "map e_len (set_state x st L) = map e_len L"
  by (simp_all add: set_state_def)

lemma chain_set_state [simp]: "chain a (set_state x st L) b \<longleftrightarrow> chain a L b"
  by (induction L arbitrary: a) (auto simp: set_state_def e_end_def)

lemma boundary_set_state [simp]: "boundary (set_state x st L) h y \<longleftrightarrow> boundary L h y"
proof -
  have alt: "boundary M h y \<longleftrightarrow> y = h \<or> y \<in> set (map e_start M)" for M :: "Entry list"
    by (auto simp: boundary_def)
  show ?thesis unfolding alt by (simp only: set_state_fields)
qed

lemma mem_set_state:
  "e' \<in> set (set_state x st L) \<longleftrightarrow>
     (\<exists>e\<in>set L. e' = (if e_start e = x then e\<lparr>e_state := st\<rparr> else e))"
  unfolding set_state_def set_map image_iff by (rule refl)

lemma boundary_snoc:
  assumes "chain 0 L h" "boundary L h x"
  shows "boundary (L @ [e\<lparr>e_start := h\<rparr>]) h' x"
  using assms by (auto simp: boundary_def)

lemma passed_set_state:
  "\<not> (j \<le> x \<and> x < p) \<Longrightarrow> passed j p (set_state x st L) = passed j p L"
  unfolding passed_def set_state_def by (induction L) auto

lemma passed_snoc: "p \<le> e_start e \<Longrightarrow> passed j p (L @ [e]) = passed j p L"
  by (simp add: passed_def)

lemma passed_advance:
  "chain a L b \<Longrightarrow> e \<in> set L \<Longrightarrow> j \<le> e_start e \<Longrightarrow>
   passed j (e_end e) L = passed j (e_start e) L @ [e]"
proof (induction L arbitrary: a)
  case Nil
  then show ?case by simp
next
  case (Cons d L)
  then have ch: "chain (e_end d) L b" by simp
  show ?case
  proof (cases "e = d")
    case True
    have "e_end e \<le> e_start f \<and> e_start e < e_start f" if "f \<in> set L" for f
      using chain_mem_bounds [OF ch that] True Cons.prems(1) by (simp add: e_end_def)
    then have "passed j (e_end e) L = []" "passed j (e_start e) L = []"
      by (simp_all add: passed_def filter_empty_conv) (meson leD less_imp_le)+
    with True Cons.prems show ?thesis by (simp add: passed_def e_end_def)
  next
    case False
    with Cons.prems have e: "e \<in> set L" by simp
    then have "e_start d < e_start e"
      using chain_mem_bounds [OF ch e] Cons.prems(1) by (auto simp: e_end_def)
    with Cons.IH [OF ch e] Cons.prems show ?thesis
      by (auto simp: passed_def e_end_def)
  qed
qed

lemma payloads_append [simp]: "payloads (L @ M) = payloads L @ payloads M"
  by (simp add: payloads_def)

lemma payloads_single [simp]: "payloads [e] = payload_of (e_state e)"
  by (simp add: payloads_def)

lemma passed_empty: "passed x x L = []"
  by (simp add: passed_def)

section \<open>The machine\<close>

text \<open>
  \<open>s_lo\<close> is the low watermark, \<open>s_hi\<close> the write offset; \<open>s_owner\<close> says which entry a
  writer thread is filling; \<open>s_joined\<close> and \<open>s_received\<close> record where a reader joined and what
  it has been given since.
\<close>

record Spec =
  s_lo :: nat
  s_hi :: nat
  s_log :: "Entry list"
  s_pos :: "nat \<rightharpoonup> nat"
  s_owner :: "nat \<rightharpoonup> nat"
  s_joined :: "nat \<Rightarrow> nat"
  s_received :: "nat \<Rightarrow> u8 list list"

definition spec_init :: "Spec \<Rightarrow> bool" where
  "spec_init A \<longleftrightarrow> s_lo A = 0 \<and> s_hi A = 0 \<and> s_log A = [] \<and> s_pos A = Map.empty \<and>
     s_owner A = Map.empty"

text \<open>A reader that moves past an entry moves the watermark when it was the last one there.\<close>

definition last_at :: "Spec \<Rightarrow> nat \<Rightarrow> nat \<Rightarrow> bool" where
  "last_at A r x \<longleftrightarrow> (\<forall>r' p. r' \<noteq> r \<longrightarrow> s_pos A r' = Some p \<longrightarrow> x < p)"

inductive spec_step :: "nat \<Rightarrow> Spec \<Rightarrow> Spec \<Rightarrow> bool" for c :: nat where
  reserve:
    "s_owner A w = None \<Longrightarrow> s_pos A \<noteq> Map.empty \<Longrightarrow> 18 \<le> n \<Longrightarrow> s_hi A mod c + n \<le> c \<Longrightarrow>
     spec_step c A (A\<lparr>s_hi := s_hi A + n,
       s_log := s_log A @ [\<lparr>e_start = s_hi A, e_len = n, e_state = Reserved_Entry\<rparr>],
       s_owner := (s_owner A)(w \<mapsto> s_hi A)\<rparr>)"
| place:
    "s_owner A w = Some x \<Longrightarrow> e \<in> set (s_log A) \<Longrightarrow> e_start e = x \<Longrightarrow> e_state e = Reserved_Entry \<Longrightarrow>
     e_end e \<le> s_lo A + c \<Longrightarrow>
     spec_step c A (A\<lparr>s_log := set_state x Claimed_Entry (s_log A)\<rparr>)"
| skip:
    "s_owner A w = Some x \<Longrightarrow> e \<in> set (s_log A) \<Longrightarrow> e_start e = x \<Longrightarrow> e_state e = Reserved_Entry \<Longrightarrow>
     e_end e \<le> s_lo A + c \<Longrightarrow>
     spec_step c A (A\<lparr>s_log := set_state x Skipped_Entry (s_log A),
       s_owner := (s_owner A)(w := None)\<rparr>)"
| publish:
    "s_owner A w = Some x \<Longrightarrow> e \<in> set (s_log A) \<Longrightarrow> e_start e = x \<Longrightarrow> e_state e = Claimed_Entry \<Longrightarrow>
     length bs + 18 = e_len e \<Longrightarrow>
     spec_step c A (A\<lparr>s_log := set_state x (Published_Entry bs) (s_log A),
       s_owner := (s_owner A)(w := None)\<rparr>)"
| abandon:
    "s_owner A w = Some x \<Longrightarrow> e \<in> set (s_log A) \<Longrightarrow> e_start e = x \<Longrightarrow> e_state e = Claimed_Entry \<Longrightarrow>
     spec_step c A (A\<lparr>s_log := set_state x Aborted_Entry (s_log A),
       s_owner := (s_owner A)(w := None)\<rparr>)"
| join:
    "s_pos A r = None \<Longrightarrow> s_hi A \<le> s_lo A + c \<Longrightarrow>
     spec_step c A (A\<lparr>s_pos := (s_pos A)(r \<mapsto> s_hi A),
       s_joined := (s_joined A)(r := s_hi A),
       s_received := (s_received A)(r := [])\<rparr>)"
| advance:
    "s_pos A r = Some x \<Longrightarrow> e \<in> set (s_log A) \<Longrightarrow> e_start e = x \<Longrightarrow> final_state (e_state e) \<Longrightarrow>
     spec_step c A (A\<lparr>s_pos := (s_pos A)(r \<mapsto> e_end e),
       s_received := (s_received A)(r := s_received A r @ payload_of (e_state e)),
       s_lo := (if last_at A r x then e_end e else s_lo A)\<rparr>)"
| leave:
    "s_pos A r = Some (s_hi A) \<Longrightarrow> spec_step c A (A\<lparr>s_pos := (s_pos A)(r := None)\<rparr>)"

section \<open>The invariant\<close>

definition spec_log_ok :: "nat \<Rightarrow> Spec \<Rightarrow> bool" where
  "spec_log_ok c A \<longleftrightarrow> chain 0 (s_log A) (s_hi A) \<and>
     (\<forall>e\<in>set (s_log A). 18 \<le> e_len e \<and> e_start e mod c + e_len e \<le> c) \<and>
     (\<forall>e\<in>set (s_log A). e_state e \<noteq> Reserved_Entry \<longrightarrow> e_end e \<le> s_lo A + c)"

definition spec_readers_ok :: "nat \<Rightarrow> Spec \<Rightarrow> bool" where
  "spec_readers_ok c A \<longleftrightarrow>
     boundary (s_log A) (s_hi A) (s_lo A) \<and> s_lo A \<le> s_hi A \<and>
     (\<forall>r p. s_pos A r = Some p \<longrightarrow>
        boundary (s_log A) (s_hi A) p \<and> s_lo A \<le> p \<and> p \<le> s_hi A \<and> p \<le> s_lo A + c) \<and>
     (s_lo A < s_hi A \<longrightarrow> (\<exists>r. s_pos A r = Some (s_lo A)))"

definition spec_final_ok :: "Spec \<Rightarrow> bool" where
  "spec_final_ok A \<longleftrightarrow>
     (\<forall>e\<in>set (s_log A). \<forall>r p. s_pos A r = Some p \<longrightarrow> s_joined A r \<le> e_start e \<longrightarrow> e_start e < p \<longrightarrow>
        final_state (e_state e)) \<and>
     (\<forall>e\<in>set (s_log A). e_start e < s_lo A \<longrightarrow> final_state (e_state e))"

definition spec_owner_ok :: "Spec \<Rightarrow> bool" where
  "spec_owner_ok A \<longleftrightarrow>
     (\<forall>w x. s_owner A w = Some x \<longrightarrow>
        (\<exists>e\<in>set (s_log A). e_start e = x \<and> \<not> final_state (e_state e))) \<and>
     (\<forall>w w' x. s_owner A w = Some x \<longrightarrow> s_owner A w' = Some x \<longrightarrow> w = w') \<and>
     (\<forall>e\<in>set (s_log A). final_state (e_state e) \<or> (\<exists>w. s_owner A w = Some (e_start e)))"

definition spec_received_ok :: "Spec \<Rightarrow> bool" where
  "spec_received_ok A \<longleftrightarrow>
     (\<forall>r p. s_pos A r = Some p \<longrightarrow>
        s_joined A r \<le> p \<and> s_received A r = payloads (passed (s_joined A r) p (s_log A)))"

definition spec_inv :: "nat \<Rightarrow> Spec \<Rightarrow> bool" where
  "spec_inv c A \<longleftrightarrow> spec_log_ok c A \<and> spec_readers_ok c A \<and> spec_final_ok A \<and> spec_owner_ok A \<and>
     spec_received_ok A"

lemma spec_inv_init: "spec_init A \<Longrightarrow> spec_inv c A"
  by (simp add: spec_init_def spec_inv_def spec_log_ok_def spec_readers_ok_def spec_final_ok_def
      spec_owner_ok_def spec_received_ok_def boundary_def)

subsection \<open>Every step keeps it\<close>

lemma nonfinal_ahead:
  assumes "spec_inv c A" "e \<in> set (s_log A)" "\<not> final_state (e_state e)"
  shows "s_lo A \<le> e_start e" and "s_pos A r = Some p \<Longrightarrow> s_joined A r \<le> e_start e \<Longrightarrow> p \<le> e_start e"
  using assms by (auto simp: spec_inv_def spec_final_ok_def not_less [symmetric])

lemma spec_inv_reserve:
  assumes inv: "spec_inv c A" and "s_owner A w = None" "s_pos A \<noteq> Map.empty" "18 \<le> n"
    "s_hi A mod c + n \<le> c"
  shows "spec_inv c (A\<lparr>s_hi := s_hi A + n,
       s_log := s_log A @ [\<lparr>e_start = s_hi A, e_len = n, e_state = Reserved_Entry\<rparr>],
       s_owner := (s_owner A)(w \<mapsto> s_hi A)\<rparr>)" (is "spec_inv c ?A")
proof -
  have ch: "chain 0 (s_log A) (s_hi A)" using inv by (simp add: spec_inv_def spec_log_ok_def)
  have ahead: "e_start e < s_hi A" if "e \<in> set (s_log A)" for e
    using chain_mem_bounds [OF ch that] by (simp add: e_end_def)
  have R: "spec_readers_ok c A" using inv by (simp add: spec_inv_def)
  have pos: "s_lo A \<le> p \<and> p \<le> s_hi A" if "s_pos A r = Some p" for r p
    using R that by (simp add: spec_readers_ok_def)
  have "spec_log_ok c ?A"
    using inv assms(4,5) by (auto simp: spec_inv_def spec_log_ok_def chain_append e_end_def)
  moreover have "spec_readers_ok c ?A"
  proof -
    have "boundary (s_log ?A) (s_hi ?A) x" if "boundary (s_log A) (s_hi A) x" for x
      using that by (auto simp: boundary_def)
    moreover have "\<exists>r. s_pos A r = Some (s_lo A)"
    proof (cases "s_lo A < s_hi A")
      case True
      with R show ?thesis by (simp add: spec_readers_ok_def)
    next
      case False
      obtain r p where r: "s_pos A r = Some p" using assms(3) by (metis option.exhaust ext)
      with False pos [OF r] have "p = s_lo A" by simp
      with r show ?thesis by blast
    qed
    ultimately show ?thesis using R by (fastforce simp: spec_readers_ok_def)
  qed
  moreover have "spec_final_ok ?A"
    using inv pos R by (fastforce simp: spec_inv_def spec_final_ok_def spec_readers_ok_def)
  moreover have "spec_owner_ok ?A"
  proof -
    have O: "spec_owner_ok A" using inv by (simp add: spec_inv_def)
    have "x \<noteq> s_hi A" if "s_owner A w' = Some x" for w' x
      using O that ahead by (fastforce simp: spec_owner_ok_def)
    moreover have "final_state (e_state e) \<or> (\<exists>w'. w' \<noteq> w \<and> s_owner A w' = Some (e_start e))"
      if "e \<in> set (s_log A)" for e
      using O that assms(2) by (metis option.distinct(1) spec_owner_ok_def)
    ultimately show ?thesis using O by (auto simp: spec_owner_ok_def) blast
  qed
  moreover have "spec_received_ok ?A"
    using inv pos by (auto simp: spec_inv_def spec_received_ok_def passed_snoc)
  ultimately show ?thesis by (simp add: spec_inv_def)
qed

lemma spec_owner_entry:
  assumes "spec_inv c A" "s_owner A w = Some x"
  shows "\<exists>e\<in>set (s_log A). e_start e = x \<and> \<not> final_state (e_state e)"
  using assms unfolding spec_inv_def spec_owner_ok_def by blast

text \<open>Changing the state of an entry no reader has passed.\<close>

lemma spec_inv_set_state:
  assumes inv: "spec_inv c A" and e: "e \<in> set (s_log A)" "\<not> final_state (e_state e)"
    and bound: "e_end e \<le> s_lo A + c"
  shows "spec_log_ok c (A\<lparr>s_log := set_state (e_start e) st (s_log A), s_owner := own\<rparr>)"
    "spec_readers_ok c (A\<lparr>s_log := set_state (e_start e) st (s_log A), s_owner := own\<rparr>)"
    "spec_final_ok (A\<lparr>s_log := set_state (e_start e) st (s_log A), s_owner := own\<rparr>)"
    "spec_received_ok (A\<lparr>s_log := set_state (e_start e) st (s_log A), s_owner := own\<rparr>)"
proof -
  have ch: "chain 0 (s_log A) (s_hi A)" using inv by (simp add: spec_inv_def spec_log_ok_def)
  note ahead = nonfinal_ahead [OF inv e]
  have same: "f = e" if "f \<in> set (s_log A)" "e_start f = e_start e" for f
    by (rule chain_unique [OF ch that(1) e(1) that(2)])
  show "spec_log_ok c (A\<lparr>s_log := set_state (e_start e) st (s_log A), s_owner := own\<rparr>)"
    using inv bound same
    by (fastforce simp: spec_inv_def spec_log_ok_def mem_set_state e_end_def)
  show "spec_readers_ok c (A\<lparr>s_log := set_state (e_start e) st (s_log A), s_owner := own\<rparr>)"
    using inv by (simp add: spec_inv_def spec_readers_ok_def)
  show "spec_final_ok (A\<lparr>s_log := set_state (e_start e) st (s_log A), s_owner := own\<rparr>)"
    using inv ahead
    by (fastforce simp: spec_inv_def spec_final_ok_def mem_set_state split: if_splits)
  show "spec_received_ok (A\<lparr>s_log := set_state (e_start e) st (s_log A), s_owner := own\<rparr>)"
    using inv ahead(2)
    by (fastforce simp: spec_inv_def spec_received_ok_def not_le passed_set_state)
qed

lemma nonfinal_set_state:
  assumes "\<exists>e\<in>set L. e_start e = y \<and> \<not> final_state (e_state e)"
    and "\<not> final_state st \<or> y \<noteq> x"
  shows "\<exists>e\<in>set (set_state x st L). e_start e = y \<and> \<not> final_state (e_state e)"
proof -
  obtain e where "e \<in> set L" "e_start e = y" "\<not> final_state (e_state e)"
    using assms(1) by blast
  with assms(2) show ?thesis
    by (intro bexI [of _ "if e_start e = x then e\<lparr>e_state := st\<rparr> else e"])
      (auto simp: mem_set_state)
qed

lemma spec_owner_set_state:
  assumes "spec_inv c A" "\<not> final_state st" "s_owner A w = Some x"
  shows "spec_owner_ok (A\<lparr>s_log := set_state x st (s_log A)\<rparr>)"
proof -
  have O: "spec_owner_ok A" using assms(1) by (simp add: spec_inv_def)
  have "final_state (e_state f) \<or> (\<exists>w. s_owner A w = Some (e_start f))"
    if f: "f \<in> set (set_state x st (s_log A))" for f
  proof -
    obtain e where "e \<in> set (s_log A)" "f = (if e_start e = x then e\<lparr>e_state := st\<rparr> else e)"
      using f by (auto simp: mem_set_state)
    with O assms(3) show ?thesis by (cases "e_start e = x") (auto simp: spec_owner_ok_def)
  qed
  with O assms(2) show ?thesis by (simp add: spec_owner_ok_def nonfinal_set_state)
qed

lemma spec_owner_release:
  assumes "spec_inv c A" "s_owner A w = Some x" "final_state st"
  shows "spec_owner_ok (A\<lparr>s_log := set_state x st (s_log A), s_owner := (s_owner A)(w := None)\<rparr>)"
proof -
  have O: "spec_owner_ok A" using assms(1) by (simp add: spec_inv_def)
  have "y \<noteq> x" if "s_owner A w' = Some y" "w' \<noteq> w" for w' y
    using O that assms(2) by (auto simp: spec_owner_ok_def)
  moreover have "final_state (e_state f) \<or> (\<exists>w'. w' \<noteq> w \<and> s_owner A w' = Some (e_start f))"
    if f: "f \<in> set (set_state x st (s_log A))" for f
  proof -
    obtain e where "e \<in> set (s_log A)" "f = (if e_start e = x then e\<lparr>e_state := st\<rparr> else e)"
      using f by (auto simp: mem_set_state)
    with O assms(2,3) show ?thesis
      by (cases "e_start e = x") (auto simp: spec_owner_ok_def, metis option.inject)
  qed
  ultimately show ?thesis
    using O by (auto simp: spec_owner_ok_def intro!: nonfinal_set_state) blast
qed

lemma spec_inv_join:
  assumes inv: "spec_inv c A" and "s_pos A r = None" "s_hi A \<le> s_lo A + c"
  shows "spec_inv c (A\<lparr>s_pos := (s_pos A)(r \<mapsto> s_hi A),
       s_joined := (s_joined A)(r := s_hi A), s_received := (s_received A)(r := [])\<rparr>)"
    (is "spec_inv c ?A")
proof -
  have R: "spec_readers_ok c A" using inv by (simp add: spec_inv_def)
  have "spec_log_ok c ?A" "spec_owner_ok ?A" "spec_final_ok ?A"
    using inv by (simp_all add: spec_inv_def spec_log_ok_def spec_owner_ok_def spec_final_ok_def)
  moreover have "spec_readers_ok c ?A"
  proof -
    have "\<exists>r'. s_pos ?A r' = Some (s_lo A)" if lt: "s_lo A < s_hi A"
    proof -
      obtain r' where "s_pos A r' = Some (s_lo A)"
        using R lt by (auto simp: spec_readers_ok_def)
      with assms(2) show ?thesis by (intro exI [of _ r']) auto
    qed
    with R assms(3) show ?thesis by (simp add: spec_readers_ok_def boundary_def)
  qed
  moreover have "spec_received_ok ?A"
    using inv by (simp add: spec_inv_def spec_received_ok_def passed_empty payloads_def)
  ultimately show ?thesis by (simp add: spec_inv_def)
qed

lemma last_at_lo:
  assumes inv: "spec_inv c A" and r: "s_pos A r = Some x" "last_at A r x" and "x < s_hi A"
  shows "s_lo A = x"
proof -
  have R: "spec_readers_ok c A" using inv by (simp add: spec_inv_def)
  with r have lo: "s_lo A \<le> x" by (simp add: spec_readers_ok_def)
  with assms(4) R obtain r0 where "s_pos A r0 = Some (s_lo A)"
    by (auto simp: spec_readers_ok_def)
  with r lo show ?thesis by (cases "r0 = r") (auto simp: last_at_def)
qed

lemma spec_inv_advance:
  assumes inv: "spec_inv c A" and r: "s_pos A r = Some x"
    and e: "e \<in> set (s_log A)" "e_start e = x" "final_state (e_state e)"
  shows "spec_inv c (A\<lparr>s_pos := (s_pos A)(r \<mapsto> e_end e),
       s_received := (s_received A)(r := s_received A r @ payload_of (e_state e)),
       s_lo := (if last_at A r x then e_end e else s_lo A)\<rparr>)" (is "spec_inv c ?A")
proof -
  have ch: "chain 0 (s_log A) (s_hi A)" and R: "spec_readers_ok c A"
    using inv by (simp_all add: spec_inv_def spec_log_ok_def)
  have len: "x < e_end e" "e_end e \<le> s_hi A"
    using chain_mem_bounds [OF ch e(1)] e(2) by (simp_all add: e_end_def)
  have bd: "boundary (s_log A) (s_hi A) (e_end e)" by (rule chain_boundary_end [OF ch e(1)])
  have jump: "e_end e \<le> y" if "boundary (s_log A) (s_hi A) y" "x < y" for y
    using boundary_jump [OF ch e(1) that(1)] that(2) e(2) by simp
  have win: "e_end e \<le> s_lo A + c"
    using inv e by (auto simp: spec_inv_def spec_log_ok_def)
  have pos: "boundary (s_log A) (s_hi A) p" "s_lo A \<le> p" "p \<le> s_lo A + c" "p \<le> s_hi A"
    if "s_pos A r' = Some p" for r' p
    using R that by (auto simp: spec_readers_ok_def)
  have lo: "s_lo A \<le> s_lo ?A" using pos(2) [OF r] len by simp
  have lo_x: "s_lo A = x" if "last_at A r x"
    using last_at_lo [OF inv r that] len by simp
  have "spec_log_ok c ?A"
    using inv lo by (fastforce simp: spec_inv_def spec_log_ok_def)
  moreover have "spec_readers_ok c ?A"
  proof -
    have moved: "s_lo ?A \<le> p \<and> p \<le> s_lo ?A + c"
      if "s_pos A r' = Some p" "r' \<noteq> r" for r' p
      using that pos [OF that(1)] jump lo by (auto simp: last_at_def)
    have "\<exists>r'. s_pos ?A r' = Some (s_lo ?A)"
    proof (cases "last_at A r x")
      case True
      then show ?thesis by (intro exI [of _ r]) simp
    next
      case False
      then obtain r' p where r': "r' \<noteq> r" "s_pos A r' = Some p" "p \<le> x"
        by (auto simp: last_at_def not_less)
      have "s_lo A < s_hi A" using pos(2) [OF r] len by simp
      then obtain r0 where r0: "s_pos A r0 = Some (s_lo A)"
        using R by (auto simp: spec_readers_ok_def)
      show ?thesis
      proof (cases "r0 = r")
        case True
        with r r0 r' pos(2) [OF r'(2)] have "s_pos A r' = Some (s_lo A)" by simp
        with r' False show ?thesis by (intro exI [of _ r']) simp
      next
        case ne: False
        with r0 False show ?thesis by (intro exI [of _ r0]) simp
      qed
    qed
    moreover have "boundary (s_log A) (s_hi A) (s_lo ?A)"
      using R bd by (simp add: spec_readers_ok_def)
    moreover have "s_lo ?A \<le> s_hi A" using R len by (simp add: spec_readers_ok_def)
    moreover have "s_lo ?A \<le> e_end e" "e_end e \<le> s_lo ?A + c"
      using win lo pos(2) [OF r] len by simp_all
    ultimately show ?thesis
      using moved pos bd len(2) by (cases "last_at A r x") (simp_all add: spec_readers_ok_def)
  qed
  moreover have "spec_final_ok ?A"
  proof -
    have "final_state (e_state f)" if "f \<in> set (s_log A)" "x \<le> e_start f" "e_start f < e_end e" for f
      using chain_disjoint [OF ch that(1) e(1)] chain_mem_bounds [OF ch that(1)] that e
      by (auto simp: e_end_def)
    then have "final_state (e_state f)"
      if "f \<in> set (s_log A)" "e_start f < x \<longrightarrow> final_state (e_state f)" "e_start f < e_end e" for f
      using that by (cases "e_start f < x") auto
    with inv r lo_x show ?thesis
      by (simp add: spec_inv_def spec_final_ok_def) blast
  qed
  moreover have "spec_owner_ok ?A" using inv by (simp add: spec_inv_def spec_owner_ok_def)
  moreover have "spec_received_ok ?A"
  proof -
    have "s_joined A r \<le> x" using inv r by (simp add: spec_inv_def spec_received_ok_def)
    then have "passed (s_joined A r) (e_end e) (s_log A)
        = passed (s_joined A r) x (s_log A) @ [e]"
      using passed_advance [OF ch e(1), of "s_joined A r"] e(2) by simp
    moreover have "s_joined A r \<le> e_end e" using \<open>s_joined A r \<le> x\<close> len by simp
    ultimately show ?thesis using inv r
      by (simp add: spec_inv_def spec_received_ok_def)
  qed
  ultimately show ?thesis by (simp add: spec_inv_def)
qed

text \<open>A reader that leaves has read everything, so the slowest reader is another one.\<close>

lemma spec_inv_leave:
  assumes inv: "spec_inv c A" and r: "s_pos A r = Some (s_hi A)"
  shows "spec_inv c (A\<lparr>s_pos := (s_pos A)(r := None)\<rparr>)" (is "spec_inv c ?A")
proof -
  have R: "spec_readers_ok c A" using inv by (simp add: spec_inv_def)
  have "\<exists>r'. s_pos ?A r' = Some (s_lo A)" if lt: "s_lo A < s_hi A"
  proof -
    obtain r' where r': "s_pos A r' = Some (s_lo A)"
      using R lt by (auto simp: spec_readers_ok_def)
    with r lt have "r' \<noteq> r" by auto
    with r' show ?thesis by (intro exI [of _ r']) simp
  qed
  with R have "spec_readers_ok c ?A" by (auto simp: spec_readers_ok_def)
  with inv show ?thesis
    by (auto simp: spec_inv_def spec_log_ok_def spec_final_ok_def spec_owner_ok_def spec_received_ok_def)
qed

lemma spec_inv_step:
  assumes "spec_inv c A" "spec_step c A A'"
  shows "spec_inv c A'"
  using assms(2,1)
proof cases
  case (reserve w n)
  with assms(1) spec_inv_reserve show ?thesis by blast
next
  case (place w x e)
  have "\<not> final_state (e_state e)" using place by simp
  from spec_inv_set_state [OF assms(1) _ this, where own = "s_owner A" and st = Claimed_Entry]
    spec_owner_set_state [OF assms(1), of Claimed_Entry w x] place
  show ?thesis by (simp add: spec_inv_def)
next
  case (skip w x e)
  have "\<not> final_state (e_state e)" using skip by simp
  from spec_inv_set_state [OF assms(1) _ this, where own = "(s_owner A)(w := None)"
      and st = Skipped_Entry] spec_owner_release [OF assms(1), of w x Skipped_Entry] skip
  show ?thesis by (simp add: spec_inv_def)
next
  case (publish w x e bs)
  have "\<not> final_state (e_state e)" using publish by simp
  moreover have "e_end e \<le> s_lo A + c"
    using assms(1) publish by (auto simp: spec_inv_def spec_log_ok_def)
  ultimately show ?thesis
    using spec_inv_set_state [OF assms(1), where e = e and st = "Published_Entry bs"
        and own = "(s_owner A)(w := None)"]
      spec_owner_release [OF assms(1), of w x "Published_Entry bs"] publish
    by (simp add: spec_inv_def)
next
  case (abandon w x e)
  have "\<not> final_state (e_state e)" using abandon by simp
  moreover have "e_end e \<le> s_lo A + c"
    using assms(1) abandon by (auto simp: spec_inv_def spec_log_ok_def)
  ultimately show ?thesis
    using spec_inv_set_state [OF assms(1), where e = e and st = Aborted_Entry
        and own = "(s_owner A)(w := None)"]
      spec_owner_release [OF assms(1), of w x Aborted_Entry] abandon
    by (simp add: spec_inv_def)
next
  case (join r)
  with assms(1) spec_inv_join show ?thesis by blast
next
  case (advance r x e)
  with assms(1) spec_inv_advance show ?thesis by blast
next
  case (leave r)
  with assms(1) spec_inv_leave show ?thesis by blast
qed

interpretation spec: invariant_machine spec_init "spec_step c" "spec_inv c" for c
  by unfold_locales (auto intro: spec_inv_init spec_inv_step)

end
