(* ===== verification/Ipc_Refinement.thy ===== *)
theory Ipc_Refinement
  imports Ipc_System Broadcast_Spec
begin

text \<open>
  The queue implements the broadcast log: a simulation relation between the segment with its
  readers and writers and the state of \<open>Broadcast_Spec\<close>, and its preservation by every step.
\<close>

section \<open>The simulation relation\<close>

definition behind :: "Spec \<Rightarrow> nat \<Rightarrow> nat set" where
  "behind A x = {r. \<exists>p. s_pos A r = Some p \<and> p \<le> x}"

text \<open>The flag that the header of an entry has.\<close>

fun entry_flag :: "EntryState \<Rightarrow> u8" where
  "entry_flag (Published_Entry bs) = commit_flag_value READY_FOR_CONSUMER"
| "entry_flag Skipped_Entry = commit_flag_value READY_FOR_CONSUMER"
| "entry_flag Aborted_Entry = commit_flag_value ABORTED"
| "entry_flag _ = commit_flag_value NOT_READY"

text \<open>An entry whose header is in the ring and which is still to be read by \<open>n\<close> readers.\<close>

definition live_ok :: "nat \<Rightarrow> mem \<Rightarrow> nat \<Rightarrow> Entry \<Rightarrow> bool" where
  "live_ok c m n e \<longleftrightarrow>
     (let a = e_start e mod c in
      unat (hdr_abs_offset m a) = e_start e \<and>
      unat (hdr_message_size m a) + 18 = e_len e \<and>
      hdr_type m a = message_type_value (if e_state e = Skipped_Entry then PADDING else NORMAL) \<and>
      unat (hdr_num_readers m a) = n \<and>
      hdr_commit_flag m a = entry_flag (e_state e) \<and>
      (\<forall>bs. e_state e = Published_Entry bs \<longrightarrow> read_bytes m (a + 18) (e_len e - 18) = bs))"

definition live :: "Spec \<Rightarrow> Entry \<Rightarrow> bool" where
  "live A e \<longleftrightarrow> e \<in> set (s_log A) \<and> e_state e \<noteq> Reserved_Entry \<and> s_lo A \<le> e_start e"

definition in_region :: "nat \<Rightarrow> Entry \<Rightarrow> nat \<Rightarrow> bool" where
  "in_region c e i \<longleftrightarrow> e_start e mod c \<le> i \<and> i < e_start e mod c + e_len e"

text \<open>
  The stored bytes: live entries are in the ring, and outside them only the \<open>abs_offset\<close> fields
  of old headers, which lie at the places of \<open>G\<close>, are not zero. Past the ring all bytes are zero.
\<close>

definition rel_mem :: "nat \<Rightarrow> nat set \<Rightarrow> mem \<Rightarrow> Spec \<Rightarrow> bool" where
  "rel_mem c G m A \<longleftrightarrow>
     (\<forall>e. live A e \<longrightarrow> live_ok c m (card (behind A (e_start e))) e) \<and>
     (\<forall>i<c. m i \<noteq> 0 \<longrightarrow> (\<exists>e. live A e \<and> in_region c e i) \<or> (\<exists>p. p \<in> G \<and> p \<le> i \<and> i < p + 8)) \<and>
     (\<forall>i\<ge>c. m i = 0)"

definition rel_offsets :: "IpcQueue \<Rightarrow> nat set \<Rightarrow> Segment \<Rightarrow> Spec \<Rightarrow> bool" where
  "rel_offsets wq G s A \<longleftrightarrow>
     sane_queue wq \<and> is_writer wq \<and> spaced G \<and>
     seg_hi s = s_hi A \<and> seg_lo s = s_lo A \<and> s_hi A + q_cap wq < 2 ^ 56 \<and>
     header_room (q_cap wq) (s_hi A) \<and> s_hi A mod q_cap wq \<in> G \<and>
     (\<forall>e\<in>set (s_log A). e_start e mod q_cap wq \<in> G)"

definition rel_readers :: "IpcQueue \<Rightarrow> Sys \<Rightarrow> Spec \<Rightarrow> bool" where
  "rel_readers wq \<sigma> A \<longleftrightarrow>
     s_pos A = map_option reader_at \<circ> open_readers \<sigma> \<and>
     (\<forall>r q. open_readers \<sigma> r = Some q \<longrightarrow>
        \<not> is_writer q \<and> available_queue_size_bytes q = available_queue_size_bytes wq \<and>
        received \<sigma> r = s_received A r \<and> joined \<sigma> r = s_joined A r) \<and>
     finite (dom (open_readers \<sigma>)) \<and>
     seg_readers (seg \<sigma>) = card (dom (open_readers \<sigma>)) \<and>
     card (dom (open_readers \<sigma>)) \<le> 255"

fun rel_thread :: "IpcQueue \<Rightarrow> Spec \<Rightarrow> WriterPhase option \<Rightarrow> nat option \<Rightarrow> bool" where
  "rel_thread wq A None None \<longleftrightarrow> True"
| "rel_thread wq A (Some (Waiting sz t)) (Some x) \<longleftrightarrow>
     x = ticket_start t \<and> 0 < unat sz \<and> unat sz + 18 \<le> q_cap wq \<and>
     unat (num_readers (claimed_word t)) = card (behind A x) \<and>
     (\<exists>e\<in>set (s_log A). e_start e = x \<and> e_state e = Reserved_Entry \<and>
        e_len e = region_len (q_cap wq) x (unat sz + 18) \<and> ticket_end t = e_end e)"
| "rel_thread wq A (Some (Holding b)) (Some x) \<longleftrightarrow>
     (\<exists>e\<in>set (s_log A). e_start e = x \<and> e_state e = Claimed_Entry \<and>
        wrapper_data b = x mod q_cap wq \<and> unat (wrapper_size b) = e_len e)"
| "rel_thread wq A _ _ \<longleftrightarrow> False"

definition rel_threads :: "IpcQueue \<Rightarrow> Sys \<Rightarrow> Spec \<Rightarrow> bool" where
  "rel_threads wq \<sigma> A \<longleftrightarrow> (\<forall>w. rel_thread wq A (threads \<sigma> w) (s_owner A w))"

definition rel_held :: "IpcQueue \<Rightarrow> Sys \<Rightarrow> Spec \<Rightarrow> bool" where
  "rel_held wq \<sigma> A \<longleftrightarrow>
     (\<forall>r wr. held \<sigma> r = Some wr \<longrightarrow>
        (\<exists>x e bs. s_pos A r = Some x \<and> e \<in> set (s_log A) \<and> e_start e = x \<and>
           e_state e = Published_Entry bs \<and>
           wrapper_data wr = x mod q_cap wq \<and> unat (wrapper_size wr) = e_len e))"

definition rel_sent :: "Sys \<Rightarrow> Spec \<Rightarrow> bool" where
  "rel_sent \<sigma> A \<longleftrightarrow>
     (\<forall>x bs. sent \<sigma> x = Some bs \<longleftrightarrow>
        (\<exists>e\<in>set (s_log A). e_start e = x \<and> e_state e = Published_Entry bs)) \<and>
     (\<forall>x. x \<in> dropped \<sigma> \<longleftrightarrow> (\<exists>e\<in>set (s_log A). e_start e = x \<and> e_state e = Aborted_Entry))"

definition refines :: "IpcQueue \<Rightarrow> nat set \<Rightarrow> Sys \<Rightarrow> Spec \<Rightarrow> bool" where
  "refines wq G \<sigma> A \<longleftrightarrow>
     spec_inv (q_cap wq) A \<and> rel_offsets wq G (seg \<sigma>) A \<and> rel_readers wq \<sigma> A \<and>
     rel_threads wq \<sigma> A \<and> rel_held wq \<sigma> A \<and> rel_sent \<sigma> A \<and>
     rel_mem (q_cap wq) G (ring (seg \<sigma>)) A"

section \<open>Facts about related states\<close>

lemma live_ok_cong:
  assumes "\<And>i. in_region c e i \<Longrightarrow> m i = m' i" "18 \<le> e_len e"
  shows "live_ok c m n e \<longleftrightarrow> live_ok c m' n e"
proof -
  let ?a = "e_start e mod c"
  have hdr: "m i = m' i" if "?a \<le> i" "i < ?a + 18" for i
    using assms that by (simp add: in_region_def)
  have "read_bytes m (?a + 18) (e_len e - 18) = read_bytes m' (?a + 18) (e_len e - 18)"
    using assms by (intro read_bytes_cong) (simp add: in_region_def)
  with hdr_cong [of ?a m m', OF hdr] show ?thesis
    by (simp add: live_ok_def Let_def)
qed

lemma spec_log_facts:
  assumes "spec_inv c A" "e \<in> set (s_log A)"
  shows "18 \<le> e_len e" "e_start e mod c + e_len e \<le> c" "e_end e \<le> s_hi A"
    "e_state e \<noteq> Reserved_Entry \<Longrightarrow> e_end e \<le> s_lo A + c"
  using assms chain_mem_bounds [of 0 "s_log A" "s_hi A" e]
  by (auto simp: spec_inv_def spec_log_ok_def)

lemma spec_chain: "spec_inv c A \<Longrightarrow> chain 0 (s_log A) (s_hi A)"
  by (simp add: spec_inv_def spec_log_ok_def)

lemma spec_entry_unique:
  assumes "spec_inv c A" "e \<in> set (s_log A)" "f \<in> set (s_log A)" "e_start e = e_start f"
  shows "e = f"
  using chain_unique [OF spec_chain [OF assms(1)]] assms by blast

text \<open>Two entries of the window do not share a ring byte.\<close>

lemma regions_apart:
  assumes inv: "spec_inv c A" and e: "e \<in> set (s_log A)" and f: "f \<in> set (s_log A)" and "e \<noteq> f"
    and "s_lo A \<le> e_start e" "e_end e \<le> s_lo A + c" "s_lo A \<le> e_start f" "e_end f \<le> s_lo A + c"
    and "in_region c e i" "in_region c f i"
  shows False
proof -
  have "e_end e \<le> e_start f \<or> e_end f \<le> e_start e"
    using chain_disjoint [OF spec_chain [OF inv] e f] \<open>e \<noteq> f\<close> by blast
  then show False
    using ring_disjoint [of "e_start e" "e_len e" "e_start f" "e_len f" c i]
      ring_disjoint [of "e_start f" "e_len f" "e_start e" "e_len e" c i]
      spec_log_facts(2) [OF inv e] spec_log_facts(2) [OF inv f] assms(5-)
    by (auto simp: in_region_def e_end_def)
qed

lemma live_window:
  assumes "spec_inv c A" "live A e"
  shows "e \<in> set (s_log A)" "s_lo A \<le> e_start e" "e_end e \<le> s_lo A + c" "18 \<le> e_len e"
    "e_start e mod c + e_len e \<le> c"
  using assms spec_log_facts [OF assms(1)] by (auto simp: live_def)

lemma mod_window:
  fixes x y l c :: nat
  assumes "x mod c = y mod c" "l \<le> x" "x < l + c" "l \<le> y" "y < l + c"
  shows "x = y"
proof (rule ccontr)
  assume "x \<noteq> y"
  have "c dvd x - y" "c dvd y - x"
    using assms(1) by (metis mod_eq_dvd_iff_nat nat_le_linear diff_is_0_eq dvd_0_right)+
  moreover have "x - y < c" "y - x < c" using assms by simp_all
  ultimately have "x - y = 0" "y - x = 0" by (meson nat_dvd_not_less neq0_conv)+
  with \<open>x \<noteq> y\<close> show False by simp
qed

text \<open>The flag byte of a place where an entry may start lies in the region of that entry only.\<close>

lemma flag_byte_region:
  assumes inv: "spec_inv c A" and G: "spaced G"
    and x: "boundary (s_log A) (s_hi A) x" "s_lo A \<le> x" "x < s_lo A + c" "x mod c + 18 \<le> c"
    and gx: "x mod c \<in> G" and ge: "e_start e mod c \<in> G"
    and e: "e \<in> set (s_log A)" "s_lo A \<le> e_start e" "e_end e \<le> s_lo A + c"
    and i: "in_region c e (x mod c + 17)"
  shows "e_start e = x"
proof -
  let ?i = "x mod c + 17"
  have a: "e_start e mod c \<le> x mod c"
  proof (rule ccontr)
    assume "\<not> ?thesis"
    then have "x mod c + 18 \<le> e_start e mod c" by (intro spacedD [OF G gx ge]) simp
    with i show False by (simp add: in_region_def)
  qed
  define y where "y = e_start e + (x mod c - e_start e mod c)"
  have "x mod c < e_start e mod c + e_len e"
    using i by (simp add: in_region_def)
  then have y: "e_start e \<le> y" "y < e_end e" using a by (simp_all add: y_def e_end_def)
  have "y mod c = x mod c"
    unfolding y_def using x(4) a by (intro mod_advance) simp_all
  moreover have "s_lo A \<le> y" "y < s_lo A + c" using y e by simp_all
  ultimately have "y = x" using x(2,3) by (metis mod_window)
  with y boundary_jump [OF spec_chain [OF inv] e(1) x(1)] show ?thesis
    by (cases "e_start e < x") auto
qed

text \<open>
  The flag byte of a position that no placed entry starts at is zero: a live entry that covered
  it would start there itself, and the \<open>abs_offset\<close> bytes at another place do not reach it.
\<close>

lemma flag_free:
  assumes inv: "spec_inv c A" and mem: "rel_mem c G m A" and G: "spaced G"
    and x: "boundary (s_log A) (s_hi A) x" "s_lo A \<le> x" "x < s_lo A + c" "x mod c + 18 \<le> c"
    and gx: "x mod c \<in> G" and gl: "\<forall>e\<in>set (s_log A). e_start e mod c \<in> G"
    and free: "\<And>e. e \<in> set (s_log A) \<Longrightarrow> e_start e = x \<Longrightarrow> e_state e = Reserved_Entry"
  shows "m (x mod c + 17) = 0"
proof (rule ccontr)
  let ?i = "x mod c + 17"
  assume "m ?i \<noteq> 0"
  moreover have "?i < c" using x(4) by simp
  ultimately consider (live) e where "live A e" "in_region c e ?i"
    | (place) p where "p \<in> G" "p \<le> ?i" "?i < p + 8"
    using mem by (auto simp: rel_mem_def)
  then show False
  proof cases
    case (place p)
    then have "x mod c < p" by linarith
    with spacedD [OF G gx place(1)] place(2) show False
      by simp
  next
    case (live e)
    note w = live_window [OF inv live(1)]
    have "e_start e mod c \<in> G" using gl w(1) by blast
    from flag_byte_region [OF inv G x gx this w(1-3) live(2)] have "e_start e = x" .
    with free [OF w(1)] live(1) show False by (simp add: live_def)
  qed
qed

lemma behind_cong: "s_pos A = s_pos B \<Longrightarrow> behind A x = behind B x"
  by (simp add: behind_def)

lemma readers_pos:
  assumes "rel_readers wq \<sigma> A"
  shows "s_pos A r = map_option reader_at (open_readers \<sigma> r)" "dom (s_pos A) = dom (open_readers \<sigma>)"
  using assms by (auto simp: rel_readers_def dom_def)

lemma behind_finite:
  assumes "rel_readers wq \<sigma> A"
  shows "finite (behind A x)" "card (behind A x) \<le> 255" "behind A x \<subseteq> dom (s_pos A)"
proof -
  show sub: "behind A x \<subseteq> dom (s_pos A)" by (auto simp: behind_def)
  moreover have fin: "finite (dom (s_pos A))" and "card (dom (s_pos A)) \<le> 255"
    using assms readers_pos(2) [OF assms] by (simp_all add: rel_readers_def)
  ultimately show "finite (behind A x)" "card (behind A x) \<le> 255"
    by (auto intro: finite_subset dest: card_mono [OF fin])
qed

lemma rel_thread_cong:
  assumes "rel_thread wq A ph own"
    and "\<And>x e. own = Some x \<Longrightarrow> e \<in> set (s_log A) \<Longrightarrow> e_start e = x \<Longrightarrow> e \<in> set (s_log A')"
    and "\<And>x. own = Some x \<Longrightarrow> card (behind A' x) = card (behind A x)"
  shows "rel_thread wq A' ph own"
  using assms by (cases "(wq, A, ph, own)" rule: rel_thread.cases) auto

lemma rel_thread_None: "rel_thread wq A None own \<longleftrightarrow> own = None"
  by (cases own) simp_all

lemma rel_threadsD: "rel_threads wq \<sigma> A \<Longrightarrow> rel_thread wq A (threads \<sigma> w) (s_owner A w)"
  by (simp add: rel_threads_def)

lemma rel_threads_owner:
  assumes "rel_threads wq \<sigma> A" "threads \<sigma> w = Some ph"
  obtains x where "s_owner A w = Some x" "rel_thread wq A (Some ph) (Some x)"
proof -
  have "rel_thread wq A (Some ph) (s_owner A w)"
    using assms by (auto simp: rel_threads_def dest: spec [of _ w])
  with that show ?thesis by (cases "s_owner A w"; cases ph) auto
qed

text \<open>Filling in an entry: the other live entries keep their bytes.\<close>

lemma rel_mem_update:
  assumes inv: "spec_inv c A" and mem: "rel_mem c G m A"
    and e: "e \<in> set (s_log A)" "\<not> final_state (e_state e)" "e_end e \<le> s_lo A + c"
    and st: "st \<noteq> Reserved_Entry"
    and outside: "\<And>i. i < c \<Longrightarrow> \<not> in_region c e i \<Longrightarrow> m' i = m i"
    and beyond: "\<And>i. c \<le> i \<Longrightarrow> m' i = 0"
    and new: "live_ok c m' (card (behind A (e_start e))) (e\<lparr>e_state := st\<rparr>)"
  shows "rel_mem c G m' (A\<lparr>s_log := set_state (e_start e) st (s_log A), s_owner := own\<rparr>)"
    (is "rel_mem c G m' ?A")
proof -
  have lo: "s_lo A \<le> e_start e" by (rule nonfinal_ahead(1) [OF inv e(1,2)])
  have beh: "behind ?A x = behind A x" for x by (rule behind_cong) simp
  have live_new: "live ?A (e\<lparr>e_state := st\<rparr>)"
    using e(1) lo st by (auto simp: live_def mem_set_state)
  have live_old: "live ?A f \<longleftrightarrow> live A f" if "e_start f \<noteq> e_start e" for f
    using that by (auto simp: live_def mem_set_state)
  have live_iff: "f = e\<lparr>e_state := st\<rparr>" if f: "live ?A f" "e_start f = e_start e" for f
  proof -
    obtain d where d: "d \<in> set (s_log A)" "f = (if e_start d = e_start e then d\<lparr>e_state := st\<rparr> else d)"
      using f(1) by (auto simp: live_def mem_set_state)
    with f(2) have "d = e" by (intro spec_entry_unique [OF inv d(1) e(1)]) (simp split: if_splits)
    with d(2) show ?thesis by simp
  qed
  have "live_ok c m' (card (behind A (e_start f))) f" if f: "live ?A f" for f
  proof (cases "e_start f = e_start e")
    case True
    with live_iff [OF f] new show ?thesis by simp
  next
    case False
    with f live_old have lf: "live A f" by blast
    note w = live_window [OF inv lf]
    have "m' i = m i" if "in_region c f i" for i
    proof (rule outside)
      show "i < c" using that w(5) by (simp add: in_region_def)
      show "\<not> in_region c e i"
        using regions_apart [OF inv e(1) w(1) _ lo e(3) w(2,3) _ that] False by auto
    qed
    then have "live_ok c m' n f \<longleftrightarrow> live_ok c m n f" for n
      by (intro live_ok_cong w(4))
    with mem lf show ?thesis by (simp add: rel_mem_def)
  qed
  moreover have "(\<exists>f. live ?A f \<and> in_region c f i) \<or> (\<exists>p. p \<in> G \<and> p \<le> i \<and> i < p + 8)"
    if i: "i < c" "m' i \<noteq> 0" for i
  proof (cases "in_region c e i")
    case True
    then have "in_region c (e\<lparr>e_state := st\<rparr>) i" by (simp add: in_region_def)
    with live_new show ?thesis by blast
  next
    case False
    with outside i have "m i \<noteq> 0" by simp
    then consider f where "live A f" "in_region c f i"
      | "\<exists>p. p \<in> G \<and> p \<le> i \<and> i < p + 8"
      using mem i(1) unfolding rel_mem_def by blast
    then show ?thesis
    proof cases
      case (1 f)
      have "e_start f \<noteq> e_start e"
      proof
        assume "e_start f = e_start e"
        with spec_entry_unique [OF inv _ e(1)] 1(1) have "f = e" by (simp add: live_def)
        with 1(2) False show False by simp
      qed
      with 1 live_old show ?thesis by blast
    qed simp
  qed
  ultimately show ?thesis using beyond by (simp add: rel_mem_def beh)
qed

section \<open>Steps of the writers\<close>

lemma refines_reserve:
  assumes R: "refines wq G \<sigma> A" and step: "threads \<sigma> w = None" "open_readers \<sigma> \<noteq> Map.empty"
    "claim_checks wq sz"
    "reserve_write_offset wq (seg \<sigma>) (sz + sizeof_MessageHeader) = (s', t)"
    "seg_hi s' mod q_cap wq \<in> G" "seg_hi (seg \<sigma>) + 2 * q_cap wq < 2 ^ 56"
  shows "\<exists>A'. spec_step (q_cap wq) A A' \<and>
    refines wq G (\<sigma>\<lparr>seg := s', threads := (threads \<sigma>)(w \<mapsto> Waiting sz t)\<rparr>) A'"
proof -
  let ?c = "q_cap wq"
  have inv: "spec_inv ?c A" and off: "rel_offsets wq G (seg \<sigma>) A" and rd: "rel_readers wq \<sigma> A"
    and th: "rel_threads wq \<sigma> A" and hd: "rel_held wq \<sigma> A" and se: "rel_sent \<sigma> A"
    and mem: "rel_mem ?c G (ring (seg \<sigma>)) A"
    using R by (simp_all add: refines_def)
  have sane: "sane_queue wq" and room: "header_room ?c (s_hi A)" and hi: "seg_hi (seg \<sigma>) = s_hi A"
    using off by (simp_all add: rel_offsets_def)
  have sz: "unat sz + 18 \<le> ?c" "0 < unat sz"
    using step(3) claim_checks_nat [OF sane, of sz] by (auto simp: claim_checks_def unat_gt_0)
  then have sz18: "unat (sz + sizeof_MessageHeader) = unat sz + 18"
    using sane by (simp add: unat_add_u64 sane_queue_def)
  define n where "n = region_len ?c (s_hi A) (unat sz + 18)"
  have "n \<le> ?c" unfolding n_def by (rule region_len_le)
  then have fits: "seg_hi (seg \<sigma>) + region_len ?c (seg_hi (seg \<sigma>)) (unat (sz + sizeof_MessageHeader)) < 2 ^ 56"
    using step(6) by (simp add: sz18 hi flip: n_def)
  have "unat (sz + sizeof_MessageHeader) < 2 ^ 32"
    using sz(1) sane by (simp add: sz18 sane_queue_def)
  note res = reserve_write_offset_nat [OF sane this fits step(4)]
  have r: "seg_hi s' = s_hi A + n" "claimed_word t = unwrap (packed_of (seg \<sigma>))"
    "ticket_start t = s_hi A" "ticket_end t = s_hi A + n" "seg_readers s' = seg_readers (seg \<sigma>)"
    "seg_lo s' = seg_lo (seg \<sigma>)" "ring s' = ring (seg \<sigma>)"
    using res unfolding sz18 hi n_def by (simp_all only:)
  let ?A = "A\<lparr>s_hi := s_hi A + n,
      s_log := s_log A @ [\<lparr>e_start = s_hi A, e_len = n, e_state = Reserved_Entry\<rparr>],
      s_owner := (s_owner A)(w \<mapsto> s_hi A)\<rparr>"
  let ?\<sigma> = "\<sigma>\<lparr>seg := s', threads := (threads \<sigma>)(w \<mapsto> Waiting sz t)\<rparr>"
  have own: "s_owner A w = None"
    using th step(1) rel_thread_None by (metis rel_threads_def)
  have "s_pos A \<noteq> Map.empty"
    using step(2) readers_pos(2) [OF rd] by (metis dom_eq_empty_conv)
  moreover have "18 \<le> n" unfolding n_def by (rule region_len_ge [OF room]) simp
  moreover have "s_hi A mod ?c + n \<le> ?c"
    unfolding n_def using sane by (intro region_end_in_ring) (simp add: sane_queue_def)
  ultimately have sstep: "spec_step ?c A ?A" using own by (intro spec_step.reserve)
  have beh: "behind ?A x = behind A x" for x by (rule behind_cong) simp
  have all: "behind A (s_hi A) = dom (s_pos A)"
    using inv by (auto simp: behind_def spec_inv_def spec_readers_ok_def)
  have "rel_offsets wq G s' ?A"
    using off r step(5,6) hi \<open>n \<le> ?c\<close> header_room_region [OF room, of "unat sz + 18"] sane
    by (simp add: rel_offsets_def n_def sane_queue_def)
  moreover have "rel_readers wq ?\<sigma> ?A" using rd r by (simp add: rel_readers_def)
  moreover have "rel_threads wq ?\<sigma> ?A"
  proof -
    have "rel_thread wq ?A (threads \<sigma> w') (s_owner A w')" if "w' \<noteq> w" for w'
      by (rule rel_thread_cong [OF rel_threadsD [OF th]]) (simp_all add: beh)
    moreover have "unat (num_readers (claimed_word t)) = card (behind A (s_hi A))"
      using rd r(2) all readers_pos(2) [OF rd] by (simp add: rel_readers_def seg_readers_def)
    then have "rel_thread wq ?A (Some (Waiting sz t)) (Some (s_hi A))"
      using r sz by (simp add: beh e_end_def flip: n_def)
    ultimately show ?thesis by (simp add: rel_threads_def del: rel_thread.simps)
  qed
  moreover have "rel_held wq ?\<sigma> ?A" using hd by (fastforce simp: rel_held_def)
  moreover have "rel_sent ?\<sigma> ?A" using se by (simp add: rel_sent_def)
  moreover have "rel_mem ?c G (ring s') ?A"
  proof -
    have "live ?A e \<longleftrightarrow> live A e" for e by (auto simp: live_def)
    with mem show ?thesis by (simp add: rel_mem_def r beh)
  qed
  ultimately have "refines wq G ?\<sigma> ?A"
    using spec_inv_step [OF inv sstep] by (simp add: refines_def)
  with sstep show ?thesis by blast
qed

lemma entry_in_set_state:
  "(\<exists>f\<in>set (set_state x st L). e_start f = y \<and> e_state f = st') \<longleftrightarrow>
   (\<exists>f\<in>set L. e_start f = y \<and> (if y = x then st else e_state f) = st')"
proof -
  have "(e_start h = y \<and> e_state h = st') \<longleftrightarrow>
      (e_start f = y \<and> (if y = x then st else e_state f) = st')"
    if "h = (if e_start f = x then f\<lparr>e_state := st\<rparr> else f)" for f h
    unfolding that by (cases "e_start f = x"; cases "y = x") simp_all
  then show ?thesis unfolding set_state_def set_map by blast
qed

lemma set_state_mem: "e \<in> set L \<Longrightarrow> e\<lparr>e_state := st\<rparr> \<in> set (set_state (e_start e) st L)"
  by (auto simp: mem_set_state)

text \<open>Filling in the entry a writer owns: placing, padding and publishing are instances.\<close>

lemma sys_sent_id:
  "\<sigma>\<lparr>seg := s', threads := th, sent := sn, dropped := dropped \<sigma>\<rparr> = \<sigma>\<lparr>seg := s', threads := th, sent := sn\<rparr>"
  "\<sigma>\<lparr>seg := s', threads := th, dropped := dropped \<sigma>\<rparr> = \<sigma>\<lparr>seg := s', threads := th\<rparr>"
  "\<sigma>\<lparr>seg := s', threads := th, sent := sent \<sigma>\<rparr> = \<sigma>\<lparr>seg := s', threads := th\<rparr>"
  "\<sigma>\<lparr>seg := s', threads := th, sent := sent \<sigma>, dropped := dr\<rparr> = \<sigma>\<lparr>seg := s', threads := th, dropped := dr\<rparr>"
  by simp_all

lemma unsent:
  assumes R: "refines wq G \<sigma> A" and e: "e \<in> set (s_log A)" "\<not> final_state (e_state e)"
  shows "sent \<sigma> (e_start e) = None" "e_start e \<notin> dropped \<sigma>"
proof -
  have se: "rel_sent \<sigma> A" and "spec_inv (q_cap wq) A" using R by (simp_all add: refines_def)
  then have same: "f = e" if "f \<in> set (s_log A)" "e_start f = e_start e" for f
    using spec_entry_unique [OF _ that(1) e(1) that(2)] by blast
  have "sent \<sigma> (e_start e) \<noteq> Some bs" for bs
    using se same e(2) unfolding rel_sent_def by (metis final_state.simps(3))
  then show "sent \<sigma> (e_start e) = None" by (metis option.exhaust)
  show "e_start e \<notin> dropped \<sigma>"
    using se same e(2) unfolding rel_sent_def by (metis final_state.simps(2))
qed

lemma refines_fill:
  assumes R: "refines wq G \<sigma> A" and own: "s_owner A w = Some x"
    and e: "e \<in> set (s_log A)" "e_start e = x" "\<not> final_state (e_state e)"
      "e_end e \<le> s_lo A + q_cap wq"
    and st: "st \<noteq> Reserved_Entry"
    and s': "seg_hi s' = seg_hi (seg \<sigma>)" "seg_lo s' = seg_lo (seg \<sigma>)"
      "seg_readers s' = seg_readers (seg \<sigma>)"
    and outside: "\<And>i. i < q_cap wq \<Longrightarrow> \<not> in_region (q_cap wq) e i \<Longrightarrow> ring s' i = ring (seg \<sigma>) i"
    and beyond: "\<And>i. q_cap wq \<le> i \<Longrightarrow> ring (seg \<sigma>) i = 0 \<Longrightarrow> ring s' i = 0"
    and new: "live_ok (q_cap wq) (ring s') (card (behind A x)) (e\<lparr>e_state := st\<rparr>)"
    and A': "A' = A\<lparr>s_log := set_state x st (s_log A), s_owner := (s_owner A)(w := own')\<rparr>"
    and inv': "spec_inv (q_cap wq) A'" and thread: "rel_thread wq A' ph own'"
    and sent': "\<And>y bs. sent' y = Some bs \<longleftrightarrow>
      (if y = x then st = Published_Entry bs else sent \<sigma> y = Some bs)"
    and drop': "\<And>y. y \<in> drop' \<longleftrightarrow> (if y = x then st = Aborted_Entry else y \<in> dropped \<sigma>)"
  shows "refines wq G (\<sigma>\<lparr>seg := s', threads := (threads \<sigma>)(w := ph), sent := sent', dropped := drop'\<rparr>) A'"
proof -
  let ?c = "q_cap wq"
  let ?\<sigma> = "\<sigma>\<lparr>seg := s', threads := (threads \<sigma>)(w := ph), sent := sent', dropped := drop'\<rparr>"
  have inv: "spec_inv ?c A" and off: "rel_offsets wq G (seg \<sigma>) A" and rd: "rel_readers wq \<sigma> A"
    and th: "rel_threads wq \<sigma> A" and hd: "rel_held wq \<sigma> A" and se: "rel_sent \<sigma> A"
    and mem: "rel_mem ?c G (ring (seg \<sigma>)) A"
    using R by (simp_all add: refines_def)
  have beh: "behind A' y = behind A y" for y by (rule behind_cong) (simp add: A')
  have kept: "f \<in> set (s_log A')" if "f \<in> set (s_log A)" "e_start f \<noteq> x" for f
    using that by (auto simp: A' mem_set_state)
  have "rel_offsets wq G s' A'"
    using off s' by (auto simp: rel_offsets_def A' mem_set_state)
  moreover have "rel_readers wq ?\<sigma> A'" using rd s' by (simp add: rel_readers_def A')
  moreover have "rel_threads wq ?\<sigma> A'"
  proof -
    have "rel_thread wq A' (threads \<sigma> w') (s_owner A w')" if "w' \<noteq> w" for w'
    proof (rule rel_thread_cong [OF rel_threadsD [OF th]])
      fix y f assume y: "s_owner A w' = Some y" "f \<in> set (s_log A)" "e_start f = y"
      with own that inv have "y \<noteq> x" by (auto simp: spec_inv_def spec_owner_ok_def)
      with y kept show "f \<in> set (s_log A')" by blast
    qed (simp add: beh)
    with thread show ?thesis by (simp add: rel_threads_def A')
  qed
  moreover have "rel_held wq ?\<sigma> A'"
  proof -
    have "f \<in> set (s_log A')" if "f \<in> set (s_log A)" "e_state f = Published_Entry bs" for f bs
    proof (rule kept [OF that(1)])
      show "e_start f \<noteq> x"
      proof
        assume "e_start f = x"
        with e spec_entry_unique [OF inv that(1) e(1)] have "f = e" by simp
        with e(3) that(2) show False by simp
      qed
    qed
    with hd show ?thesis by (fastforce simp: rel_held_def A')
  qed
  moreover have "rel_sent ?\<sigma> A'"
  proof -
    have "f = e" if "f \<in> set (s_log A)" "e_start f = x" for f
      using spec_entry_unique [OF inv that(1) e(1)] that(2) e(2) by simp
    then have "(\<exists>f\<in>set (s_log A'). e_start f = y \<and> e_state f = st') \<longleftrightarrow>
        (if y = x then st = st' else \<exists>f\<in>set (s_log A). e_start f = y \<and> e_state f = st')" for y st'
      using e(1,2) by (auto simp: A' entry_in_set_state)
    then show ?thesis using se sent' drop' by (simp add: rel_sent_def)
  qed
  moreover have "rel_mem ?c G (ring s') A'"
    unfolding A' e(2) [symmetric]
    by (rule rel_mem_update [OF inv mem e(1,3,4) st outside])
      (use new e(2) beyond mem in \<open>simp_all add: rel_mem_def\<close>)
  ultimately show ?thesis using inv' by (simp add: refines_def)
qed

text \<open>What a writer that leaves the wait loop knows about its entry.\<close>

lemma waiting_entry:
  assumes R: "refines wq G \<sigma> A" and th: "threads \<sigma> w = Some (Waiting sz t)"
    and go: "\<not> must_wait wq (seg \<sigma>) t"
  obtains e where "s_owner A w = Some (e_start e)" "e \<in> set (s_log A)"
    "e_state e = Reserved_Entry" "e_start e = ticket_start t" "e_end e \<le> s_lo A + q_cap wq"
    "e_len e = region_len (q_cap wq) (e_start e) (unat sz + 18)"
    "0 < unat sz" "unat sz < 2 ^ 31" "header_room (q_cap wq) (e_start e)"
    "unat (ucast (num_readers (claimed_word t)) :: u8) = card (behind A (e_start e))"
    "ring (seg \<sigma>) (e_start e mod q_cap wq + 17) = 0" "ticket_end t = e_end e"
proof -
  let ?c = "q_cap wq"
  have inv: "spec_inv ?c A" and off: "rel_offsets wq G (seg \<sigma>) A" and rd: "rel_readers wq \<sigma> A"
    and mem: "rel_mem ?c G (ring (seg \<sigma>)) A" and rt: "rel_threads wq \<sigma> A"
    using R by (simp_all add: refines_def)
  obtain x where own: "s_owner A w = Some x" "rel_thread wq A (Some (Waiting sz t)) (Some x)"
    using rel_threads_owner [OF rt th] by blast
  then obtain e where e: "e \<in> set (s_log A)" "e_start e = x" "e_state e = Reserved_Entry"
    and x: "x = ticket_start t" and sz: "0 < unat sz" "unat sz + 18 \<le> ?c"
    and n: "unat (num_readers (claimed_word t)) = card (behind A x)"
    and len: "e_len e = region_len ?c x (unat sz + 18)" "ticket_end t = e_end e"
    by auto
  have sane: "sane_queue wq" and lo: "seg_lo (seg \<sigma>) = s_lo A" and G: "spaced G"
    and places: "\<forall>f\<in>set (s_log A). e_start f mod ?c \<in> G"
    using off by (simp_all add: rel_offsets_def)
  note facts = spec_log_facts [OF inv e(1)]
  have ahead: "s_lo A \<le> e_start e" using e by (intro nonfinal_ahead(1) [OF inv e(1)]) simp
  then have "seg_lo (seg \<sigma>) \<le> ticket_end t" by (simp add: lo len e_end_def)
  with go have win: "e_end e \<le> s_lo A + ?c"
    by (simp add: must_wait_nat lo len not_less le_diff_conv add.commute)
  have "card (behind A x) \<le> 255" by (rule behind_finite(2) [OF rd])
  with n have n8: "unat (ucast (num_readers (claimed_word t)) :: u8) = card (behind A x)"
    by (simp add: unsigned_ucast_eq take_bit_nat_def)
  have room: "header_room ?c (e_start e)" using facts by (simp add: header_room_def)
  have "ring (seg \<sigma>) (e_start e mod ?c + 17) = 0"
  proof (rule flag_free [OF inv mem G _ ahead _ _ _ places])
    show "boundary (s_log A) (s_hi A) (e_start e)" using e(1) by (auto simp: boundary_def)
    show "e_start e < s_lo A + ?c" using win facts by (simp add: e_end_def)
    show "e_start e mod ?c + 18 \<le> ?c" using room by (simp add: header_room_def)
    show "e_start e mod ?c \<in> G" using places e(1) by blast
    show "e_state f = Reserved_Entry" if "f \<in> set (s_log A)" "e_start f = e_start e" for f
      using spec_entry_unique [OF inv that(1) e(1) that(2)] e(3) by simp
  qed
  moreover have "unat sz < 2 ^ 31" using sz sane by (simp add: sane_queue_def)
  ultimately show ?thesis using that [of e] own e x sz len win n8 room by simp
qed

lemma refines_place:
  assumes R: "refines wq G \<sigma> A" and step: "threads \<sigma> w = Some (Waiting sz t)"
    "\<not> must_wait wq (seg \<sigma>) t" "place_claim wq (seg \<sigma>) sz t = Inr (s', Some b)"
  shows "\<exists>A'. spec_step (q_cap wq) A A' \<and>
    refines wq G (\<sigma>\<lparr>seg := s', threads := (threads \<sigma>)(w \<mapsto> Holding b)\<rparr>) A'"
proof -
  let ?c = "q_cap wq"
  have inv: "spec_inv ?c A" and sane: "sane_queue wq"
    using R by (simp_all add: refines_def rel_offsets_def)
  obtain e where own: "s_owner A w = Some (e_start e)" and e: "e \<in> set (s_log A)"
    "e_state e = Reserved_Entry" and t: "e_start e = ticket_start t"
    and win: "e_end e \<le> s_lo A + ?c" and len: "e_len e = region_len ?c (e_start e) (unat sz + 18)"
    and sz: "0 < unat sz" "unat sz < 2 ^ 31" and room: "header_room ?c (e_start e)"
    and n: "unat (ucast (num_readers (claimed_word t)) :: u8) = card (behind A (e_start e))"
    and flag: "ring (seg \<sigma>) (e_start e mod ?c + 17) = 0"
    using waiting_entry [OF R step(1,2)] by metis
  have fits: "claim_fits ?c (ticket_start t) (unat sz)"
    using place_claim_skips [OF sane sz(2), of t "seg \<sigma>"] room step(3) t by auto
  have s': "s' = set_count (count_of (seg \<sigma>) + 1) ((seg \<sigma>)\<lparr>ring :=
      header_ring (e_start e mod ?c) (write_offset (claimed_word t)) sz
        (num_readers (claimed_word t)) (ring (seg \<sigma>))\<rparr>)"
    and b: "b = \<lparr>wrapper_data = e_start e mod ?c, wrapper_size = sz + sizeof_MessageHeader\<rparr>"
    using place_claim_fits [OF sane sz(2) fits] step(3) t by simp_all
  have len': "e_len e = unat sz + 18" using len fits t by (simp add: region_len_fits)
  note in_ring = spec_log_facts(2) [OF inv e(1)]
  have st: "\<not> final_state (e_state e)" using e(2) by simp
  let ?A = "A\<lparr>s_log := set_state (e_start e) Claimed_Entry (s_log A)\<rparr>"
  have sstep: "spec_step ?c A ?A" by (rule spec_step.place [OF own e(1) refl e(2) win])
  have "unat (ucast sz :: u32) = unat sz"
    using sz(2) by (simp add: unsigned_ucast_eq take_bit_nat_def)
  moreover have "hdr_commit_flag (ring (seg \<sigma>)) (e_start e mod ?c) = 0"
    using flag by (simp add: hdr_commit_flag_def)
  ultimately have new: "live_ok ?c (ring s') (card (behind A (e_start e))) (e\<lparr>e_state := Claimed_Entry\<rparr>)"
    using len' n t
    by (simp add: s' live_ok_def header_ring_header ticket_start_def)
  have "unat (wrapper_size b) = e_len e" using sz(2) len' by (simp add: b unat_add_u64)
  then have thread: "rel_thread wq ?A (Some (Holding b)) (Some (e_start e))"
    using set_state_mem [OF e(1)]
    by (auto simp: b intro!: bexI [of _ "e\<lparr>e_state := Claimed_Entry\<rparr>"])
  have "(s_owner A)(w \<mapsto> e_start e) = s_owner A" using own by (simp add: fun_upd_idem_iff)
  then have A: "?A = A\<lparr>s_log := set_state (e_start e) Claimed_Entry (s_log A),
      s_owner := (s_owner A)(w \<mapsto> e_start e)\<rparr>" by simp
  have "refines wq G (\<sigma>\<lparr>seg := s', threads := (threads \<sigma>)(w \<mapsto> Holding b), sent := sent \<sigma>,
      dropped := dropped \<sigma>\<rparr>) ?A"
    using unsent [OF R e(1) st] in_ring
    by (intro refines_fill [OF R own e(1) refl st win _ _ _ _ _ _ new A spec_inv_step [OF inv sstep] thread])
      (auto simp: s' in_region_def len' intro!: header_ring_out header_ring_out [THEN trans])
  with sstep show ?thesis unfolding sys_sent_id by blast
qed

lemma refines_skip:
  assumes R: "refines wq G \<sigma> A" and step: "threads \<sigma> w = Some (Waiting sz t)"
    "\<not> must_wait wq (seg \<sigma>) t" "place_claim wq (seg \<sigma>) sz t = Inr (s', None)"
  shows "\<exists>A'. spec_step (q_cap wq) A A' \<and>
    refines wq G (\<sigma>\<lparr>seg := s', threads := (threads \<sigma>)(w := None)\<rparr>) A'"
proof -
  let ?c = "q_cap wq"
  have inv: "spec_inv ?c A" and sane: "sane_queue wq"
    using R by (simp_all add: refines_def rel_offsets_def)
  obtain e where own: "s_owner A w = Some (e_start e)" and e: "e \<in> set (s_log A)"
    "e_state e = Reserved_Entry" and t: "e_start e = ticket_start t"
    and win: "e_end e \<le> s_lo A + ?c" and len: "e_len e = region_len ?c (e_start e) (unat sz + 18)"
    and sz: "0 < unat sz" "unat sz < 2 ^ 31" and room: "header_room ?c (e_start e)"
    and n: "unat (ucast (num_readers (claimed_word t)) :: u8) = card (behind A (e_start e))"
    and flag: "ring (seg \<sigma>) (e_start e mod ?c + 17) = 0"
    using waiting_entry [OF R step(1,2)] by metis
  let ?off = "write_offset (claimed_word t)"
  define pad where "pad = available_queue_size_bytes wq
    - ?off mod available_queue_size_bytes wq - sizeof_MessageHeader"
  have nofit: "\<not> claim_fits ?c (ticket_start t) (unat sz)"
    using place_claim_fits [OF sane sz(2), of t "seg \<sigma>"] step(3) by auto
  have s': "s' = (seg \<sigma>)\<lparr>ring := skip_ring (e_start e mod ?c) ?off pad
        (num_readers (claimed_word t)) (ring (seg \<sigma>))\<rparr>"
    using place_claim_skips [OF sane sz(2) nofit, of "seg \<sigma>"] step(3) t room
    by (simp add: pad_def)
  have len': "e_len e = ?c - e_start e mod ?c" using len nofit t by (simp add: region_len_not_fits)
  have x: "unat ?off = e_start e" using t by (simp add: ticket_start_def)
  have pad: "unat pad = ?c - e_start e mod ?c - 18"
    using unat_padding_size [OF sane, of ?off] room by (simp add: pad_def x)
  have st: "\<not> final_state (e_state e)" using e(2) by simp
  let ?A = "A\<lparr>s_log := set_state (e_start e) Skipped_Entry (s_log A),
    s_owner := (s_owner A)(w := None)\<rparr>"
  have sstep: "spec_step ?c A ?A" by (rule spec_step.skip [OF own e(1) refl e(2) win])
  have "unat pad \<le> ?c" using pad by simp
  with sane have "unat pad < 2 ^ 32" by (simp add: sane_queue_def)
  then have "unat (ucast pad :: u32) = unat pad"
    by (simp add: unsigned_ucast_eq take_bit_nat_def)
  then have new: "live_ok ?c (ring s') (card (behind A (e_start e))) (e\<lparr>e_state := Skipped_Entry\<rparr>)"
    using len' n t x pad room
    by (simp add: s' live_ok_def skip_ring_header header_room_def)
  have le: "e_start e mod ?c \<le> ?c" using room by (simp add: header_room_def)
  have "refines wq G (\<sigma>\<lparr>seg := s', threads := (threads \<sigma>)(w := None), sent := sent \<sigma>,
      dropped := dropped \<sigma>\<rparr>) ?A"
    using le unsent [OF R e(1) st] room
    by (intro refines_fill [OF R own e(1) refl st win _ _ _ _ _ _ new refl spec_inv_step [OF inv sstep]])
      (auto simp: s' in_region_def len' skip_ring_out header_room_def)
  with sstep show ?thesis unfolding sys_sent_id by blast
qed

lemma refines_publish:
  assumes R: "refines wq G \<sigma> A" and step: "threads \<sigma> w = Some (Holding b)"
    "write_to_buffer (seg \<sigma>) b data = Inr s'"
  shows "\<exists>A'. spec_step (q_cap wq) A A' \<and>
    refines wq G (\<sigma>\<lparr>seg := s', threads := (threads \<sigma>)(w := None),
      sent := (sent \<sigma>)(claimed_at (seg \<sigma>) b \<mapsto> payload_after_write (seg \<sigma>) b data)\<rparr>) A'"
proof -
  let ?c = "q_cap wq"
  have inv: "spec_inv ?c A" and mem: "rel_mem ?c G (ring (seg \<sigma>)) A" and rt: "rel_threads wq \<sigma> A"
    using R by (simp_all add: refines_def)
  obtain x where x: "s_owner A w = Some x" "rel_thread wq A (Some (Holding b)) (Some x)"
    using rel_threads_owner [OF rt step(1)] by blast
  then obtain e where e: "e \<in> set (s_log A)" "e_state e = Claimed_Entry" "e_start e = x"
    and b: "wrapper_data b = e_start e mod ?c" "unat (wrapper_size b) = e_len e"
    by auto
  let ?a = "e_start e mod ?c"
  let ?m = "write_bytes (ring (seg \<sigma>)) (?a + 18) data"
  have len: "length data + 18 \<le> e_len e"
    and s': "s' = (seg \<sigma>)\<lparr>ring := set_commit_flag ?a READY_FOR_CONSUMER ?m\<rparr>"
    using step(2) b by (auto simp: write_to_buffer_def commit_buffer_def bindE_eq_Inr)
  define bs where "bs = read_bytes (ring s') (?a + 18) (e_len e - 18)"
  have st: "\<not> final_state (e_state e)" using e(2) by simp
  have win: "e_end e \<le> s_lo A + ?c" using spec_log_facts(4) [OF inv e(1)] e(2) by simp
  have "live A e" using e nonfinal_ahead(1) [OF inv e(1) st] by (simp add: live_def)
  then have old: "live_ok ?c (ring (seg \<sigma>)) (card (behind A (e_start e))) e"
    using mem by (simp add: rel_mem_def)
  let ?A = "A\<lparr>s_log := set_state (e_start e) (Published_Entry bs) (s_log A),
    s_owner := (s_owner A)(w := None)\<rparr>"
  have own: "s_owner A w = Some (e_start e)" using x e(3) by simp
  have "length bs + 18 = e_len e" using len by (simp add: bs_def)
  then have sstep: "spec_step ?c A ?A" by (rule spec_step.publish [OF own e(1) refl e(2)])
  have new: "live_ok ?c (ring s') (card (behind A (e_start e))) (e\<lparr>e_state := Published_Entry bs\<rparr>)"
    using old e(2) by (simp add: live_ok_def Let_def s' bs_def)
  have claimed: "claimed_at (seg \<sigma>) b = e_start e"
    using old b(1) by (simp add: claimed_at_def live_ok_def Let_def)
  have payload: "payload_after_write (seg \<sigma>) b data = bs"
    using len b by (simp add: payload_after_write_def bs_def s' set_commit_flag_def
        read_bytes_upd_other read_bytes_write_prefix)
  have "refines wq G (\<sigma>\<lparr>seg := s', threads := (threads \<sigma>)(w := None),
      sent := (sent \<sigma>)(claimed_at (seg \<sigma>) b \<mapsto> payload_after_write (seg \<sigma>) b data),
      dropped := dropped \<sigma>\<rparr>) ?A"
    unfolding claimed payload
    using len unsent(2) [OF R e(1) st] spec_log_facts(2) [OF inv e(1)] by (intro refines_fill [OF R own e(1) refl st win _ _ _ _ _ _ new refl spec_inv_step [OF inv sstep]])
      (auto simp: s' in_region_def set_commit_flag_def write_bytes_def)
  with sstep show ?thesis unfolding sys_sent_id by blast
qed

lemma refines_abort:
  assumes R: "refines wq G \<sigma> A" and step: "threads \<sigma> w = Some (Holding b)"
  shows "\<exists>A'. spec_step (q_cap wq) A A' \<and>
    refines wq G (\<sigma>\<lparr>seg := wrapper_abort (seg \<sigma>) b, threads := (threads \<sigma>)(w := None),
      dropped := insert (claimed_at (seg \<sigma>) b) (dropped \<sigma>)\<rparr>) A'"
proof -
  let ?c = "q_cap wq" and ?s' = "wrapper_abort (seg \<sigma>) b"
  have inv: "spec_inv ?c A" and mem: "rel_mem ?c G (ring (seg \<sigma>)) A" and rt: "rel_threads wq \<sigma> A"
    using R by (simp_all add: refines_def)
  obtain x where x: "s_owner A w = Some x" "rel_thread wq A (Some (Holding b)) (Some x)"
    using rel_threads_owner [OF rt step] by blast
  then obtain e where e: "e \<in> set (s_log A)" "e_state e = Claimed_Entry" "e_start e = x"
    and b: "wrapper_data b = e_start e mod ?c" "unat (wrapper_size b) = e_len e"
    by auto
  let ?a = "e_start e mod ?c"
  have st: "\<not> final_state (e_state e)" using e(2) by simp
  have win: "e_end e \<le> s_lo A + ?c" using spec_log_facts(4) [OF inv e(1)] e(2) by simp
  have "live A e" using e nonfinal_ahead(1) [OF inv e(1) st] by (simp add: live_def)
  then have old: "live_ok ?c (ring (seg \<sigma>)) (card (behind A (e_start e))) e"
    using mem by (simp add: rel_mem_def)
  then have len: "unat (hdr_message_size (ring (seg \<sigma>)) ?a) + 18 = e_len e"
    and claimed: "claimed_at (seg \<sigma>) b = e_start e"
    using b(1) by (simp_all add: live_ok_def Let_def claimed_at_def)
  let ?m = "mem_set (ring (seg \<sigma>)) (?a + 18) 0 (e_len e - 18)"
  have "unat (hdr_message_size (ring (seg \<sigma>)) ?a) = e_len e - 18" using len by simp
  then have s': "?s' = (seg \<sigma>)\<lparr>ring := set_commit_flag ?a ABORTED ?m\<rparr>"
    by (simp add: wrapper_abort_def abort_buffer_def b(1))
  let ?A = "A\<lparr>s_log := set_state (e_start e) Aborted_Entry (s_log A),
    s_owner := (s_owner A)(w := None)\<rparr>"
  have own: "s_owner A w = Some (e_start e)" using x e(3) by simp
  then have sstep: "spec_step ?c A ?A" by (rule spec_step.abandon [OF _ e(1) refl e(2)])
  have new: "live_ok ?c (ring ?s') (card (behind A (e_start e))) (e\<lparr>e_state := Aborted_Entry\<rparr>)"
    using old e(2) by (simp add: live_ok_def Let_def s')
  have "refines wq G (\<sigma>\<lparr>seg := ?s', threads := (threads \<sigma>)(w := None), sent := sent \<sigma>,
      dropped := insert (claimed_at (seg \<sigma>) b) (dropped \<sigma>)\<rparr>) ?A"
    unfolding claimed
    using len unsent [OF R e(1) st] spec_log_facts(2) [OF inv e(1)]
    by (intro refines_fill [OF R own e(1) refl st win _ _ _ _ _ _ new refl spec_inv_step [OF inv sstep]])
      (auto simp: s' in_region_def set_commit_flag_def mem_set_def)
  with sstep show ?thesis unfolding sys_sent_id by blast
qed

section \<open>Releasing\<close>

definition advanced :: "nat \<Rightarrow> Entry \<Rightarrow> Spec \<Rightarrow> Spec" where
  "advanced r e A = A\<lparr>s_pos := (s_pos A)(r \<mapsto> e_end e),
     s_received := (s_received A)(r := s_received A r @ payload_of (e_state e)),
     s_lo := (if last_at A r (e_start e) then e_end e else s_lo A)\<rparr>"

lemma advanced_simps [simp]:
  "s_pos (advanced r e A) = (s_pos A)(r \<mapsto> e_end e)"
  "s_log (advanced r e A) = s_log A" "s_hi (advanced r e A) = s_hi A"
  "s_owner (advanced r e A) = s_owner A" "s_joined (advanced r e A) = s_joined A"
  "s_received (advanced r e A) = (s_received A)(r := s_received A r @ payload_of (e_state e))"
  "s_lo (advanced r e A) = (if last_at A r (e_start e) then e_end e else s_lo A)"
  by (simp_all add: advanced_def)

lemma behind_advanced:
  assumes inv: "spec_inv c A" and e: "e \<in> set (s_log A)" and r: "s_pos A r = Some (e_start e)"
  shows "f \<in> set (s_log A) \<Longrightarrow> f \<noteq> e \<Longrightarrow>
      behind (advanced r e A) (e_start f) = behind A (e_start f)"
    and "behind (advanced r e A) (e_start e) = behind A (e_start e) - {r}"
proof -
  have len: "e_start e < e_end e"
    using spec_log_facts(1) [OF inv e] by (simp add: e_end_def)
  then show "behind (advanced r e A) (e_start e) = behind A (e_start e) - {r}"
    by (auto simp: behind_def)
  assume f: "f \<in> set (s_log A)" "f \<noteq> e"
  then have "e_end f \<le> e_start e \<or> e_end e \<le> e_start f"
    using chain_disjoint [OF spec_chain [OF inv] f(1) e] by blast
  moreover have "e_start f < e_end f"
    using spec_log_facts(1) [OF inv f(1)] by (simp add: e_end_def)
  ultimately show "behind (advanced r e A) (e_start f) = behind A (e_start f)"
    using len r by (auto simp: behind_def)
qed

lemma last_at_behind:
  assumes "s_pos A r = Some x" "finite (behind A x)"
  shows "last_at A r x \<longleftrightarrow> card (behind A x) = 1"
proof -
  have r: "r \<in> behind A x" using assms(1) by (simp add: behind_def)
  then have "card (behind A x) = 1 \<longleftrightarrow> behind A x = {r}"
    by (auto simp: card_1_singleton_iff)
  also have "\<dots> \<longleftrightarrow> (\<forall>r'\<in>behind A x. r' = r)" using r by blast
  also have "\<dots> \<longleftrightarrow> last_at A r x"
    by (auto simp: last_at_def behind_def not_le) (metis not_le)
  finally show ?thesis by blast
qed

text \<open>The other live entries keep their bytes and their readers when \<open>e\<close> is released.\<close>

lemma live_ok_advanced:
  assumes inv: "spec_inv c A" and mem: "rel_mem c G m A" and e: "live A e"
    and r: "s_pos A r = Some (e_start e)"
    and outside: "\<And>i. i < c \<Longrightarrow> \<not> in_region c e i \<Longrightarrow> m' i = m i"
    and f: "live A f" "f \<noteq> e"
  shows "live_ok c m' (card (behind (advanced r e A) (e_start f))) f"
proof -
  note we = live_window [OF inv e] and wf = live_window [OF inv f(1)]
  have "m' i = m i" if "in_region c f i" for i
  proof (rule outside)
    show "i < c" using that wf(5) by (simp add: in_region_def)
    show "\<not> in_region c e i"
      using regions_apart [OF inv we(1) wf(1) _ we(2,3) wf(2,3) _ that] f(2) by auto
  qed
  then have "live_ok c m' n f \<longleftrightarrow> live_ok c m n f" for n by (intro live_ok_cong wf(4))
  with mem f behind_advanced(1) [OF inv we(1) r wf(1) f(2)] show ?thesis
    by (simp add: rel_mem_def)
qed

lemma rel_mem_released:
  assumes inv: "spec_inv c A" and mem: "rel_mem c G m A" and e: "live A e"
    and r: "s_pos A r = Some (e_start e)" and fin: "finite (behind A (e_start e))"
    and other: "\<not> last_at A r (e_start e)"
  shows "rel_mem c G (released_ring (e_start e mod c) m) (advanced r e A)"
proof -
  let ?a = "e_start e mod c" and ?A = "advanced r e A"
  let ?m = "released_ring ?a m"
  have ok: "live_ok c m (card (behind A (e_start e))) e" using mem e by (simp add: rel_mem_def)
  note we = live_window [OF inv e]
  have live: "live ?A f \<longleftrightarrow> live A f" for f using other by (simp add: live_def)
  have outside: "?m i = m i" if "\<not> in_region c e i" for i
    using that we(4) by (auto simp: released_ring_bytes in_region_def)
  have rin: "r \<in> behind A (e_start e)" using r by (simp add: behind_def)
  then have "0 < card (behind A (e_start e))" using fin by (auto simp: card_gt_0_iff)
  then have "0 < unat (hdr_num_readers m ?a)" using ok by (simp add: live_ok_def Let_def)
  then have "unat (hdr_num_readers m ?a - 1) = card (behind A (e_start e)) - 1"
    using ok by (simp add: live_ok_def Let_def unat_minus_one unat_gt_0)
  also have "\<dots> = card (behind ?A (e_start e))"
    using behind_advanced(2) [OF inv we(1) r] rin fin by (simp add: card_Diff_singleton)
  finally have n: "unat (hdr_num_readers m ?a - 1) = card (behind ?A (e_start e))" .
  have "live_ok c ?m (card (behind ?A (e_start e))) e"
    using ok n by (simp add: live_ok_def Let_def released_ring_def)
      (simp add: set_num_readers_def read_bytes_upd_other)
  then have "live_ok c ?m (card (behind ?A (e_start f))) f" if "live A f" for f
    using live_ok_advanced [OF inv mem e r _ that] outside by (cases "f = e") auto
  moreover have "(\<exists>f. live A f \<and> in_region c f i) \<or> (\<exists>p. p \<in> G \<and> p \<le> i \<and> i < p + 8)"
    if "i < c" "?m i \<noteq> 0" for i
  proof (cases "in_region c e i")
    case True
    with e show ?thesis by blast
  next
    case False
    with that outside mem show ?thesis unfolding rel_mem_def by metis
  qed
  moreover have "?m i = 0" if "c \<le> i" for i
    using that mem we(5) outside by (simp add: rel_mem_def in_region_def)
  ultimately show ?thesis by (simp add: rel_mem_def live)
qed

lemma rel_mem_cleared:
  assumes inv: "spec_inv c A" and mem: "rel_mem c G m A" and e: "live A e"
    and r: "s_pos A r = Some (e_start e)" and fin: "finite (behind A (e_start e))"
    and last: "last_at A r (e_start e)" and lo: "s_lo A = e_start e"
    and places: "e_start e mod c \<in> G"
  shows "rel_mem c G (cleared_ring (e_start e mod c) m) (advanced r e A)"
proof -
  let ?a = "e_start e mod c" and ?A = "advanced r e A"
  let ?m = "cleared_ring ?a m"
  have "live_ok c m (card (behind A (e_start e))) e" using mem e by (simp add: rel_mem_def)
  moreover have "card (behind A (e_start e)) = 1" using last_at_behind [OF r fin] last by simp
  ultimately have hdr: "unat (hdr_num_readers m ?a) = 1" "unat (hdr_message_size m ?a) + 18 = e_len e"
    by (simp_all add: live_ok_def Let_def)
  then have one: "hdr_num_readers m ?a = 1" by (simp add: word_unat_eq_iff)
  note we = live_window [OF inv e]
  have outside: "?m i = m i" if "\<not> in_region c e i" for i
    using that we(4) hdr(2) by (auto simp: cleared_ring_bytes in_region_def)
  have inside: "i < ?a + 8" if "in_region c e i" "?m i \<noteq> 0" for i
    using that hdr(2) one by (auto simp: cleared_ring_bytes in_region_def split: if_splits)
  have live: "live ?A f \<longleftrightarrow> live A f \<and> f \<noteq> e" for f
  proof -
    have "e_start e < e_end e" using we(4) by (simp add: e_end_def)
    moreover have "e_end e \<le> e_start f" if "f \<in> set (s_log A)" "e_start e \<le> e_start f" "f \<noteq> e"
      using chain_disjoint [OF spec_chain [OF inv] that(1) we(1)] that
        spec_log_facts(1) [OF inv that(1)] by (auto simp: e_end_def)
    ultimately show ?thesis using last lo by (auto simp: live_def)
  qed
  have "live_ok c ?m (card (behind ?A (e_start f))) f" if "live A f" "f \<noteq> e" for f
    using live_ok_advanced [OF inv mem e r _ that] outside by blast
  moreover have "(\<exists>f. live ?A f \<and> in_region c f i) \<or> (\<exists>p. p \<in> G \<and> p \<le> i \<and> i < p + 8)"
    if i: "i < c" "?m i \<noteq> 0" for i
  proof (cases "in_region c e i")
    case True
    with inside [OF True i(2)] places show ?thesis by (auto simp: in_region_def)
  next
    case False
    with i outside have "m i \<noteq> 0" by simp
    then consider f where "live A f" "in_region c f i" | "\<exists>p. p \<in> G \<and> p \<le> i \<and> i < p + 8"
      using mem i(1) unfolding rel_mem_def by blast
    then show ?thesis
    proof cases
      case (1 f)
      with False have "f \<noteq> e" by blast
      with 1 live show ?thesis by blast
    qed simp
  qed
  moreover have "?m i = 0" if "c \<le> i" for i
    using that mem we(5) outside by (simp add: rel_mem_def in_region_def)
  ultimately show ?thesis by (simp add: rel_mem_def live)
qed

text \<open>A reader that stands at a filled entry, and what the relation says about it.\<close>

lemma reader_facts:
  assumes R: "refines wq G \<sigma> A" and q: "open_readers \<sigma> r = Some q"
  shows "s_pos A r = Some (reader_at q)" "\<not> is_writer q"
    "available_queue_size_bytes q = available_queue_size_bytes wq" "q_cap q = q_cap wq"
    "unat (abs_read_offset q mod available_queue_size_bytes q) = reader_at q mod q_cap wq"
    "boundary (s_log A) (s_hi A) (reader_at q)" "s_lo A \<le> reader_at q"
    "reader_at q \<le> s_hi A" "reader_at q \<le> s_lo A + q_cap wq"
proof -
  have inv: "spec_inv (q_cap wq) A" and rd: "rel_readers wq \<sigma> A"
    using R by (simp_all add: refines_def)
  show pos: "s_pos A r = Some (reader_at q)" using readers_pos(1) [OF rd, of r] q by simp
  show "\<not> is_writer q" and av: "available_queue_size_bytes q = available_queue_size_bytes wq"
    using rd q by (simp_all add: rel_readers_def)
  then show "q_cap q = q_cap wq" by (simp add: q_cap_def)
  show "unat (abs_read_offset q mod available_queue_size_bytes q) = reader_at q mod q_cap wq"
    by (simp add: unat_mod_u64 reader_at_def q_cap_def av)
  show "boundary (s_log A) (s_hi A) (reader_at q)" "s_lo A \<le> reader_at q"
    "reader_at q \<le> s_hi A" "reader_at q \<le> s_lo A + q_cap wq"
    using inv pos by (simp_all add: spec_inv_def spec_readers_ok_def)
qed

lemma live_at_reader:
  assumes R: "refines wq G \<sigma> A" and q: "open_readers \<sigma> r = Some q"
    and e: "e \<in> set (s_log A)" "e_start e = reader_at q" "e_state e \<noteq> Reserved_Entry"
  shows "live A e"
    "live_ok (q_cap wq) (ring (seg \<sigma>)) (card (behind A (e_start e))) e"
proof -
  show "live A e" using e reader_facts(7) [OF R q] by (simp add: live_def)
  then show "live_ok (q_cap wq) (ring (seg \<sigma>)) (card (behind A (e_start e))) e"
    using R by (simp add: refines_def rel_mem_def)
qed

lemma refines_release:
  assumes R: "refines wq G \<sigma> A" and q: "open_readers \<sigma> r = Some q"
    and e: "e \<in> set (s_log A)" "e_start e = reader_at q" "final_state (e_state e)"
  shows "\<exists>q' s'. release_buffer q (seg \<sigma>) (e_start e mod q_cap wq) = Inr (q', s') \<and>
    spec_step (q_cap wq) A (advanced r e A) \<and>
    refines wq G (\<sigma>\<lparr>seg := s', open_readers := (open_readers \<sigma>)(r \<mapsto> q'),
      held := (held \<sigma>)(r := None),
      received := (received \<sigma>)(r := received \<sigma> r @ payload_of (e_state e))\<rparr>) (advanced r e A)"
proof -
  let ?c = "q_cap wq" and ?a = "e_start e mod q_cap wq" and ?A = "advanced r e A"
  let ?m = "ring (seg \<sigma>)"
  have inv: "spec_inv ?c A" and off: "rel_offsets wq G (seg \<sigma>) A" and rd: "rel_readers wq \<sigma> A"
    and th: "rel_threads wq \<sigma> A" and hd: "rel_held wq \<sigma> A" and se: "rel_sent \<sigma> A"
    and mem: "rel_mem ?c G ?m A"
    using R by (simp_all add: refines_def)
  note qf = reader_facts [OF R q]
  have st: "e_state e \<noteq> Reserved_Entry" using e(3) by auto
  note live = live_at_reader [OF R q e(1,2) st]
  note we = live_window [OF inv live(1)]
  have pos: "s_pos A r = Some (e_start e)" using qf(1) e(2) by simp
  have fin: "finite (behind A (e_start e))" by (rule behind_finite(1) [OF rd])
  have hdr: "unat (msg_total ?m ?a) = e_len e"
    "unat (hdr_num_readers ?m ?a) = card (behind A (e_start e))"
    using live(2) by (simp_all add: live_ok_def Let_def)
  have total: "msg_total ?m ?a \<le> available_queue_size_bytes q"
    using hdr(1) we(5) qf(3) by (simp add: word_le_nat_alt q_cap_def)
  have end_le: "e_start e + e_len e \<le> s_hi A" "s_hi A + ?c < 2 ^ 56"
    using spec_log_facts(3) [OF inv e(1)] off by (simp_all add: e_end_def rel_offsets_def)
  define q' where "q' = after_release ?a q (seg \<sigma>)"
  define s' where "s' = (if last_at A r (e_start e) then after_last_release ?a (seg \<sigma>)
    else (seg \<sigma>)\<lparr>ring := released_ring ?a ?m\<rparr>)"
  have lo: "s_lo A = e_start e" if "last_at A r (e_start e)"
    using we(4) end_le by (intro last_at_lo [OF inv pos that]) simp
  have lo_read: "read_offset_of (seg \<sigma>) = abs_read_offset q" if "last_at A r (e_start e)"
    using off lo [OF that] e(2) by (intro word_u64_eqI) (simp add: rel_offsets_def seg_lo_def reader_at_def)
  have "r \<in> behind A (e_start e)" using pos by (simp add: behind_def)
  then have "0 < card (behind A (e_start e))" using fin by (auto simp: card_gt_0_iff)
  then have "hdr_num_readers ?m ?a > 1 \<longleftrightarrow> \<not> last_at A r (e_start e)"
    using last_at_behind [OF pos fin] hdr(2) by (auto simp: word_less_nat_alt)
  then have rel: "release_buffer q (seg \<sigma>) ?a = Inr (q', s')"
    using qf(5) total lo_read e(2) by (simp add: release_buffer_eq q'_def s'_def)
  have sstep: "spec_step ?c A ?A" unfolding advanced_def by (rule spec_step.advance [OF pos e(1) refl e(3)])
  have at': "reader_at q' = e_end e"
    using hdr(1) end_le e(2)
    by (simp add: q'_def after_release_def reader_at_def unat_add_u64 e_end_def)
  let ?\<sigma> = "\<sigma>\<lparr>seg := s', open_readers := (open_readers \<sigma>)(r \<mapsto> q'),
      held := (held \<sigma>)(r := None),
      received := (received \<sigma>)(r := received \<sigma> r @ payload_of (e_state e))\<rparr>"
  have "rel_offsets wq G s' ?A"
  proof (cases "last_at A r (e_start e)")
    case True
    have "unat (read_offset_of (seg \<sigma>) + msg_total ?m ?a) = e_end e"
      using lo_read [OF True] hdr(1) end_le e(2) by (simp add: reader_at_def unat_add_u64 e_end_def)
    with off True show ?thesis
      by (simp add: rel_offsets_def s'_def after_last_release_def)
  next
    case False
    with off show ?thesis by (simp add: rel_offsets_def s'_def)
  qed
  moreover have "rel_readers wq ?\<sigma> ?A"
  proof -
    have "seg_readers s' = seg_readers (seg \<sigma>)" by (simp add: s'_def after_last_release_def)
    moreover have "dom ((open_readers \<sigma>)(r \<mapsto> q')) = dom (open_readers \<sigma>)" using q by auto
    moreover have "\<not> is_writer q'" "available_queue_size_bytes q' = available_queue_size_bytes wq"
      using qf by (simp_all add: q'_def after_release_def)
    moreover have "s_pos ?A = map_option reader_at \<circ> (open_readers \<sigma>)(r \<mapsto> q')"
      using rd at' by (auto simp: rel_readers_def)
    ultimately show ?thesis using rd q by (simp add: rel_readers_def)
  qed
  moreover have "rel_threads wq ?\<sigma> ?A"
  proof -
    have "rel_thread wq ?A (threads \<sigma> w) (s_owner A w)" for w
    proof (rule rel_thread_cong [OF rel_threadsD [OF th]])
      fix y assume "s_owner A w = Some y"
      then obtain f where "f \<in> set (s_log A)" "e_start f = y" "\<not> final_state (e_state f)"
        using inv by (auto simp: spec_inv_def spec_owner_ok_def)
      then show "card (behind ?A y) = card (behind A y)"
        using behind_advanced(1) [OF inv e(1) pos, of f] e(3) by (cases "f = e") auto
    qed simp
    then show ?thesis by (simp add: rel_threads_def)
  qed
  moreover have "rel_held wq ?\<sigma> ?A"
    using hd by (simp add: rel_held_def)
  moreover have "rel_sent ?\<sigma> ?A" using se by (simp add: rel_sent_def)
  moreover have "rel_mem ?c G (ring s') ?A"
  proof (cases "last_at A r (e_start e)")
    case True
    have "e_start e mod ?c \<in> G" using off e(1) by (simp add: rel_offsets_def)
    with rel_mem_cleared [OF inv mem live(1) pos fin True lo [OF True]] True show ?thesis
      by (simp add: s'_def after_last_release_def)
  next
    case False
    with rel_mem_released [OF inv mem live(1) pos fin] show ?thesis by (simp add: s'_def)
  qed
  ultimately have "refines wq G ?\<sigma> ?A"
    using spec_inv_step [OF inv sstep] by (simp add: refines_def)
  with rel sstep show ?thesis by blast
qed

section \<open>Polling\<close>

text \<open>A poll finds a published message, a skip message, or nothing that is ready.\<close>

lemma boundary_place:
  assumes R: "refines wq G \<sigma> A" and y: "boundary (s_log A) (s_hi A) y"
  shows "y mod q_cap wq + 18 \<le> q_cap wq" "y mod q_cap wq \<in> G"
proof -
  have inv: "spec_inv (q_cap wq) A" and off: "rel_offsets wq G (seg \<sigma>) A"
    using R by (simp_all add: refines_def)
  show "y mod q_cap wq + 18 \<le> q_cap wq"
    using y off spec_log_facts(1,2) [OF inv]
    by (fastforce simp: boundary_def header_room_def rel_offsets_def)
  show "y mod q_cap wq \<in> G" using y off by (auto simp: boundary_def rel_offsets_def)
qed

lemma flag_at_boundary:
  assumes R: "refines wq G \<sigma> A"
    and y: "boundary (s_log A) (s_hi A) y" "s_lo A \<le> y" "y < s_lo A + q_cap wq"
  shows "hdr_commit_flag (ring (seg \<sigma>)) (y mod q_cap wq) = 0 \<or>
    (unat (hdr_abs_offset (ring (seg \<sigma>)) (y mod q_cap wq)) = y \<and>
     (\<exists>e\<in>set (s_log A). e_start e = y \<and> final_state (e_state e) \<and>
        hdr_commit_flag (ring (seg \<sigma>)) (y mod q_cap wq) = entry_flag (e_state e)))"
proof -
  let ?c = "q_cap wq" and ?m = "ring (seg \<sigma>)"
  have inv: "spec_inv ?c A" and off: "rel_offsets wq G (seg \<sigma>) A" and mem: "rel_mem ?c G ?m A"
    using R by (simp_all add: refines_def)
  have G: "spaced G" and places: "\<forall>f\<in>set (s_log A). e_start f mod ?c \<in> G"
    using off by (auto simp: rel_offsets_def)
  show ?thesis
  proof (cases "\<exists>e\<in>set (s_log A). e_start e = y \<and> e_state e \<noteq> Reserved_Entry")
    case True
    then obtain e where e: "e \<in> set (s_log A)" "e_start e = y" "e_state e \<noteq> Reserved_Entry" by blast
    then have "live A e" using y by (simp add: live_def)
    then have "live_ok ?c ?m (card (behind A y)) e" using mem e by (auto simp: rel_mem_def)
    with e show ?thesis by (cases "e_state e") (auto simp: live_ok_def Let_def)
  next
    case False
    have "?m (y mod ?c + 17) = 0"
      by (rule flag_free [OF inv mem G y boundary_place [OF R y(1)] places]) (use False in blast)
    then show ?thesis by (simp add: hdr_commit_flag_def)
  qed
qed

text \<open>
  A reader before an entry that is not filled in finds no flag, or the flag of the slowest reader's
  entry, one ring's size behind.
\<close>

lemma flag_at_reader:
  assumes R: "refines wq G \<sigma> A" and q: "open_readers \<sigma> r = Some q"
    and none: "\<forall>e\<in>set (s_log A). e_start e = reader_at q \<longrightarrow> \<not> final_state (e_state e)"
  shows "hdr_commit_flag (ring (seg \<sigma>)) (reader_at q mod q_cap wq) = 0 \<or>
    (reader_at q = s_lo A + q_cap wq \<and>
     hdr_abs_offset (ring (seg \<sigma>)) (reader_at q mod q_cap wq) \<noteq> abs_read_offset q \<and>
     (\<exists>e\<in>set (s_log A). e_start e = s_lo A \<and> final_state (e_state e) \<and>
        hdr_commit_flag (ring (seg \<sigma>)) (reader_at q mod q_cap wq) = entry_flag (e_state e)))"
proof -
  let ?c = "q_cap wq" and ?x = "reader_at q"
  note qf = reader_facts [OF R q]
  show ?thesis
  proof (cases "?x < s_lo A + ?c")
    case True
    with flag_at_boundary [OF R qf(6,7)] none show ?thesis by blast
  next
    case False
    have inv: "spec_inv ?c A" and c: "0 < ?c"
      using R by (simp_all add: refines_def rel_offsets_def sane_queue_def)
    have x: "?x = s_lo A + ?c" using qf(9) False by simp
    then have mod: "?x mod ?c = s_lo A mod ?c" by simp
    have "boundary (s_log A) (s_hi A) (s_lo A)"
      using inv by (simp add: spec_inv_def spec_readers_ok_def)
    with flag_at_boundary [OF R, of "s_lo A"] c x show ?thesis
      unfolding mod by (auto simp: reader_at_def)
  qed
qed

text \<open>
  The code takes the flag of an aborted message for the reader's own. A reader is safe when it is
  less than one ring's size ahead, or the slowest reader is not at an aborted message.
\<close>

definition poll_safe :: "IpcQueue \<Rightarrow> Sys \<Rightarrow> IpcQueue \<Rightarrow> bool" where
  "poll_safe wq \<sigma> q \<longleftrightarrow>
     reader_at q < seg_lo (seg \<sigma>) + q_cap wq \<or> seg_lo (seg \<sigma>) \<notin> dropped \<sigma>"

lemma poll_unready:
  assumes R: "refines wq G \<sigma> A" and q: "open_readers \<sigma> r = Some q"
    and none: "\<forall>e\<in>set (s_log A). e_start e = reader_at q \<longrightarrow> \<not> final_state (e_state e)"
  shows "poll_once q (seg \<sigma>) = Inr (Poll_Return q (seg \<sigma>) None) \<or>
    (\<not> poll_safe wq \<sigma> q \<and> (\<forall>q' s' got. poll_once q (seg \<sigma>) \<noteq> Inr (Poll_Return q' s' got)))"
proof -
  note qf = reader_facts [OF R q]
  let ?a = "reader_at q mod q_cap wq"
  consider "hdr_commit_flag (ring (seg \<sigma>)) ?a = 0"
    | (full) e where "reader_at q = s_lo A + q_cap wq"
      "hdr_abs_offset (ring (seg \<sigma>)) ?a \<noteq> abs_read_offset q" "e \<in> set (s_log A)" "e_start e = s_lo A"
      "final_state (e_state e)" "hdr_commit_flag (ring (seg \<sigma>)) ?a = entry_flag (e_state e)"
    using flag_at_reader [OF R q none] by blast
  then show ?thesis
  proof cases
    case 1
    with poll_once_not_ready [OF qf(2) qf(5) [symmetric]] show ?thesis by blast
  next
    case (full e)
    show ?thesis
    proof (cases "e_state e = Aborted_Entry")
      case False
      with full(5,6) have "hdr_commit_flag (ring (seg \<sigma>)) ?a = 1" by (cases "e_state e") simp_all
      with poll_once_stale [OF qf(2) qf(5) [symmetric]] full(2) show ?thesis by blast
    next
      case True
      with full(3,4) R have "s_lo A \<in> dropped \<sigma>" by (auto simp: refines_def rel_sent_def)
      with full(1) R have "\<not> poll_safe wq \<sigma> q"
        by (simp add: poll_safe_def refines_def rel_offsets_def)
      moreover have "hdr_commit_flag (ring (seg \<sigma>)) ?a = 2" using full(6) True by simp
      then have "poll_once q (seg \<sigma>) \<noteq> Inr (Poll_Return q' s' got)" for q' s' got
        using poll_once_aborted [OF qf(2) qf(5) [symmetric]] by (auto simp: bindE_eq_Inr)
      ultimately show ?thesis by blast
    qed
  qed
qed

lemma poll_nothing:
  assumes "refines wq G \<sigma> A" "open_readers \<sigma> r = Some q" "poll_safe wq \<sigma> q"
    and "\<forall>e\<in>set (s_log A). e_start e = reader_at q \<longrightarrow> \<not> final_state (e_state e)"
  shows "poll_once q (seg \<sigma>) = Inr (Poll_Return q (seg \<sigma>) None)"
  using poll_unready [OF assms(1,2,4)] assms(3) by blast

lemma poll_published:
  assumes R: "refines wq G \<sigma> A" and q: "open_readers \<sigma> r = Some q"
    and e: "e \<in> set (s_log A)" "e_start e = reader_at q" "e_state e = Published_Entry bs"
  obtains wr where
    "poll_once q (seg \<sigma>) = Inr (Poll_Return (q\<lparr>read_message_cnt := read_message_cnt q + 1\<rparr>)
       (seg \<sigma>) (Some wr))"
    "wrapper_data wr = reader_at q mod q_cap wq" "unat (wrapper_size wr) = e_len e"
    "\<not> released wr"
proof -
  note qf = reader_facts [OF R q]
  let ?a = "reader_at q mod q_cap wq"
  have inv: "spec_inv (q_cap wq) A" using R by (simp add: refines_def)
  have "live_ok (q_cap wq) (ring (seg \<sigma>)) (card (behind A (e_start e))) e"
    using live_at_reader(2) [OF R q e(1,2)] e(3) by simp
  then have h: "hdr_commit_flag (ring (seg \<sigma>)) ?a = 1"
    "hdr_type (ring (seg \<sigma>)) ?a = message_type_value NORMAL"
    "unat (hdr_abs_offset (ring (seg \<sigma>)) ?a) = reader_at q"
    "unat (hdr_message_size (ring (seg \<sigma>)) ?a) + 18 = e_len e"
    using e by (simp_all add: live_ok_def Let_def)
  have "hdr_abs_offset (ring (seg \<sigma>)) ?a = abs_read_offset q"
    using h(3) by (intro word_u64_eqI) (simp add: reader_at_def)
  moreover have "unat (hdr_message_size (ring (seg \<sigma>)) ?a) + 18 \<le> q_cap q"
    using h(4) spec_log_facts(2) [OF inv e(1)] qf(4) by simp
  ultimately show ?thesis
    using poll_once_message [OF qf(2) qf(5) [symmetric] h(1) _ h(2)] h(4)
    by (intro that [of "mk_reader_wrapper ?a (msg_total (ring (seg \<sigma>)) ?a)"])
      (simp_all add: mk_reader_wrapper_def)
qed

text \<open>A skip message and an aborted message are released by the poll.\<close>

lemma poll_skipped:
  assumes R: "refines wq G \<sigma> A" and q: "open_readers \<sigma> r = Some q"
    and e: "e \<in> set (s_log A)" "e_start e = reader_at q" "final_state (e_state e)"
      "payload_of (e_state e) = []"
  shows "poll_once q (seg \<sigma>) = bindE (release_buffer q (seg \<sigma>) (e_start e mod q_cap wq))
    (\<lambda>(q', s'). Inr (Poll_Again q' s'))"
proof -
  note qf = reader_facts [OF R q]
  let ?a = "reader_at q mod q_cap wq"
  have inv: "spec_inv (q_cap wq) A" using R by (simp add: refines_def)
  have st: "e_state e = Skipped_Entry \<or> e_state e = Aborted_Entry"
    using e(3,4) by (cases "e_state e") simp_all
  then have "live_ok (q_cap wq) (ring (seg \<sigma>)) (card (behind A (e_start e))) e"
    by (intro live_at_reader(2) [OF R q e(1,2)]) auto
  then have h: "hdr_commit_flag (ring (seg \<sigma>)) ?a = entry_flag (e_state e)"
    "e_state e = Skipped_Entry \<Longrightarrow> hdr_type (ring (seg \<sigma>)) ?a = message_type_value PADDING"
    "unat (hdr_abs_offset (ring (seg \<sigma>)) ?a) = reader_at q"
    "unat (hdr_message_size (ring (seg \<sigma>)) ?a) + 18 = e_len e"
    using e by (simp_all add: live_ok_def Let_def)
  have abs: "hdr_abs_offset (ring (seg \<sigma>)) ?a = abs_read_offset q"
    using h(3) by (intro word_u64_eqI) (simp add: reader_at_def)
  have fits: "unat (hdr_message_size (ring (seg \<sigma>)) ?a) + 18 \<le> q_cap q"
    using h(4) spec_log_facts(2) [OF inv e(1)] qf(4) by simp
  show ?thesis
  proof (cases "e_state e = Skipped_Entry")
    case True
    with poll_once_padding [OF qf(2) qf(5) [symmetric] _ abs h(2)] h(1) fits e(2) show ?thesis by simp
  next
    case False
    with st h(1) have "hdr_commit_flag (ring (seg \<sigma>)) ?a = 2" by simp
    with poll_once_aborted [OF qf(2) qf(5) [symmetric]] e(2) show ?thesis by simp
  qed
qed

text \<open>Every state of the relation is in exactly one of the three cases.\<close>

lemma reader_entry_cases:
  assumes "spec_inv c A"
  obtains (published) e bs where "e \<in> set (s_log A)" "e_start e = x" "e_state e = Published_Entry bs"
  | (skipped) e where "e \<in> set (s_log A)" "e_start e = x" "final_state (e_state e)"
      "payload_of (e_state e) = []"
  | (unready) "\<forall>e\<in>set (s_log A). e_start e = x \<longrightarrow> \<not> final_state (e_state e)"
proof (cases "\<exists>e\<in>set (s_log A). e_start e = x \<and> final_state (e_state e)")
  case True
  then obtain e where "e \<in> set (s_log A)" "e_start e = x" "final_state (e_state e)" by blast
  then show ?thesis using published skipped by (cases "e_state e") auto
next
  case False
  show ?thesis by (rule unready) (use False in blast)
qed

lemma poll_skipped_again:
  assumes R: "refines wq G \<sigma> A" and q: "open_readers \<sigma> r = Some q"
    and e: "e \<in> set (s_log A)" "e_start e = reader_at q" "final_state (e_state e)"
      "payload_of (e_state e) = []"
  shows "\<exists>q' s'. poll_once q (seg \<sigma>) = Inr (Poll_Again q' s')"
  using poll_skipped [OF R q e] refines_release [OF R q e(1-3)] by force

lemma poll_view:
  assumes R: "refines wq G \<sigma> A" and q: "open_readers \<sigma> r = Some q"
    and e: "e \<in> set (s_log A)" "e_start e = reader_at q" "e_state e = Published_Entry bs"
  shows "\<exists>wr. poll_once q (seg \<sigma>) = Inr (Poll_Return (q\<lparr>read_message_cnt := read_message_cnt q + 1\<rparr>)
       (seg \<sigma>) (Some wr)) \<and> get_as_view (seg \<sigma>) wr = bs"
proof -
  obtain wr where poll: "poll_once q (seg \<sigma>) =
      Inr (Poll_Return (q\<lparr>read_message_cnt := read_message_cnt q + 1\<rparr>) (seg \<sigma>) (Some wr))"
    and wr: "wrapper_data wr = reader_at q mod q_cap wq" "unat (wrapper_size wr) = e_len e"
    using poll_published [OF R q e] by metis
  have inv: "spec_inv (q_cap wq) A" using R by (simp add: refines_def)
  have "unat (wrapper_size wr - sizeof_MessageHeader) = e_len e - 18"
    using wr(2) spec_log_facts(1) [OF inv e(1)] by (subst unat_sub_u64) simp_all
  moreover have "live_ok (q_cap wq) (ring (seg \<sigma>)) (card (behind A (e_start e))) e"
    using live_at_reader(2) [OF R q e(1,2)] e(3) by simp
  ultimately have "get_as_view (seg \<sigma>) wr = bs"
    using e wr(1) by (simp add: get_as_view_def live_ok_def Let_def)
  with poll show ?thesis by blast
qed

lemma poll_total:
  assumes R: "refines wq G \<sigma> A" and q: "open_readers \<sigma> r = Some q" "poll_safe wq \<sigma> q"
  shows "\<exists>p. poll_once q (seg \<sigma>) = Inr p"
proof -
  have "spec_inv (q_cap wq) A" using R by (simp add: refines_def)
  then show ?thesis
  proof (cases rule: reader_entry_cases [where x = "reader_at q"])
    case (published e bs)
    with poll_view [OF R q(1) published] show ?thesis by blast
  next
    case (skipped e)
    with poll_skipped_again [OF R q(1) skipped] show ?thesis by blast
  next
    case unready
    with poll_nothing [OF R q unready] show ?thesis by blast
  qed
qed

section \<open>Joining\<close>

lemma refines_join:
  assumes R: "refines wq G \<sigma> A" and step: "open_readers \<sigma> r = None" "held \<sigma> r = None"
    "card (dom (open_readers \<sigma>)) < 255" "seg_hi (seg \<sigma>) \<le> seg_lo (seg \<sigma>) + q_cap wq"
    "modify_readers True (seg \<sigma>) = (s', wr)"
  shows "\<exists>A'. spec_step (q_cap wq) A A' \<and>
    refines wq G (\<sigma>\<lparr>seg := s', open_readers := (open_readers \<sigma>)(r \<mapsto> joined_reader wq q0 wr),
      received := (received \<sigma>)(r := []), joined := (joined \<sigma>)(r := seg_hi (seg \<sigma>))\<rparr>) A'"
proof -
  let ?c = "q_cap wq"
  have inv: "spec_inv ?c A" and off: "rel_offsets wq G (seg \<sigma>) A" and rd: "rel_readers wq \<sigma> A"
    and th: "rel_threads wq \<sigma> A" and hd: "rel_held wq \<sigma> A" and se: "rel_sent \<sigma> A"
    and mem: "rel_mem ?c G (ring (seg \<sigma>)) A"
    using R by (simp_all add: refines_def)
  let ?A = "A\<lparr>s_pos := (s_pos A)(r \<mapsto> s_hi A), s_joined := (s_joined A)(r := s_hi A),
    s_received := (s_received A)(r := [])\<rparr>"
  let ?\<sigma> = "\<sigma>\<lparr>seg := s', open_readers := (open_readers \<sigma>)(r \<mapsto> joined_reader wq q0 wr),
      received := (received \<sigma>)(r := []), joined := (joined \<sigma>)(r := seg_hi (seg \<sigma>))\<rparr>"
  have s': "s' = set_packed (fst (return_add_reader (unwrap (packed_of (seg \<sigma>))))) (seg \<sigma>)"
    and wr: "wr = snd (return_add_reader (unwrap (packed_of (seg \<sigma>))))"
    using step(5) by (simp_all add: modify_readers_def split: prod.splits)
  have hi: "seg_hi s' = seg_hi (seg \<sigma>)" "seg_lo s' = seg_lo (seg \<sigma>)" "ring s' = ring (seg \<sigma>)"
    by (simp_all add: s' seg_hi_def packed_frames)
  have "seg_readers (seg \<sigma>) < 255" using rd step(3) by (simp add: rel_readers_def)
  then have n: "seg_readers s' = seg_readers (seg \<sigma>) + 1"
    by (simp add: s' seg_readers_def packed_readers_add)
  have at: "reader_at (joined_reader wq q0 wr) = s_hi A"
    using off by (simp add: reader_at_def joined_reader_def wr return_add_reader_def rel_offsets_def
        seg_hi_def)
  have none: "s_pos A r = None" using readers_pos(1) [OF rd, of r] step(1) by simp
  have sstep: "spec_step ?c A ?A"
    using step(4) off by (intro spec_step.join none) (simp add: rel_offsets_def)
  have beh: "behind ?A (e_start e) = behind A (e_start e)" if "e \<in> set (s_log A)" for e
    using spec_log_facts(1,3) [OF inv that] none by (auto simp: behind_def e_end_def)
  have "rel_offsets wq G s' ?A" using off hi by (simp add: rel_offsets_def)
  moreover have "rel_readers wq ?\<sigma> ?A"
  proof -
    have "s_pos ?A = map_option reader_at \<circ> (open_readers \<sigma>)(r \<mapsto> joined_reader wq q0 wr)"
      using rd at by (auto simp: rel_readers_def)
    moreover have "card (dom ((open_readers \<sigma>)(r \<mapsto> joined_reader wq q0 wr)))
        = card (dom (open_readers \<sigma>)) + 1"
      using rd step(1) by (simp add: rel_readers_def domIff)
    moreover have "seg_hi (seg \<sigma>) = s_hi A" using off by (simp add: rel_offsets_def)
    ultimately show ?thesis using rd n step(3)
      by (simp add: rel_readers_def joined_reader_def)
  qed
  moreover have "rel_threads wq ?\<sigma> ?A"
  proof -
    have "rel_thread wq ?A (threads \<sigma> w) (s_owner A w)" for w
    proof (rule rel_thread_cong [OF rel_threadsD [OF th]])
      fix y assume "s_owner A w = Some y"
      then obtain f where "f \<in> set (s_log A)" "e_start f = y"
        using inv by (auto simp: spec_inv_def spec_owner_ok_def)
      with beh show "card (behind ?A y) = card (behind A y)" by metis
    qed simp
    then show ?thesis by (simp add: rel_threads_def)
  qed
  moreover have "rel_held wq ?\<sigma> ?A"
    using hd step(2) by (simp add: rel_held_def)
  moreover have "rel_sent ?\<sigma> ?A" using se by (simp add: rel_sent_def)
  moreover have "rel_mem ?c G (ring s') ?A"
  proof -
    have "live ?A e \<longleftrightarrow> live A e" for e by (simp add: live_def)
    moreover have "behind ?A (e_start e) = behind A (e_start e)" if "live A e" for e
      using that by (intro beh) (simp add: live_def)
    ultimately show ?thesis using mem by (simp add: rel_mem_def hi)
  qed
  ultimately have "refines wq G ?\<sigma> ?A"
    using spec_inv_step [OF inv sstep] by (simp add: refines_def)
  with sstep show ?thesis by blast
qed

section \<open>Leaving\<close>

text \<open>
  The drain of a leaving reader works on a segment whose packed word already counts one reader
  less; releasing does not look at that word.
\<close>

lemma release_buffer_packed:
  "release_buffer q (set_packed v s) a = map_sum id (map_prod id (set_packed v)) (release_buffer q s a)"
  by (simp add: release_buffer_eq after_release_def after_last_release_def set_packed_def
      set_last_cleared_def set_read_offset_def read_offset_of_def)

lemma decrement_readers_packed:
  "decrement_readers_until n q (set_packed v s) x =
     map_option (map_sum id (map_prod id (set_packed v))) (decrement_readers_until n q s x)"
proof (induction n arbitrary: q s)
  case 0
  show ?case by simp
next
  case (Suc n)
  show ?case
    by (cases "release_buffer q s (unat (abs_read_offset q mod available_queue_size_bytes q))")
      (auto simp: Let_def release_buffer_packed Suc)
qed

text \<open>
  When every entry is filled in and the ring is not full, the drain releases all entries up to the
  write offset, where it finds a flag that is not set.
\<close>

lemma drain_run:
  assumes "refines wq G \<sigma> A" "open_readers \<sigma> r = Some q" "held \<sigma> r = None" "unat x = s_hi A"
    and "\<forall>e\<in>set (s_log A). final_state (e_state e) \<and> (reader_at q \<le> e_start e \<longrightarrow> e_state e \<noteq> Aborted_Entry)"
    and "s_hi A < s_lo A + q_cap wq"
  shows "(s_hi A - reader_at q < 18 * n \<longrightarrow> decrement_readers_until n q (seg \<sigma>) x \<noteq> None) \<and>
    (\<forall>res. decrement_readers_until n q (seg \<sigma>) x = Some res \<longrightarrow>
      (\<exists>q' s' A' rv. res = Inr (q', s') \<and> (spec_step (q_cap wq))\<^sup>*\<^sup>* A A' \<and>
         s_hi A' = s_hi A \<and> s_pos A' r = Some (s_hi A) \<and>
         refines wq G (\<sigma>\<lparr>seg := s', open_readers := (open_readers \<sigma>)(r \<mapsto> q'),
           received := (received \<sigma>)(r := rv)\<rparr>) A'))"
  using assms
proof (induction n arbitrary: \<sigma> A q)
  case 0
  then show ?case by simp
next
  case (Suc n)
  note R = Suc.prems(1) and q = Suc.prems(2)
  note qf = reader_facts [OF R q]
  let ?a = "reader_at q mod q_cap wq"
  have inv: "spec_inv (q_cap wq) A" using R by (simp add: refines_def)
  have le: "abs_read_offset q \<le> x"
    using qf(8) Suc.prems(4) by (simp add: word_le_nat_alt reader_at_def)
  have win: "reader_at q < s_lo A + q_cap wq" using qf(8) Suc.prems(6) by simp
  note flag = flag_at_boundary [OF R qf(6,7) win]
  show ?case
  proof (cases "reader_at q = s_hi A")
    case True
    have "e_start e < s_hi A" if "e \<in> set (s_log A)" for e
      using spec_log_facts(1,3) [OF inv that] by (simp add: e_end_def)
    then have "e_start e \<noteq> s_hi A" if "e \<in> set (s_log A)" for e using that by fastforce
    with flag True have "hdr_commit_flag (ring (seg \<sigma>)) ?a = 0" by auto
    then have stop: "decrement_readers_until (Suc n) q (seg \<sigma>) x = Some (Inr (q, seg \<sigma>))"
      using le qf(5) by (simp add: Let_def)
    have "\<sigma>\<lparr>seg := seg \<sigma>, open_readers := (open_readers \<sigma>)(r \<mapsto> q),
        received := (received \<sigma>)(r := received \<sigma> r)\<rparr> = \<sigma>"
      using q by (simp add: fun_upd_idem)
    with R qf(1) True stop show ?thesis by (metis option.distinct(1) option.inject rtranclp.rtrancl_refl)
  next
    case False
    then obtain e where e: "e \<in> set (s_log A)" "e_start e = reader_at q"
      using qf(6) by (auto simp: boundary_def)
    then have fin: "final_state (e_state e)" and nab: "e_state e \<noteq> Aborted_Entry"
      using Suc.prems(5) by auto
    then have "e_state e \<noteq> Reserved_Entry" by auto
    from live_at_reader(2) [OF R q e this] e(2) fin nab
    have flag1: "hdr_commit_flag (ring (seg \<sigma>)) ?a = 1"
      by (cases "e_state e") (simp_all add: live_ok_def Let_def)
    obtain q1 s1 where rel: "release_buffer q (seg \<sigma>) ?a = Inr (q1, s1)"
      and sstep: "spec_step (q_cap wq) A (advanced r e A)"
      and R1: "refines wq G (\<sigma>\<lparr>seg := s1, open_readers := (open_readers \<sigma>)(r \<mapsto> q1),
        held := (held \<sigma>)(r := None),
        received := (received \<sigma>)(r := received \<sigma> r @ payload_of (e_state e))\<rparr>) (advanced r e A)"
      using refines_release [OF R q e fin] e(2) by metis
    let ?\<sigma> = "\<sigma>\<lparr>seg := s1, open_readers := (open_readers \<sigma>)(r \<mapsto> q1),
        received := (received \<sigma>)(r := received \<sigma> r @ payload_of (e_state e))\<rparr>"
    have "(held \<sigma>)(r := None) = held \<sigma>" using Suc.prems(3) by auto
    with R1 have R1': "refines wq G ?\<sigma> (advanced r e A)" by simp
    have next': "decrement_readers_until (Suc n) q (seg \<sigma>) x = decrement_readers_until n q1 s1 x"
      using le qf(5) flag1 rel by (simp add: Let_def)
    have at': "reader_at q1 = e_end e" using reader_facts(1) [OF R1', of r q1] by simp
    have "s_lo A \<le> s_lo (advanced r e A)"
      using qf(7) e(2) by (simp add: e_end_def)
    then have win': "s_hi (advanced r e A) < s_lo (advanced r e A) + q_cap wq"
      using Suc.prems(6) by simp
    have less: "s_hi A - reader_at q1 < 18 * n" if "s_hi A - reader_at q < 18 * Suc n"
      using that at' e(2) spec_log_facts(1,3) [OF inv e(1)] by (simp add: e_end_def)
    have later: "\<forall>e\<in>set (s_log A). final_state (e_state e) \<and>
        (reader_at q1 \<le> e_start e \<longrightarrow> e_state e \<noteq> Aborted_Entry)"
      using Suc.prems(5) at' e(2) by (auto simp: e_end_def)
    have IH: "(s_hi A - reader_at q1 < 18 * n \<longrightarrow> decrement_readers_until n q1 s1 x \<noteq> None) \<and>
      (\<forall>res. decrement_readers_until n q1 s1 x = Some res \<longrightarrow>
        (\<exists>q' s' A' rv. res = Inr (q', s') \<and> (spec_step (q_cap wq))\<^sup>*\<^sup>* (advanced r e A) A' \<and>
           s_hi A' = s_hi A \<and> s_pos A' r = Some (s_hi A) \<and>
           refines wq G (\<sigma>\<lparr>seg := s', open_readers := (open_readers \<sigma>)(r \<mapsto> q'),
             received := (received \<sigma>)(r := rv)\<rparr>) A'))"
      using Suc.IH [OF R1' _ _ _ _ win', of q1] Suc.prems(3-4) later
      by (simp del: fun_upd_apply) (simp only: fun_upd_same simp_thms True_implies_equals)
    show ?thesis
      unfolding next' using IH less sstep by (meson converse_rtranclp_into_rtranclp)
  qed
qed

lemma no_writer_all_final:
  assumes R: "refines wq G \<sigma> A" and none: "threads \<sigma> = Map.empty"
  shows "s_owner A = Map.empty" "\<forall>e\<in>set (s_log A). final_state (e_state e)"
proof -
  have inv: "spec_inv (q_cap wq) A" and th: "rel_threads wq \<sigma> A" using R by (simp_all add: refines_def)
  show own: "s_owner A = Map.empty"
  proof
    fix w show "s_owner A w = None"
      using rel_threadsD [OF th, of w] none by (simp add: rel_thread_None)
  qed
  with inv show "\<forall>e\<in>set (s_log A). final_state (e_state e)"
    by (auto simp: spec_inv_def spec_owner_ok_def)
qed

text \<open>Taking a reader that has read everything off the list.\<close>

lemma refines_gone:
  assumes R: "refines wq G \<sigma> A" and q: "open_readers \<sigma> r = Some q" "held \<sigma> r = None"
    and th: "threads \<sigma> = Map.empty" and at_hi: "s_pos A r = Some (s_hi A)"
    and v: "unat (write_offset (unwrap v)) = s_hi A"
      "unat (num_readers (unwrap v)) + 1 = card (dom (open_readers \<sigma>))"
  shows "refines wq G (\<sigma>\<lparr>seg := set_packed v (seg \<sigma>), open_readers := (open_readers \<sigma>)(r := None),
    received := (received \<sigma>)(r := rv)\<rparr>) (A\<lparr>s_pos := (s_pos A)(r := None)\<rparr>)"
    (is "refines wq G ?\<sigma> ?A")
proof -
  let ?c = "q_cap wq"
  have inv: "spec_inv ?c A" and off: "rel_offsets wq G (seg \<sigma>) A" and rd: "rel_readers wq \<sigma> A"
    and hd: "rel_held wq \<sigma> A" and se: "rel_sent \<sigma> A" and mem: "rel_mem ?c G (ring (seg \<sigma>)) A"
    using R by (simp_all add: refines_def)
  have beh: "behind ?A (e_start e) = behind A (e_start e)" if "e \<in> set (s_log A)" for e
    using spec_log_facts(1,3) [OF inv that] at_hi by (auto simp: behind_def e_end_def)
  have "spec_inv ?c ?A" by (rule spec_inv_leave [OF inv at_hi])
  moreover have "rel_offsets wq G (seg ?\<sigma>) ?A"
    using off v(1) by (simp add: rel_offsets_def seg_hi_def)
  moreover have "rel_readers wq ?\<sigma> ?A"
  proof -
    have "s_pos ?A = map_option reader_at \<circ> (open_readers \<sigma>)(r := None)"
      using rd by (auto simp: rel_readers_def)
    moreover have "card (dom ((open_readers \<sigma>)(r := None))) + 1 = card (dom (open_readers \<sigma>))"
      using rd card_Suc_Diff1 [of "dom (open_readers \<sigma>)", OF _ domI [of "open_readers \<sigma>", OF q(1)]] by (simp add: rel_readers_def)
    ultimately show ?thesis using rd v(2) by (simp add: rel_readers_def seg_readers_def)
  qed
  moreover have "rel_threads wq ?\<sigma> ?A"
    using no_writer_all_final(1) [OF R th] th by (simp add: rel_threads_def)
  moreover have "rel_held wq ?\<sigma> ?A" using hd q(2) by (auto simp: rel_held_def)
  moreover have "rel_sent ?\<sigma> ?A" using se by (simp add: rel_sent_def)
  moreover have "rel_mem ?c G (ring (seg ?\<sigma>)) ?A"
  proof -
    have "live ?A e \<longleftrightarrow> live A e" for e by (simp add: live_def)
    moreover have "behind ?A (e_start e) = behind A (e_start e)" if "live A e" for e
      using that by (intro beh) (simp add: live_def)
    ultimately show ?thesis using mem by (simp add: rel_mem_def)
  qed
  ultimately show ?thesis by (simp add: refines_def)
qed

lemma refines_leave:
  assumes R: "refines wq G \<sigma> A" and step: "open_readers \<sigma> r = Some q" "held \<sigma> r = None"
    "threads \<sigma> = Map.empty" "seg_hi (seg \<sigma>) < seg_lo (seg \<sigma>) + q_cap wq"
    "\<forall>x\<in>dropped \<sigma>. x < reader_at q" "modify_readers False (seg \<sigma>) = (s0, wr)"
  shows "(seg_hi (seg \<sigma>) - reader_at q < 18 * n \<longrightarrow>
      decrement_readers_until n q s0 (write_offset wr) \<noteq> None) \<and>
    (\<forall>res. decrement_readers_until n q s0 (write_offset wr) = Some res \<longrightarrow>
      (\<exists>q' s' A'. res = Inr (q', s') \<and> (spec_step (q_cap wq))\<^sup>*\<^sup>* A A' \<and>
        refines wq G (\<sigma>\<lparr>seg := s', open_readers := (open_readers \<sigma>)(r := None)\<rparr>) A'))"
proof -
  let ?c = "q_cap wq"
  have off: "seg_hi (seg \<sigma>) = s_hi A" "seg_lo (seg \<sigma>) = s_lo A" and rd: "rel_readers wq \<sigma> A"
    using R by (simp_all add: refines_def rel_offsets_def)
  define v where "v = fst (return_sub_reader (unwrap (packed_of (seg \<sigma>))))"
  have s0: "s0 = set_packed v (seg \<sigma>)"
    and wr: "write_offset wr = write_offset (unwrap (packed_of (seg \<sigma>)))"
    using step(6) by (simp_all add: modify_readers_def v_def return_sub_reader_def Let_def) auto
  have x: "unat (write_offset wr) = s_hi A" using off(1) by (simp add: wr seg_hi_def)
  have "0 < card (dom (open_readers \<sigma>))" "card (dom (open_readers \<sigma>)) \<le> 255"
    using rd step(1) by (auto simp: rel_readers_def card_gt_0_iff)
  moreover have "unat (num_readers (unwrap (packed_of (seg \<sigma>)))) = card (dom (open_readers \<sigma>))"
    using rd by (simp add: rel_readers_def seg_readers_def)
  ultimately have v: "unat (write_offset (unwrap v)) = s_hi A"
    "unat (num_readers (unwrap v)) + 1 = card (dom (open_readers \<sigma>))"
    using off(1) by (simp_all add: v_def packed_frames packed_readers_sub seg_hi_def mod_if)
  have hi: "s_hi A < s_lo A + ?c" using step(4) off by simp
  have "\<forall>e\<in>set (s_log A). e_state e = Aborted_Entry \<longrightarrow> e_start e \<in> dropped \<sigma>"
    using R by (auto simp: refines_def rel_sent_def)
  with step(5) no_writer_all_final(2) [OF R step(3)]
  have "\<forall>e\<in>set (s_log A). final_state (e_state e) \<and>
      (reader_at q \<le> e_start e \<longrightarrow> e_state e \<noteq> Aborted_Entry)" by (auto simp: not_less [symmetric])
  note run = drain_run [OF R step(1,2) x this hi, of n]
  have "\<exists>q' s' A'. res = Inr (q', s') \<and> (spec_step ?c)\<^sup>*\<^sup>* A A' \<and>
        refines wq G (\<sigma>\<lparr>seg := s', open_readers := (open_readers \<sigma>)(r := None)\<rparr>) A'"
    if res: "decrement_readers_until n q s0 (write_offset wr) = Some res" for res
  proof -
    obtain res0 where "decrement_readers_until n q (seg \<sigma>) (write_offset wr) = Some res0"
      and res0: "res = map_sum id (map_prod id (set_packed v)) res0"
      using res by (auto simp: s0 decrement_readers_packed)
    with run obtain q' s' A' rv where drain: "res0 = Inr (q', s')" "(spec_step ?c)\<^sup>*\<^sup>* A A'"
      "s_hi A' = s_hi A" "s_pos A' r = Some (s_hi A)"
      and R': "refines wq G (\<sigma>\<lparr>seg := s', open_readers := (open_readers \<sigma>)(r \<mapsto> q'),
           received := (received \<sigma>)(r := rv)\<rparr>) A'" by blast
    let ?\<sigma>' = "\<sigma>\<lparr>seg := s', open_readers := (open_readers \<sigma>)(r \<mapsto> q'),
        received := (received \<sigma>)(r := rv)\<rparr>"
    have "insert r (dom (open_readers \<sigma>)) = dom (open_readers \<sigma>)" using step(1) by blast
    then have "refines wq G (?\<sigma>'\<lparr>seg := set_packed v (seg ?\<sigma>'),
        open_readers := (open_readers ?\<sigma>')(r := None),
        received := (received ?\<sigma>')(r := received \<sigma> r)\<rparr>) (A'\<lparr>s_pos := (s_pos A')(r := None)\<rparr>)"
      using drain(3,4) v step(2,3) by (intro refines_gone [OF R', of r q']) simp_all
    moreover have "spec_step ?c A' (A'\<lparr>s_pos := (s_pos A')(r := None)\<rparr>)"
      using drain(3,4) by (intro spec_step.leave) simp
    ultimately show ?thesis
      using drain(1,2) res0 by (simp add: fun_upd_idem) (meson rtranclp.rtrancl_into_rtrancl)
  qed
  with run show ?thesis by (auto simp: s0 decrement_readers_packed off)
qed

section \<open>The simulation\<close>

text \<open>The number of writers plays no part in it.\<close>

lemma refines_writers:
  "refines wq G \<sigma> A \<Longrightarrow> refines wq G (\<sigma>\<lparr>seg := set_writers v (seg \<sigma>)\<rparr>) A"
proof -
  let ?\<sigma> = "\<sigma>\<lparr>seg := set_writers v (seg \<sigma>)\<rparr>"
  have "rel_readers wq ?\<sigma> A = rel_readers wq \<sigma> A" "rel_held wq ?\<sigma> A = rel_held wq \<sigma> A"
    "rel_threads wq ?\<sigma> A = rel_threads wq \<sigma> A" "rel_sent ?\<sigma> A = rel_sent \<sigma> A"
    "rel_offsets wq G (seg ?\<sigma>) A = rel_offsets wq G (seg \<sigma>) A"
    by (simp_all add: rel_readers_def seg_readers_def rel_held_def rel_threads_def rel_sent_def
        rel_offsets_def seg_hi_def seg_lo_def)
  then show "refines wq G \<sigma> A \<Longrightarrow> refines wq G ?\<sigma> A" by (simp add: refines_def)
qed

text \<open>Handing out a message changes the reader's counter and what it holds, nothing else.\<close>

lemma refines_hold:
  assumes R: "refines wq G \<sigma> A" and q: "open_readers \<sigma> r = Some q"
    and q': "reader_at q' = reader_at q" "is_writer q' = is_writer q"
      "available_queue_size_bytes q' = available_queue_size_bytes q"
    and got: "\<And>wr. got = Some wr \<Longrightarrow> \<exists>e bs. e \<in> set (s_log A) \<and> e_start e = reader_at q \<and>
      e_state e = Published_Entry bs \<and> wrapper_data wr = reader_at q mod q_cap wq \<and>
      unat (wrapper_size wr) = e_len e"
  shows "refines wq G (\<sigma>\<lparr>open_readers := (open_readers \<sigma>)(r \<mapsto> q'), held := (held \<sigma>)(r := got)\<rparr>) A"
proof -
  have rd: "rel_readers wq \<sigma> A" and hd: "rel_held wq \<sigma> A" using R by (simp_all add: refines_def)
  let ?\<sigma> = "\<sigma>\<lparr>open_readers := (open_readers \<sigma>)(r \<mapsto> q'), held := (held \<sigma>)(r := got)\<rparr>"
  have "dom ((open_readers \<sigma>)(r \<mapsto> q')) = dom (open_readers \<sigma>)" using q by auto
  moreover have "map_option reader_at \<circ> (open_readers \<sigma>)(r \<mapsto> q') = map_option reader_at \<circ> open_readers \<sigma>"
    using q q'(1) by auto
  ultimately have "rel_readers wq ?\<sigma> A"
    using rd q q' by (simp add: rel_readers_def)
  moreover have "rel_held wq ?\<sigma> A"
    unfolding rel_held_def
  proof (intro allI impI)
    fix r' wr assume h: "held ?\<sigma> r' = Some wr"
    show "\<exists>x e bs. s_pos A r' = Some x \<and> e \<in> set (s_log A) \<and> e_start e = x \<and>
       e_state e = Published_Entry bs \<and> wrapper_data wr = x mod q_cap wq \<and>
       unat (wrapper_size wr) = e_len e"
    proof (cases "r' = r")
      case True
      with h got [of wr] reader_facts(1) [OF R q] show ?thesis by auto
    next
      case False
      with h hd show ?thesis by (simp add: rel_held_def)
    qed
  qed
  moreover have "rel_threads wq ?\<sigma> A" "rel_sent ?\<sigma> A"
    using R by (simp_all add: refines_def rel_threads_def rel_sent_def)
  ultimately show ?thesis using R by (simp add: refines_def)
qed

lemma refines_poll_return:
  assumes R: "refines wq G \<sigma> A" and q: "open_readers \<sigma> r = Some q" "held \<sigma> r = None"
    and poll: "poll_once q (seg \<sigma>) = Inr (Poll_Return q' s' got)"
  shows "refines wq G (\<sigma>\<lparr>seg := s', open_readers := (open_readers \<sigma>)(r \<mapsto> q'),
    held := (held \<sigma>)(r := got)\<rparr>) A"
proof -
  have inv: "spec_inv (q_cap wq) A" using R by (simp add: refines_def)
  then show ?thesis
  proof (cases rule: reader_entry_cases [where x = "reader_at q"])
    case (published e bs)
    obtain wr where "q' = q\<lparr>read_message_cnt := read_message_cnt q + 1\<rparr>" "s' = seg \<sigma>" "got = Some wr"
      "wrapper_data wr = reader_at q mod q_cap wq" "unat (wrapper_size wr) = e_len e"
      using poll_published [OF R q(1) published] poll by auto
    with published refines_hold [OF R q(1), of q' got] show ?thesis
      by (auto simp: reader_at_def)
  next
    case (skipped e)
    with poll_skipped_again [OF R q(1) skipped] poll show ?thesis by auto
  next
    case unready
    from poll_unready [OF R q(1) unready] poll have "q' = q" "s' = seg \<sigma>" "got = None" by auto
    with refines_hold [OF R q(1), of q' got] show ?thesis by simp
  qed
qed

lemma refines_poll_again:
  assumes R: "refines wq G \<sigma> A" and q: "open_readers \<sigma> r = Some q" "held \<sigma> r = None"
    "reader_at q < seg_lo (seg \<sigma>) + q_cap wq"
    and poll: "poll_once q (seg \<sigma>) = Inr (Poll_Again q' s')"
  shows "\<exists>e. e \<in> set (s_log A) \<and> e_start e = reader_at q \<and> final_state (e_state e) \<and>
    payload_of (e_state e) = [] \<and>
    spec_step (q_cap wq) A (advanced r e A) \<and>
    refines wq G (\<sigma>\<lparr>seg := s', open_readers := (open_readers \<sigma>)(r \<mapsto> q')\<rparr>) (advanced r e A)"
proof -
  have inv: "spec_inv (q_cap wq) A" using R by (simp add: refines_def)
  then show ?thesis
  proof (cases rule: reader_entry_cases [where x = "reader_at q"])
    case (published e bs)
    then show ?thesis using poll_published [OF R q(1) published] poll by auto
  next
    case (skipped e)
    obtain q1 s1 where "release_buffer q (seg \<sigma>) (e_start e mod q_cap wq) = Inr (q1, s1)"
      and step: "spec_step (q_cap wq) A (advanced r e A)"
      and ref: "refines wq G (\<sigma>\<lparr>seg := s1, open_readers := (open_readers \<sigma>)(r \<mapsto> q1),
         held := (held \<sigma>)(r := None),
         received := (received \<sigma>)(r := received \<sigma> r @ payload_of (e_state e))\<rparr>) (advanced r e A)"
      using refines_release [OF R q(1) skipped(1-3)] by auto
    moreover have "q1 = q'" "s1 = s'"
      using calculation(1) poll_skipped [OF R q(1) skipped] poll by simp_all
    moreover have "(held \<sigma>)(r := None) = held \<sigma>" using q(2) by auto
    ultimately show ?thesis using skipped by (intro exI [of _ e]) simp
  next
    case unready
    have "poll_safe wq \<sigma> q" using q(3) by (simp add: poll_safe_def)
    from poll_nothing [OF R q(1) this unready] poll show ?thesis by simp
  qed
qed

text \<open>The view of a held message is the payload that was published at the reader's offset.\<close>

lemma held_facts:
  assumes R: "refines wq G \<sigma> A" and q: "open_readers \<sigma> r = Some q" and wr: "held \<sigma> r = Some wr"
  obtains e bs where "e \<in> set (s_log A)" "e_start e = reader_at q" "e_state e = Published_Entry bs"
    "wrapper_data wr = e_start e mod q_cap wq" "get_as_view (seg \<sigma>) wr = bs"
proof -
  obtain x e bs where pos: "s_pos A r = Some x" and e: "e \<in> set (s_log A)" "e_start e = x"
    "e_state e = Published_Entry bs" and w: "wrapper_data wr = x mod q_cap wq"
    "unat (wrapper_size wr) = e_len e"
    using R wr unfolding refines_def rel_held_def by blast
  have inv: "spec_inv (q_cap wq) A" using R by (simp add: refines_def)
  have x: "x = reader_at q" using pos reader_facts(1) [OF R q] by simp
  have "live_ok (q_cap wq) (ring (seg \<sigma>)) (card (behind A (e_start e))) e"
    using live_at_reader(2) [OF R q e(1)] e x by simp
  then have "read_bytes (ring (seg \<sigma>)) (x mod q_cap wq + 18) (e_len e - 18) = bs"
    using e by (simp add: live_ok_def Let_def)
  moreover have "unat (wrapper_size wr - sizeof_MessageHeader) = e_len e - 18"
    using w(2) spec_log_facts(1) [OF inv e(1)] by (subst unat_sub_u64) simp_all
  ultimately have "get_as_view (seg \<sigma>) wr = bs" by (simp add: get_as_view_def w)
  with that e x w show ?thesis by simp
qed

lemma refines_wrapper_release:
  assumes R: "refines wq G \<sigma> A" and q: "open_readers \<sigma> r = Some q" and wr: "held \<sigma> r = Some wr"
  shows "\<exists>q' s' wr' e. wrapper_release q (seg \<sigma>) wr = Inr (q', s', wr') \<and>
    spec_step (q_cap wq) A (advanced r e A) \<and>
    refines wq G (\<sigma>\<lparr>seg := s', open_readers := (open_readers \<sigma>)(r \<mapsto> q'),
      held := (held \<sigma>)(r := None),
      received := (received \<sigma>)(r := received \<sigma> r @ [get_as_view (seg \<sigma>) wr])\<rparr>) (advanced r e A)"
proof -
  obtain e bs where e: "e \<in> set (s_log A)" "e_start e = reader_at q" "e_state e = Published_Entry bs"
    "wrapper_data wr = e_start e mod q_cap wq" "get_as_view (seg \<sigma>) wr = bs"
    using held_facts [OF R q wr] by blast
  with refines_release [OF R q e(1,2)] show ?thesis
    by (force simp: wrapper_release_def)
qed

lemma refines_step:
  assumes R: "refines wq G \<sigma> A" and step: "sys_step wq G \<sigma> \<sigma>'"
  shows "\<exists>A'. (spec_step (q_cap wq))\<^sup>*\<^sup>* A A' \<and> refines wq G \<sigma>' A'"
  using step
proof cases
  case (reserve w sz s' t)
  with refines_reserve [OF R reserve(2-7)] show ?thesis by blast
next
  case (place w sz t s' b)
  with refines_place [OF R place(2-4)] show ?thesis by blast
next
  case (skip w sz t s')
  with refines_skip [OF R skip(2-4)] show ?thesis by blast
next
  case (publish w b data s')
  with refines_publish [OF R publish(2,3)] show ?thesis by blast
next
  case (abort w b)
  with refines_abort [OF R abort(2)] show ?thesis by blast
next
  case (join r s' wr q0)
  with refines_join [OF R join(2-6)] show ?thesis by blast
next
  case (poll_return r q q' s' got)
  with refines_poll_return [OF R poll_return(2-4)] show ?thesis by blast
next
  case (poll_again r q q' s')
  with refines_poll_again [OF R poll_again(2-5)] show ?thesis by blast
next
  case (release r q wr q' s' wr')
  with refines_wrapper_release [OF R release(2,3)] show ?thesis by auto
next
  case (leave r q s0 wr n q' s')
  with refines_leave [OF R leave(2-7)] show ?thesis by blast
next
  case writer_opens
  with refines_writers [OF R] show ?thesis by blast
next
  case writer_closes
  with refines_writers [OF R] show ?thesis by blast
qed

definition queue_init :: "IpcQueue \<Rightarrow> nat set \<Rightarrow> Sys \<Rightarrow> bool" where
  "queue_init wq G \<sigma> \<longleftrightarrow> sane_queue wq \<and> is_writer wq \<and> spaced G \<and> sys_init wq \<sigma>"

lemma refines_init:
  assumes "queue_init wq G \<sigma>"
  shows "\<exists>A. spec_init A \<and> refines wq G \<sigma> A"
proof -
  let ?A = "\<lparr>s_lo = 0, s_hi = 0, s_log = [], s_pos = Map.empty, s_owner = Map.empty,
    s_joined = (\<lambda>_. 0), s_received = (\<lambda>_. [])\<rparr>"
  have sane: "sane_queue wq" and init: "sys_init wq \<sigma>" using assms by (simp_all add: queue_init_def)
  then have seg: "seg_hi (seg \<sigma>) = 0" "seg_lo (seg \<sigma>) = 0" "seg_readers (seg \<sigma>) = 0"
    "ring (seg \<sigma>) = (\<lambda>_. 0)"
    by (simp_all add: sys_init_def init_new_file_def seg_hi_def seg_lo_def seg_readers_def
        packed_of_def read_offset_of_def unat_write_offset_unwrap unat_num_readers_unwrap)
  have "rel_offsets wq G (seg \<sigma>) ?A"
    using assms sane seg by (simp add: rel_offsets_def queue_init_def spaced_zero header_room_def sane_queue_def)
  moreover have "spec_inv (q_cap wq) ?A" by (intro spec_inv_init) (simp add: spec_init_def)
  moreover have "rel_readers wq \<sigma> ?A" "rel_threads wq \<sigma> ?A" "rel_held wq \<sigma> ?A" "rel_sent \<sigma> ?A"
    using init seg by (simp_all add: sys_init_def rel_readers_def rel_threads_def rel_held_def
        rel_sent_def)
  moreover have "rel_mem (q_cap wq) G (ring (seg \<sigma>)) ?A"
    by (simp add: rel_mem_def live_def seg)
  ultimately show ?thesis by (intro exI [of _ ?A]) (simp add: refines_def spec_init_def)
qed

interpretation ipc: simulation_with_invariant "queue_init wq G" "sys_step wq G" spec_init
    "spec_step (q_cap wq)" "refines wq G" "spec_inv (q_cap wq)" for wq G
  by unfold_locales (blast intro: refines_init, rule refines_step)

text \<open>A state that the agents can reach on a new file.\<close>

definition reachable :: "IpcQueue \<Rightarrow> nat set \<Rightarrow> Sys \<Rightarrow> bool" where
  "reachable wq G \<sigma> \<longleftrightarrow> (\<exists>\<sigma>0. queue_init wq G \<sigma>0 \<and> (sys_step wq G)\<^sup>*\<^sup>* \<sigma>0 \<sigma>)"

lemma reachable_refines:
  assumes "reachable wq G \<sigma>"
  obtains A where "refines wq G \<sigma> A" "spec_inv (q_cap wq) A"
  using assms ipc.reachable_related unfolding reachable_def by metis

lemma reachable_step: "reachable wq G \<sigma> \<Longrightarrow> sys_step wq G \<sigma> \<sigma>' \<Longrightarrow> reachable wq G \<sigma>'"
  unfolding reachable_def by (meson rtranclp.rtrancl_into_rtrancl)

lemma reachable_init: "queue_init wq G \<sigma> \<Longrightarrow> reachable wq G \<sigma>"
  unfolding reachable_def by blast

end
