(* ===== verification/Ipc_Guarantees.thy ===== *)
theory Ipc_Guarantees
  imports Ipc_Refinement
begin

text \<open>
  What the queue guarantees to its writers and readers: consequences of the simulation, stated on
  the states of \<open>Ipc_System\<close> that are reachable from a new file.
\<close>

section \<open>A concrete run\<close>

text \<open>
  The witnesses below live in this run: on a queue of 128 bytes a reader joins, a writer reserves
  46 bytes, places and publishes a message of 28 bytes, and the reader polls it.
\<close>

definition demo_reserved :: Segment where
  "demo_reserved = set_packed 11777 (demo_segment 128)"

definition demo_ticket :: Ticket where
  "demo_ticket = \<lparr>claimed_word = \<lparr>num_readers = 1, write_offset = 0, original_value = 1\<rparr>,
     claimed_end = 46\<rparr>"

definition demo_placed :: Segment where
  "demo_placed = set_count 1 (demo_reserved\<lparr>ring := header_ring 0 0 28 1 (ring demo_reserved)\<rparr>)"

definition demo_buffer :: RaiiWrapper where
  "demo_buffer = \<lparr>wrapper_data = 0, wrapper_size = 46\<rparr>"

definition demo_data :: "u8 list" where
  "demo_data = replicate 28 7"

definition demo_published :: Segment where
  "demo_published = commit_buffer (demo_placed\<lparr>ring := write_bytes (ring demo_placed) 18 demo_data\<rparr>) 0"

definition demo_joined :: IpcQueue where
  "demo_joined = joined_reader (demo_writer 128) (demo_reader 128)
     \<lparr>num_readers = 1, write_offset = 0, original_value = 0\<rparr>"

lemma demo_join: "modify_readers True (demo_segment 128) = (set_packed 1 (demo_segment 128),
   \<lparr>num_readers = 1, write_offset = 0, original_value = 0\<rparr>)"
  by (simp add: modify_readers_def return_add_reader_def unwrap_def repack_def Let_def)

lemma demo_reserve: "reserve_write_offset (demo_writer 128) (set_packed 1 (demo_segment 128))
    (28 + sizeof_MessageHeader) = (demo_reserved, demo_ticket)"
  by (simp add: reserve_write_offset_def return_add_offset_def unwrap_def repack_def Let_def
      bytes_to_bump_def bytes_remaining_at_end_def sizeof_MessageHeader_def demo_reserved_def
      demo_ticket_def)

lemma demo_place: "place_claim (demo_writer 128) demo_reserved 28 demo_ticket =
    Inr (demo_placed, Some demo_buffer)"
  by (simp add: place_claim_def Let_def sizeof_MessageHeader_def header_ring_def demo_ticket_def
      demo_placed_def demo_buffer_def demo_reserved_def)

lemma demo_write: "write_to_buffer demo_placed demo_buffer demo_data = Inr demo_published"
  by (simp add: write_to_buffer_def demo_buffer_def demo_data_def demo_published_def)

lemma demo_flag: "hdr_commit_flag (ring demo_reserved) 0 = 0"
  by (simp add: demo_reserved_def hdr_commit_flag_def)

lemma demo_header:
  "hdr_abs_offset (ring demo_published) 0 = 0" "hdr_message_size (ring demo_published) 0 = 28"
  "hdr_type (ring demo_published) 0 = message_type_value NORMAL"
  "hdr_commit_flag (ring demo_published) 0 = 1" "hdr_num_readers (ring demo_published) 0 = 1"
  using hdr_payload_frame [of 18 _ 0]
  by (simp_all add: demo_published_def commit_buffer_def demo_placed_def header_ring_header)

definition demo_wrapper :: ReaderWrapper where
  "demo_wrapper = mk_reader_wrapper 0 46"

lemma demo_poll: "poll_once demo_joined demo_published = Inr (Poll_Return
    (demo_joined\<lparr>read_message_cnt := 1\<rparr>) demo_published (Some demo_wrapper))"
  by (simp add: poll_once_def demo_header demo_joined_def joined_reader_def Let_def
     sizeof_MessageHeader_def demo_wrapper_def demo_reader_def IpcQueue_members_def demo_writer_def demo_params_def)

definition demo_system :: Sys where
  "demo_system =
     \<lparr>seg = demo_published, open_readers = [0 \<mapsto> demo_joined\<lparr>read_message_cnt := 1\<rparr>],
      held = [0 \<mapsto> demo_wrapper], threads = Map.empty, received = (\<lambda>_. []),
      joined = (\<lambda>_. 0), sent = [0 \<mapsto> demo_data], dropped = {}\<rparr>"

definition demo_start :: Sys where
  "demo_start = \<lparr>seg = demo_segment 128, open_readers = Map.empty, held = Map.empty,
     threads = Map.empty, received = (\<lambda>_. []), joined = (\<lambda>_. 0), sent = Map.empty, dropped = {}\<rparr>"

lemma demo_init: "queue_init (demo_writer 128) (grid 46) demo_start"
  by (simp add: queue_init_def sane_queue_def sys_init_def demo_start_def demo_segment_def)

definition demo_waiting :: Sys where
  "demo_waiting = demo_start\<lparr>seg := demo_reserved, open_readers := [0 \<mapsto> demo_joined],
     threads := [0 \<mapsto> Waiting 28 demo_ticket]\<rparr>"

lemma demo_offsets:
  "claim_checks (demo_writer 128) 28" "seg_hi demo_reserved = 46"
  "seg_hi (set_packed 1 (demo_segment 128)) = 0"
  by (simp_all add: claim_checks_def demo_reserved_def sizeof_MessageHeader_def seg_hi_def
      unat_write_offset_unwrap)

lemma demo_waiting_reachable: "reachable (demo_writer 128) (grid 46) demo_waiting"
proof -
  let ?w = "demo_writer 128"
  let ?s1 = "demo_start\<lparr>seg := set_packed 1 (demo_segment 128), open_readers := [0 \<mapsto> demo_joined]\<rparr>"
  have "sys_step ?w (grid 46) demo_start ?s1"
    using sys_step.join [of demo_start 0 ?w "set_packed 1 (demo_segment 128)" _ "grid 46" "demo_reader 128"]
    by (simp add: demo_start_def demo_join demo_joined_def fun_upd_idem)
  moreover have "sys_step ?w (grid 46) ?s1 demo_waiting"
    using sys_step.reserve [of ?s1 0 ?w 28 demo_reserved demo_ticket "grid 46"]
      demo_offsets
    by (simp add: demo_start_def demo_reserve demo_waiting_def)
  ultimately show ?thesis using demo_init reachable_init reachable_step by blast
qed

lemma demo_system_reachable: "reachable (demo_writer 128) (grid 46) demo_system"
proof -
  let ?w = "demo_writer 128"
  let ?s3 = "demo_waiting\<lparr>seg := demo_placed, threads := [0 \<mapsto> Holding demo_buffer]\<rparr>"
  let ?s4 = "?s3\<lparr>seg := demo_published, threads := Map.empty, sent := [0 \<mapsto> demo_data]\<rparr>"
  have "\<not> must_wait ?w demo_reserved demo_ticket"
    by (simp add: must_wait_def demo_ticket_def demo_reserved_def)
  then have "sys_step ?w (grid 46) demo_waiting ?s3"
    using sys_step.place [of demo_waiting 0 28 demo_ticket ?w demo_placed demo_buffer "grid 46"]
    by (simp add: demo_waiting_def demo_place)
  moreover have "sys_step ?w (grid 46) ?s3 ?s4"
  proof -
    have "claimed_at demo_placed demo_buffer = 0"
      by (simp add: claimed_at_def demo_placed_def demo_buffer_def header_ring_header)
    moreover have "payload_after_write demo_placed demo_buffer demo_data = demo_data"
      by (simp add: payload_after_write_def demo_data_def demo_buffer_def)
    ultimately show ?thesis
      using sys_step.publish [of ?s3 0 demo_buffer demo_data demo_published ?w "grid 46"] demo_write
      by (simp add: demo_waiting_def demo_start_def)
  qed
  moreover have "sys_step ?w (grid 46) ?s4 demo_system"
    using sys_step.poll_return [of ?s4 0 demo_joined _ demo_published "Some demo_wrapper" ?w "grid 46"]
    by (simp add: demo_waiting_def demo_start_def demo_poll demo_system_def)
  ultimately show ?thesis using demo_waiting_reachable reachable_step by blast
qed

lemma demo_system_fields [simp]:
  "open_readers demo_system 0 = Some (demo_joined\<lparr>read_message_cnt := 1\<rparr>)"
  "held demo_system 0 = Some demo_wrapper" "sent demo_system = [0 \<mapsto> demo_data]"
  "seg demo_system = demo_published" "received demo_system r = []" "joined demo_system r = 0"
  "dropped demo_system = {}"
  by (simp_all add: demo_system_def)

lemma demo_joined_fields [simp]:
  "reader_at (demo_joined\<lparr>read_message_cnt := n\<rparr>) = 0" "reader_at demo_joined = 0"
  by (simp_all add: demo_joined_def joined_reader_def reader_at_def)

text \<open>The last state of the run: the reader has released the message.\<close>

definition demo_final :: Sys where
  "demo_final = demo_system
     \<lparr>seg := after_last_release 0 demo_published,
      open_readers := [0 \<mapsto> after_release 0 (demo_joined\<lparr>read_message_cnt := 1\<rparr>) demo_published],
      held := Map.empty, received := (\<lambda>_. [])(0 := [demo_data])\<rparr>"

lemma demo_release: "wrapper_release (demo_joined\<lparr>read_message_cnt := 1\<rparr>) demo_published demo_wrapper
    = Inr (after_release 0 (demo_joined\<lparr>read_message_cnt := 1\<rparr>) demo_published,
           after_last_release 0 demo_published, demo_wrapper\<lparr>released := True\<rparr>)"
proof -
  have "read_offset_of demo_published = 0"
    by (simp add: demo_published_def commit_buffer_def demo_placed_def demo_reserved_def)
  then show ?thesis
    by (simp add: wrapper_release_def release_buffer_eq demo_wrapper_def mk_reader_wrapper_def
        demo_joined_def joined_reader_def demo_header msg_total_def sizeof_MessageHeader_def)
qed

lemma demo_view: "get_as_view demo_published demo_wrapper = demo_data"
  by (simp add: get_as_view_def demo_wrapper_def mk_reader_wrapper_def sizeof_MessageHeader_def
      demo_published_def commit_buffer_def set_commit_flag_def read_bytes_upd_other demo_data_def
      read_bytes_write_bytes_same)

lemma demo_final_reachable: "reachable (demo_writer 128) (grid 46) demo_final"
proof (rule reachable_step [OF demo_system_reachable])
  show "sys_step (demo_writer 128) (grid 46) demo_system demo_final"
    using sys_step.release [of demo_system 0 _ demo_wrapper, OF _ _ demo_release [folded demo_system_fields(4)]]
    by (simp add: demo_final_def demo_view) (simp add: demo_system_def)
qed

lemma demo_final_fields [simp]:
  "open_readers demo_final 0 =
     Some (after_release 0 (demo_joined\<lparr>read_message_cnt := 1\<rparr>) demo_published)"
  "sent demo_final = [0 \<mapsto> demo_data]" "joined demo_final r = 0"
  "reader_at (after_release 0 (demo_joined\<lparr>read_message_cnt := n\<rparr>) demo_published) = 46"
  by (simp_all add: demo_final_def demo_system_def after_release_def reader_at_def demo_joined_def
      joined_reader_def demo_header msg_total_def sizeof_MessageHeader_def)

text \<open>
  Two other ways to go on from \<open>demo_system\<close>: a second writer takes a buffer, or three more
  writers reserve space, the last of which has to wait for the reader.
\<close>

definition demo_ticket2 :: Ticket where
  "demo_ticket2 = \<lparr>claimed_word = \<lparr>num_readers = 1, write_offset = 46, original_value = 11777\<rparr>,
     claimed_end = 92\<rparr>"

definition demo_ticket3 :: Ticket where
  "demo_ticket3 = \<lparr>claimed_word = \<lparr>num_readers = 1, write_offset = 92, original_value = 23553\<rparr>,
     claimed_end = 128\<rparr>"

definition demo_ticket4 :: Ticket where
  "demo_ticket4 = \<lparr>claimed_word = \<lparr>num_readers = 1, write_offset = 128, original_value = 32769\<rparr>,
     claimed_end = 174\<rparr>"

lemma demo_reserve_more:
  "packed_of s = 11777 \<Longrightarrow>
     reserve_write_offset (demo_writer 128) s (28 + sizeof_MessageHeader) = (set_packed 23553 s, demo_ticket2)"
  "packed_of s = 23553 \<Longrightarrow>
     reserve_write_offset (demo_writer 128) s (28 + sizeof_MessageHeader) = (set_packed 32769 s, demo_ticket3)"
  "packed_of s = 32769 \<Longrightarrow>
     reserve_write_offset (demo_writer 128) s (28 + sizeof_MessageHeader) = (set_packed 44545 s, demo_ticket4)"
  by (simp_all add: reserve_write_offset_def return_add_offset_def unwrap_def repack_def Let_def
      bytes_to_bump_def bytes_remaining_at_end_def sizeof_MessageHeader_def demo_ticket2_def
      demo_ticket3_def demo_ticket4_def)

lemma seg_hi_packed: "seg_hi (set_packed v s) = unat v div 256"
  by (simp add: seg_hi_def unat_write_offset_unwrap)

lemma demo_reserve_step:
  assumes "reachable (demo_writer 128) (grid 46) \<sigma>" "threads \<sigma> w = None" "open_readers \<sigma> \<noteq> Map.empty"
    and "reserve_write_offset (demo_writer 128) (seg \<sigma>) (28 + sizeof_MessageHeader) = (set_packed v (seg \<sigma>), t)"
    and "46 dvd unat v div 256 mod 128" "seg_hi (seg \<sigma>) < 1000"
  shows "reachable (demo_writer 128) (grid 46)
    (\<sigma>\<lparr>seg := set_packed v (seg \<sigma>), threads := (threads \<sigma>)(w \<mapsto> Waiting 28 t)\<rparr>)"
  using assms demo_offsets(1)
  by (intro reachable_step [OF assms(1)] sys_step.reserve) (simp_all add: seg_hi_packed)

lemma demo_published_packed: "packed_of demo_published = 11777" "seg_hi demo_published = 46"
  by (simp_all add: demo_published_def commit_buffer_def demo_placed_def demo_reserved_def seg_hi_packed)

definition demo_reserved2 :: Sys where
  "demo_reserved2 = demo_system\<lparr>seg := set_packed 23553 demo_published,
     threads := [1 \<mapsto> Waiting 28 demo_ticket2]\<rparr>"

definition demo_stuck :: Sys where
  "demo_stuck = demo_system\<lparr>seg := set_packed 44545 demo_published,
     threads := [1 \<mapsto> Waiting 28 demo_ticket2, 2 \<mapsto> Waiting 28 demo_ticket3,
                 3 \<mapsto> Waiting 28 demo_ticket4]\<rparr>"

lemma demo_reserved2_reachable: "reachable (demo_writer 128) (grid 46) demo_reserved2"
  using demo_reserve_step [OF demo_system_reachable, of 1 23553 demo_ticket2] demo_reserve_more(1)
  by (simp add: demo_reserved2_def demo_published_packed) (simp add: demo_system_def)

lemma demo_stuck_reachable: "reachable (demo_writer 128) (grid 46) demo_stuck"
proof -
  let ?s = "demo_system\<lparr>seg := set_packed 32769 demo_published,
     threads := [1 \<mapsto> Waiting 28 demo_ticket2, 2 \<mapsto> Waiting 28 demo_ticket3]\<rparr>"
  have readers: "open_readers demo_system \<noteq> Map.empty" by (simp add: demo_system_def)
  have "reachable (demo_writer 128) (grid 46) ?s"
    using demo_reserve_step [OF demo_reserved2_reachable, of 2 32769 demo_ticket3] readers
    by (simp add: demo_reserved2_def demo_reserve_more seg_hi_packed)
  from demo_reserve_step [OF this, of 3 44545 demo_ticket4] readers show ?thesis
    by (simp add: demo_stuck_def demo_reserve_more seg_hi_packed)
qed

lemma demo_stuck_waits: "must_wait (demo_writer 128) (seg demo_stuck) demo_ticket4"
  by (simp add: must_wait_def demo_stuck_def demo_ticket4_def demo_published_def commit_buffer_def
      demo_placed_def demo_reserved_def)

definition demo_buffer2 :: RaiiWrapper where
  "demo_buffer2 = \<lparr>wrapper_data = 46, wrapper_size = 46\<rparr>"

definition demo_writing :: Sys where
  "demo_writing = demo_system
     \<lparr>seg := set_count 2 ((set_packed 23553 demo_published)
        \<lparr>ring := header_ring 46 46 28 1 (ring demo_published)\<rparr>),
      threads := [1 \<mapsto> Holding demo_buffer2]\<rparr>"

lemma demo_writing_reachable: "reachable (demo_writer 128) (grid 46) demo_writing"
proof (rule reachable_step [OF demo_reserved2_reachable])
  let ?s = "set_packed 23553 demo_published"
  have lo: "read_offset_of demo_published = 0" "count_of demo_published = 1"
    by (simp_all add: demo_published_def commit_buffer_def demo_placed_def demo_reserved_def)
  have "\<not> must_wait (demo_writer 128) ?s demo_ticket2"
    by (simp add: must_wait_def demo_ticket2_def lo)
  moreover have "place_claim (demo_writer 128) ?s 28 demo_ticket2 =
      Inr (set_count 2 (?s\<lparr>ring := header_ring 46 46 28 1 (ring demo_published)\<rparr>), Some demo_buffer2)"
    by (simp add: place_claim_def Let_def sizeof_MessageHeader_def header_ring_def demo_ticket2_def
        demo_buffer2_def lo)
  ultimately show "sys_step (demo_writer 128) (grid 46) demo_reserved2 demo_writing"
    using sys_step.place [of demo_reserved2 1 28 demo_ticket2 "demo_writer 128" _ demo_buffer2 "grid 46"]
    by (simp add: demo_reserved2_def demo_writing_def)
qed

lemma demo_writing_fields [simp]:
  "open_readers demo_writing = open_readers demo_system" "held demo_writing = held demo_system"
  "threads demo_writing = [1 \<mapsto> Holding demo_buffer2]"
  by (simp_all add: demo_writing_def)

section \<open>Delivery\<close>

lemma payloads_as_sent:
  assumes "rel_sent \<sigma> A" "set M \<subseteq> set (s_log A)"
  shows "payloads M = map (the \<circ> sent \<sigma>) (map e_start (filter (\<lambda>e. payload_of (e_state e) \<noteq> []) M))"
  using assms(2)
proof (induction M)
  case Nil
  show ?case by (simp add: payloads_def)
next
  case (Cons e M)
  then have "e \<in> set (s_log A)" by simp
  then have "sent \<sigma> (e_start e) = Some bs" if "e_state e = Published_Entry bs" for bs
    using assms(1) that by (auto simp: rel_sent_def)
  with Cons show ?case by (cases "e_state e") (simp_all add: payloads_def)
qed

lemma chain_strict_sorted: "chain a L b \<Longrightarrow> sorted_wrt (<) (map e_start L)"
proof (induction L arbitrary: a)
  case Nil
  show ?case by simp
next
  case (Cons e L)
  then have ch: "chain (e_end e) L b" and "0 < e_len e" by simp_all
  then have "e_start e < e_start f" if "f \<in> set L" for f
    using chain_mem_bounds [OF ch that] by (simp add: e_end_def)
  with Cons.IH [OF ch] show ?case by simp
qed

lemma published_offsets:
  assumes inv: "spec_inv c A" and se: "rel_sent \<sigma> A"
  shows "map e_start (filter (\<lambda>e. payload_of (e_state e) \<noteq> []) (passed j p (s_log A)))
    = sorted_list_of_set {x \<in> dom (sent \<sigma>). j \<le> x \<and> x < p}" (is "?xs = _")
proof -
  have "sorted_wrt (<) (map e_start (s_log A))"
    by (rule chain_strict_sorted [OF spec_chain [OF inv]])
  then have sorted: "sorted_wrt (<) ?xs"
    unfolding passed_def sorted_wrt_map by (intro sorted_wrt_filter)
  have ex: "(\<exists>e\<in>set (s_log A). e_start e = x \<and> payload_of (e_state e) \<noteq> []) \<longleftrightarrow> x \<in> dom (sent \<sigma>)" for x
  proof -
    have "payload_of st \<noteq> [] \<longleftrightarrow> (\<exists>bs. st = Published_Entry bs)" for st by (cases st) auto
    with se show ?thesis by (auto simp: rel_sent_def dom_def)
  qed
  have "x \<in> set ?xs \<longleftrightarrow> x \<in> dom (sent \<sigma>) \<and> j \<le> x \<and> x < p" for x
  proof
    assume "x \<in> set ?xs"
    then obtain e where "e \<in> set (s_log A)" "x = e_start e" "payload_of (e_state e) \<noteq> []"
      "j \<le> e_start e" "e_start e < p"
      unfolding set_map set_filter passed_def by blast
    with ex [of "e_start e"] show "x \<in> dom (sent \<sigma>) \<and> j \<le> x \<and> x < p" by auto
  next
    assume x: "x \<in> dom (sent \<sigma>) \<and> j \<le> x \<and> x < p"
    with ex [of x] obtain e where e: "e \<in> set (s_log A)" "e_start e = x" "payload_of (e_state e) \<noteq> []"
      by blast
    have "j \<le> e_start e" "e_start e < p" unfolding e(2) using x by blast+
    with e(1,3) have "e \<in> set (filter (\<lambda>e. payload_of (e_state e) \<noteq> []) (passed j p (s_log A)))"
      unfolding passed_def by simp
    from imageI [OF this, of e_start] show "x \<in> set ?xs" unfolding set_map e(2) .
  qed
  then have set_xs: "set ?xs = {x \<in> dom (sent \<sigma>). j \<le> x \<and> x < p}" by blast
  have "sorted ?xs" "distinct ?xs"
    using sorted unfolding strict_sorted_iff by blast+
  then show ?thesis
    unfolding set_xs [symmetric] by (rule sorted_list_of_set.idem_if_sorted_distinct [symmetric])
qed

text \<open>
  Broadcast delivery. In every reachable state, what a reader has released since it joined is
  exactly the sequence of the messages that writers committed at the offsets between its joining
  offset and its read offset, in the order of their offsets, each of them once and with the bytes
  that were written. No message is lost, repeated, reordered or altered, whatever the interleaving
  of any number of writers and readers.
\<close>

lemma delivered:
  assumes "reachable wq G \<sigma>" "open_readers \<sigma> r = Some q"
  shows "received \<sigma> r = map (the \<circ> sent \<sigma>)
    (sorted_list_of_set {x \<in> dom (sent \<sigma>). joined \<sigma> r \<le> x \<and> x < reader_at q})"
proof -
  obtain A where R: "refines wq G \<sigma> A" and inv: "spec_inv (q_cap wq) A"
    using reachable_refines [OF assms(1)] .
  then have se: "rel_sent \<sigma> A" and "received \<sigma> r = s_received A r" "joined \<sigma> r = s_joined A r"
    using assms(2) by (simp_all add: refines_def rel_readers_def)
  moreover have "s_received A r = payloads (passed (s_joined A r) (reader_at q) (s_log A))"
    using inv reader_facts(1) [OF R assms(2)] by (simp add: spec_inv_def spec_received_ok_def)
  moreover have "set (passed (s_joined A r) (reader_at q) (s_log A)) \<subseteq> set (s_log A)"
    by (auto simp: passed_def)
  ultimately show ?thesis
    by (simp add: payloads_as_sent [OF se] published_offsets [OF inv se] del: map_map)
qed

text \<open>
  C13. A reader finds the next message as soon as it is committed: polling hands out a message if
  and only if one was committed at the reader's offset, and what it hands out are its bytes.
\<close>

theorem poll_finds_committed:
  assumes "reachable wq G \<sigma>" "open_readers \<sigma> r = Some q"
  shows "sent \<sigma> (reader_at q) = Some bs \<longleftrightarrow>
    (\<exists>q' s' wr. poll_once q (seg \<sigma>) = Inr (Poll_Return q' s' (Some wr)) \<and> get_as_view s' wr = bs)"
proof -
  obtain A where R: "refines wq G \<sigma> A" and inv: "spec_inv (q_cap wq) A"
    using reachable_refines [OF assms(1)] .
  then have se: "rel_sent \<sigma> A" by (simp add: refines_def)
  show ?thesis
    using inv
  proof (cases rule: reader_entry_cases [where x = "reader_at q"])
    case (published e bs')
    then have "sent \<sigma> (reader_at q) = Some bs'" using se by (auto simp: rel_sent_def)
    moreover obtain q' wr where poll: "poll_once q (seg \<sigma>) = Inr (Poll_Return q' (seg \<sigma>) (Some wr))"
      and "get_as_view (seg \<sigma>) wr = bs'"
      using poll_view [OF R assms(2) published] by blast
    ultimately show ?thesis by auto
  next
    case (skipped e)
    have "sent \<sigma> (reader_at q) \<noteq> Some bs"
    proof
      assume "sent \<sigma> (reader_at q) = Some bs"
      then obtain f where f: "f \<in> set (s_log A)" "e_start f = reader_at q"
        "e_state f = Published_Entry bs" using se unfolding rel_sent_def by blast
      with spec_entry_unique [OF inv f(1) skipped(1)] skipped(2,4) show False by simp
    qed
    moreover have "poll_once q (seg \<sigma>) \<noteq> Inr (Poll_Return q' s' got)" for q' s' got
      using poll_skipped [OF R assms(2) skipped] by (auto simp: bindE_eq_Inr)
    ultimately show ?thesis by blast
  next
    case unready
    have "sent \<sigma> (reader_at q) \<noteq> Some bs"
    proof
      assume "sent \<sigma> (reader_at q) = Some bs"
      then obtain f where "f \<in> set (s_log A)" "e_start f = reader_at q"
        "e_state f = Published_Entry bs" using se unfolding rel_sent_def by blast
      with unready show False by auto
    qed
    with poll_unready [OF R assms(2) unready] show ?thesis by auto
  qed
qed

theorem poll_finds_committed_witness:
  "\<exists>q' s' wr. poll_once (demo_joined\<lparr>read_message_cnt := 1\<rparr>) demo_published =
     Inr (Poll_Return q' s' (Some wr)) \<and> get_as_view s' wr = demo_data"
  using poll_finds_committed [OF demo_system_reachable, of 0 _ demo_data] by simp

text \<open>
  A message that is being read stays intact: as long as a reader holds a wrapper, the view of
  its payload is the message that was committed at the reader's offset. No writer overwrites it
  and no other reader's release clears it.
\<close>

lemma held_view:
  assumes "reachable wq G \<sigma>" "open_readers \<sigma> r = Some q" "held \<sigma> r = Some wr"
  shows "sent \<sigma> (reader_at q) = Some (get_as_view (seg \<sigma>) wr)"
proof -
  obtain A where R: "refines wq G \<sigma> A" using reachable_refines [OF assms(1)] .
  then have "rel_sent \<sigma> A" by (simp add: refines_def)
  with held_facts [OF R assms(2,3)] show ?thesis
    unfolding rel_sent_def by metis
qed

text \<open>
  No assertion and no exception. In every reachable state a poll of a registered reader that is
  not one ring's size ahead of an aborted message, the release of a held message, and the placement of a claim whose wait is over all return normally.
\<close>

lemma no_assertion_fails:
  assumes "reachable wq G \<sigma>"
  shows "(\<forall>r q e. open_readers \<sigma> r = Some q \<and> poll_safe wq \<sigma> q \<longrightarrow>
       poll_once q (seg \<sigma>) \<noteq> Inl e) \<and>
    (\<forall>r q wr e. open_readers \<sigma> r = Some q \<and> held \<sigma> r = Some wr \<longrightarrow>
       wrapper_release q (seg \<sigma>) wr \<noteq> Inl e) \<and>
    (\<forall>w sz t e. threads \<sigma> w = Some (Waiting sz t) \<and> \<not> must_wait wq (seg \<sigma>) t \<longrightarrow>
       place_claim wq (seg \<sigma>) sz t \<noteq> Inl e)"
proof (intro conjI allI impI)
  obtain A where R: "refines wq G \<sigma> A" and inv: "spec_inv (q_cap wq) A"
    using reachable_refines [OF assms(1)] .
  show "poll_once q (seg \<sigma>) \<noteq> Inl e" if "open_readers \<sigma> r = Some q \<and> poll_safe wq \<sigma> q" for r q e
    using poll_total [OF R, of r q] that by auto
  show "wrapper_release q (seg \<sigma>) wr \<noteq> Inl e"
    if "open_readers \<sigma> r = Some q \<and> held \<sigma> r = Some wr" for r q wr e
    using refines_wrapper_release [OF R, of r q wr] that by auto
  show "place_claim wq (seg \<sigma>) sz t \<noteq> Inl e"
    if wait: "threads \<sigma> w = Some (Waiting sz t) \<and> \<not> must_wait wq (seg \<sigma>) t" for w sz t e
  proof -
    have sane: "sane_queue wq" using R by (simp add: refines_def rel_offsets_def)
    have "header_room (q_cap wq) (ticket_start t) \<and> 0 < unat sz \<and> unat sz < 2 ^ 31"
      by (rule waiting_entry [OF R conjunct1 [OF wait] conjunct2 [OF wait]]) simp
    with place_claim_total [OF sane, of t sz "seg \<sigma>"] show ?thesis by force
  qed
qed

lemma no_assertion_fails_witness:
  "\<forall>e. wrapper_release (demo_joined\<lparr>read_message_cnt := 1\<rparr>) demo_published demo_wrapper \<noteq> Inl e"
proof
  fix e
  show "wrapper_release (demo_joined\<lparr>read_message_cnt := 1\<rparr>) demo_published demo_wrapper \<noteq> Inl e"
    using no_assertion_fails [OF demo_system_reachable] demo_system_fields(1,2,4) by metis
qed

section \<open>Termination and progress\<close>

lemma poll_return_sent:
  assumes R: "refines wq G \<sigma> A" and q: "open_readers \<sigma> r = Some q"
    and poll: "poll_once q (seg \<sigma>) = Inr (Poll_Return q' s' got)"
  shows "map_option (get_as_view s') got = sent \<sigma> (reader_at q') \<and> reader_at q' = reader_at q"
proof -
  have inv: "spec_inv (q_cap wq) A" and se: "rel_sent \<sigma> A" using R by (simp_all add: refines_def)
  have none: "sent \<sigma> (reader_at q) = None"
    if "\<And>e bs. e \<in> set (s_log A) \<Longrightarrow> e_start e = reader_at q \<Longrightarrow> e_state e \<noteq> Published_Entry bs"
  proof (cases "sent \<sigma> (reader_at q)")
    case (Some bs)
    then obtain f where "f \<in> set (s_log A)" "e_start f = reader_at q" "e_state f = Published_Entry bs"
      using se unfolding rel_sent_def by blast
    with that show ?thesis by blast
  qed simp
  from inv show ?thesis
  proof (cases rule: reader_entry_cases [where x = "reader_at q"])
    case (published e bs)
    then have "sent \<sigma> (reader_at q) = Some bs" using se by (auto simp: rel_sent_def)
    with poll_view [OF R q published] poll show ?thesis by (auto simp: reader_at_def)
  next
    case (skipped e)
    with poll_skipped_again [OF R q] poll show ?thesis by force
  next
    case unready
    then have "sent \<sigma> (reader_at q) = None" by (intro none) auto
    with poll_unready [OF R q unready] poll show ?thesis by auto
  qed
qed

text \<open>
  A whole poll is safe when the ring is not full or every aborted message is released: its reader
  does not get one ring's size ahead of an aborted message.
\<close>

definition no_lapped_abort :: "IpcQueue \<Rightarrow> Sys \<Rightarrow> bool" where
  "no_lapped_abort wq \<sigma> \<longleftrightarrow>
     seg_hi (seg \<sigma>) < seg_lo (seg \<sigma>) + q_cap wq \<or> (\<forall>x\<in>dropped \<sigma>. x < seg_lo (seg \<sigma>))"

lemma no_lapped_abort_safe:
  assumes R: "refines wq G \<sigma> A" and q: "open_readers \<sigma> r = Some q" and "no_lapped_abort wq \<sigma>"
  shows "poll_safe wq \<sigma> q"
  using assms(3) reader_facts(8) [OF R q] R
  by (auto simp: no_lapped_abort_def poll_safe_def refines_def rel_offsets_def)

lemma poll_again_near:
  assumes R: "refines wq G \<sigma> A" and q: "open_readers \<sigma> r = Some q" and safe: "poll_safe wq \<sigma> q"
    and poll: "poll_once q (seg \<sigma>) = Inr (Poll_Again q' s')"
  shows "reader_at q < seg_lo (seg \<sigma>) + q_cap wq"
proof -
  have inv: "spec_inv (q_cap wq) A" and lo: "seg_lo (seg \<sigma>) = s_lo A"
    using R by (simp_all add: refines_def rel_offsets_def)
  show ?thesis
    using inv
  proof (cases rule: reader_entry_cases [where x = "reader_at q"])
    case (published e bs)
    with poll_view [OF R q published] poll show ?thesis by auto
  next
    case (skipped e)
    then have "e_state e \<noteq> Reserved_Entry" by auto
    note live = live_window [OF inv live_at_reader(1) [OF R q skipped(1,2) this]]
    then show ?thesis using skipped(2) lo by (simp add: e_end_def)
  next
    case unready
    with poll_nothing [OF R q safe unready] poll show ?thesis by simp
  qed
qed

lemma no_lapped_abort_again:
  assumes R: "refines wq G \<sigma> A" and q: "open_readers \<sigma> r = Some q" and safe: "no_lapped_abort wq \<sigma>"
    and e: "e_start e = reader_at q" and sg: "seg \<sigma>' = s'" "dropped \<sigma>' = dropped \<sigma>"
    and R': "refines wq G \<sigma>' (advanced r e A)"
  shows "no_lapped_abort wq \<sigma>'"
proof -
  have "s_lo A \<le> s_lo (advanced r e A)" using reader_facts(7) [OF R q] e by (simp add: e_end_def)
  moreover have "seg_lo (seg \<sigma>) = s_lo A" "seg_hi (seg \<sigma>) = s_hi A"
    "seg_lo (seg \<sigma>') = s_lo (advanced r e A)" "seg_hi (seg \<sigma>') = s_hi (advanced r e A)"
    using R R' by (simp_all add: refines_def rel_offsets_def)
  ultimately show ?thesis
    using safe sg(2) unfolding no_lapped_abort_def by (metis add_le_mono1 advanced_simps(3) less_le_trans)
qed

lemma poll_buffer_returns:
  assumes "refines wq G \<sigma> A" "open_readers \<sigma> r = Some q" "held \<sigma> r = None"
    and "no_lapped_abort wq \<sigma>" "s_hi A - reader_at q < 18 * n"
  shows "\<exists>q' s' got. poll_buffer n q (seg \<sigma>) = Some (Inr (q', s', got)) \<and>
    map_option (get_as_view s') got = sent \<sigma> (reader_at q')"
  using assms
proof (induction n arbitrary: \<sigma> A q)
  case 0
  then show ?case by simp
next
  case (Suc n)
  note R = Suc.prems(1) and q = Suc.prems(2)
  have safe: "poll_safe wq \<sigma> q" by (rule no_lapped_abort_safe [OF R q Suc.prems(4)])
  obtain p where p: "poll_once q (seg \<sigma>) = Inr p" using poll_total [OF R q safe] by blast
  show ?case
  proof (cases p)
    case (Poll_Return q' s' got)
    with p poll_return_sent [OF R q] show ?thesis by simp
  next
    case (Poll_Again q' s')
    with p obtain e where e: "e \<in> set (s_log A)" "e_start e = reader_at q"
      and R': "refines wq G (\<sigma>\<lparr>seg := s', open_readers := (open_readers \<sigma>)(r \<mapsto> q')\<rparr>) (advanced r e A)"
      using refines_poll_again [OF R q Suc.prems(3) poll_again_near [OF R q safe]] by blast
    have safe': "no_lapped_abort wq (\<sigma>\<lparr>seg := s', open_readers := (open_readers \<sigma>)(r \<mapsto> q')\<rparr>)"
      by (rule no_lapped_abort_again [OF R q Suc.prems(4) e(2) _ _ R']) simp_all
    have inv: "spec_inv (q_cap wq) A" using R by (simp add: refines_def)
    have "reader_at q' = e_end e" using reader_facts(1) [OF R', of r q'] by simp
    then have "s_hi (advanced r e A) - reader_at q' < 18 * n"
      using Suc.prems(5) spec_log_facts(1,3) [OF inv e(1)] e(2) by (simp add: e_end_def)
    from Suc.IH [OF R' _ _ safe' this] Suc.prems(3) p Poll_Again show ?thesis by simp
  qed
qed

text \<open>
  C12. \<open>poll_buffer\<close> terminates, although it calls itself again after every skip
  or aborted message: while the ring is not full or no aborted message is unreleased, it needs at
  most one level per 18 bytes between the reader and the write offset, and one more. It returns
  without an error, and what it returns is the message committed at the offset it stops at, or
  nothing if none is committed there.
\<close>

theorem poll_buffer_terminates:
  assumes "reachable wq G \<sigma>" "open_readers \<sigma> r = Some q" "held \<sigma> r = None"
    and "no_lapped_abort wq \<sigma>" "seg_hi (seg \<sigma>) - reader_at q < 18 * n"
  shows "\<exists>q' s' got. poll_buffer n q (seg \<sigma>) = Some (Inr (q', s', got)) \<and>
    map_option (get_as_view s') got = sent \<sigma> (reader_at q')"
proof -
  obtain A where R: "refines wq G \<sigma> A" using reachable_refines [OF assms(1)] .
  then have "seg_hi (seg \<sigma>) = s_hi A" by (simp add: refines_def rel_offsets_def)
  with poll_buffer_returns [OF R assms(2-4)] assms(5) show ?thesis by simp
qed

theorem poll_buffer_terminates_witness:
  "\<exists>q' s' got. poll_buffer 3 demo_joined demo_reserved = Some (Inr (q', s', got))"
  using poll_buffer_terminates [OF demo_waiting_reachable, of 0 demo_joined 3]
  by (auto simp: demo_waiting_def demo_start_def demo_offsets no_lapped_abort_def)

lemma watermark_facts:
  assumes R: "refines wq G \<sigma> A"
  shows "open_readers \<sigma> r = Some q \<Longrightarrow>
      seg_lo (seg \<sigma>) \<le> reader_at q \<and> reader_at q \<le> seg_hi (seg \<sigma>)"
    and "seg_lo (seg \<sigma>) < seg_hi (seg \<sigma>) \<Longrightarrow>
      \<exists>r q. open_readers \<sigma> r = Some q \<and> reader_at q = seg_lo (seg \<sigma>)"
proof -
  have inv: "spec_inv (q_cap wq) A" and off: "rel_offsets wq G (seg \<sigma>) A" and rd: "rel_readers wq \<sigma> A"
    using R by (simp_all add: refines_def)
  have hi: "seg_hi (seg \<sigma>) = s_hi A" "seg_lo (seg \<sigma>) = s_lo A"
    using off by (simp_all add: rel_offsets_def)
  show "seg_lo (seg \<sigma>) \<le> reader_at q \<and> reader_at q \<le> seg_hi (seg \<sigma>)"
    if "open_readers \<sigma> r = Some q"
    using reader_facts(7,8) [OF R that] hi by simp
  assume "seg_lo (seg \<sigma>) < seg_hi (seg \<sigma>)"
  with inv hi obtain r where r: "s_pos A r = Some (s_lo A)"
    by (auto simp: spec_inv_def spec_readers_ok_def)
  then obtain q where "open_readers \<sigma> r = Some q" "reader_at q = s_lo A"
    using readers_pos(1) [OF rd, of r] by auto
  with hi show "\<exists>r q. open_readers \<sigma> r = Some q \<and> reader_at q = seg_lo (seg \<sigma>)" by auto
qed

lemma reader_finds:
  assumes R: "refines wq G \<sigma> A" and q: "open_readers \<sigma> r = Some q"
    and e: "e \<in> set (s_log A)" "e_start e = reader_at q" "final_state (e_state e)"
  shows "\<exists>p. poll_once q (seg \<sigma>) = Inr p \<and> (\<forall>q' s'. p \<noteq> Poll_Return q' s' None)"
proof (cases "payload_of (e_state e) = []")
  case True
  with poll_skipped_again [OF R q e] show ?thesis by force
next
  case False
  then obtain bs where "e_state e = Published_Entry bs" by (cases "e_state e") simp_all
  with poll_view [OF R q e(1,2)] show ?thesis by auto
qed

text \<open>
  C14. The low watermark is the slowest reader. No registered reader is behind the watermark or
  ahead of the write offset, while anything is unread some reader stands at the watermark, and
  the packed word counts the registered readers.
\<close>

theorem watermark_is_slowest_reader:
  assumes "reachable wq G \<sigma>"
  shows "(\<forall>r q. open_readers \<sigma> r = Some q \<longrightarrow>
      seg_lo (seg \<sigma>) \<le> reader_at q \<and> reader_at q \<le> seg_hi (seg \<sigma>)) \<and>
    (seg_lo (seg \<sigma>) < seg_hi (seg \<sigma>) \<longrightarrow>
      (\<exists>r q. open_readers \<sigma> r = Some q \<and> reader_at q = seg_lo (seg \<sigma>))) \<and>
    unat (IpcQueue_num_readers (seg \<sigma>)) = card (dom (open_readers \<sigma>))"
proof -
  obtain A where R: "refines wq G \<sigma> A" using reachable_refines [OF assms(1)] .
  then have "unat (IpcQueue_num_readers (seg \<sigma>)) = card (dom (open_readers \<sigma>))"
    by (simp add: refines_def rel_readers_def seg_readers_def IpcQueue_num_readers_def)
  with watermark_facts [OF R] show ?thesis by blast
qed

theorem watermark_is_slowest_reader_witness:
  "seg_lo demo_published \<le> 0 \<and> 0 \<le> seg_hi demo_published"
  using watermark_is_slowest_reader [OF demo_system_reachable]
    demo_system_fields(1,4) demo_joined_fields(1) by metis

text \<open>The writer whose entry is the one at the low watermark waits for nobody.\<close>

lemma oldest_writer_goes_on:
  assumes R: "refines wq G \<sigma> A" and own: "s_owner A w = Some (s_lo A)"
  shows "(\<exists>sz t. threads \<sigma> w = Some (Waiting sz t) \<and> \<not> must_wait wq (seg \<sigma>) t) \<or>
    (\<exists>b. threads \<sigma> w = Some (Holding b))"
proof -
  have th: "rel_threads wq \<sigma> A" and lo: "seg_lo (seg \<sigma>) = s_lo A"
    using R by (simp_all add: refines_def rel_offsets_def)
  then have rt: "rel_thread wq A (threads \<sigma> w) (Some (s_lo A))"
    using rel_threadsD [OF th, of w] own by simp
  show ?thesis
  proof (cases "threads \<sigma> w")
    case None
    with rt show ?thesis by simp
  next
    case (Some ph)
    show ?thesis
    proof (cases ph)
      case (Holding b)
      with Some show ?thesis by blast
    next
      case (Waiting sz t)
      with rt Some have "ticket_end t = s_lo A + region_len (q_cap wq) (s_lo A) (unat sz + 18)"
        by (auto simp: e_end_def)
      then have "\<not> must_wait wq (seg \<sigma>) t"
        using region_len_le [of "q_cap wq" "s_lo A"] by (simp add: must_wait_nat lo not_less)
      with Some Waiting show ?thesis by blast
    qed
  qed
qed

text \<open>
  C11. No deadlock. When a writer spins because its region does not fit yet, some agent can go on:
  a writer whose wait is over, a writer that holds a buffer it has still to commit, or a reader at
  the low watermark for which a poll finds a message or a skip message to release. So a writer
  waits only for messages that were committed and not released, or are still being written.
\<close>

theorem waiting_writer_progress:
  assumes "reachable wq G \<sigma>" "threads \<sigma> w = Some (Waiting sz t)" "must_wait wq (seg \<sigma>) t"
  shows "(\<exists>w' sz' t'. threads \<sigma> w' = Some (Waiting sz' t') \<and> \<not> must_wait wq (seg \<sigma>) t') \<or>
    (\<exists>w' b. threads \<sigma> w' = Some (Holding b)) \<or>
    (\<exists>r q p. open_readers \<sigma> r = Some q \<and> reader_at q = seg_lo (seg \<sigma>) \<and>
       poll_once q (seg \<sigma>) = Inr p \<and> (\<forall>q' s'. p \<noteq> Poll_Return q' s' None))"
proof -
  obtain A where R: "refines wq G \<sigma> A" and inv: "spec_inv (q_cap wq) A"
    using reachable_refines [OF assms(1)] .
  then have off: "rel_offsets wq G (seg \<sigma>) A" and th: "rel_threads wq \<sigma> A"
    by (simp_all add: refines_def)
  have hi: "seg_hi (seg \<sigma>) = s_hi A" "seg_lo (seg \<sigma>) = s_lo A"
    using off by (simp_all add: rel_offsets_def)
  obtain x where "s_owner A w = Some x" using rel_threads_owner [OF th assms(2)] by blast
  then obtain e0 where e0: "e0 \<in> set (s_log A)" "\<not> final_state (e_state e0)"
    using spec_owner_entry [OF inv] by metis
  have "s_lo A < s_hi A"
    using nonfinal_ahead(1) [OF inv e0] spec_log_facts(1,3) [OF inv e0(1)] by (simp add: e_end_def)
  moreover have "boundary (s_log A) (s_hi A) (s_lo A)"
    using inv by (simp add: spec_inv_def spec_readers_ok_def)
  ultimately obtain d where d: "d \<in> set (s_log A)" "e_start d = s_lo A"
    by (auto simp: boundary_def)
  obtain r q where q: "open_readers \<sigma> r = Some q" "reader_at q = seg_lo (seg \<sigma>)"
    using watermark_facts(2) [OF R] \<open>s_lo A < s_hi A\<close> hi by auto
  show ?thesis
  proof (cases "final_state (e_state d)")
    case True
    with reader_finds [OF R q(1) d(1)] d(2) q hi show ?thesis by metis
  next
    case False
    then obtain w' where "s_owner A w' = Some (s_lo A)"
      using inv d by (auto simp: spec_inv_def spec_owner_ok_def)
    from oldest_writer_goes_on [OF R this] show ?thesis by blast
  qed
qed

theorem waiting_writer_progress_witness:
  "must_wait (demo_writer 128) (seg demo_stuck) demo_ticket4 \<and>
   ((\<exists>w' sz' t'. threads demo_stuck w' = Some (Waiting sz' t') \<and>
       \<not> must_wait (demo_writer 128) (seg demo_stuck) t') \<or>
    (\<exists>w' b. threads demo_stuck w' = Some (Holding b)) \<or>
    (\<exists>r q p. open_readers demo_stuck r = Some q \<and> reader_at q = seg_lo (seg demo_stuck) \<and>
       poll_once q (seg demo_stuck) = Inr p \<and> (\<forall>q' s'. p \<noteq> Poll_Return q' s' None)))"
proof -
  have "threads demo_stuck 3 = Some (Waiting 28 demo_ticket4)" by (simp add: demo_stuck_def)
  from waiting_writer_progress [OF demo_stuck_reachable this demo_stuck_waits] demo_stuck_waits
  show ?thesis by blast
qed

section \<open>Exclusive buffers\<close>

definition disjoint_spans :: "'a RaiiWrapper_scheme \<Rightarrow> 'b RaiiWrapper_scheme \<Rightarrow> bool" where
  "disjoint_spans b b' \<longleftrightarrow>
     wrapper_data b + unat (wrapper_size b) \<le> wrapper_data b' \<or>
     wrapper_data b' + unat (wrapper_size b') \<le> wrapper_data b"

lemma spans_apart:
  assumes inv: "spec_inv c A" and e: "live A e" and f: "live A f" and "e \<noteq> f"
    and b: "wrapper_data b = e_start e mod c" "unat (wrapper_size b) = e_len e"
    and b': "wrapper_data b' = e_start f mod c" "unat (wrapper_size b') = e_len f"
  shows "disjoint_spans b b'"
proof (rule ccontr)
  assume "\<not> disjoint_spans b b'"
  moreover note we = live_window [OF inv e] and wf = live_window [OF inv f]
  ultimately have "in_region c e (max (e_start e mod c) (e_start f mod c))"
    "in_region c f (max (e_start e mod c) (e_start f mod c))"
    by (auto simp: disjoint_spans_def b b' in_region_def)
  with regions_apart [OF inv we(1) wf(1) \<open>e \<noteq> f\<close> we(2,3) wf(2,3)] show False by blast
qed

lemma holding_entry:
  assumes R: "refines wq G \<sigma> A" and th: "threads \<sigma> w = Some (Holding b)"
  shows "\<exists>e. s_owner A w = Some (e_start e) \<and> live A e \<and> e_state e = Claimed_Entry \<and>
    wrapper_data b = e_start e mod q_cap wq \<and> unat (wrapper_size b) = e_len e"
proof -
  have inv: "spec_inv (q_cap wq) A" and rt: "rel_threads wq \<sigma> A"
    using R by (simp_all add: refines_def)
  obtain x where x: "s_owner A w = Some x" "rel_thread wq A (Some (Holding b)) (Some x)"
    using rel_threads_owner [OF rt th] by blast
  then obtain e where e: "e \<in> set (s_log A)" "e_start e = x" "e_state e = Claimed_Entry"
    "wrapper_data b = x mod q_cap wq" "unat (wrapper_size b) = e_len e" by auto
  have "s_lo A \<le> e_start e" using e(3) by (intro nonfinal_ahead(1) [OF inv e(1)]) simp
  with e x(1) show ?thesis by (intro exI [of _ e]) (simp add: live_def)
qed

text \<open>
  C10. Buffers are exclusive. The spans that two writers hold at the same time share no byte of the
  ring, and the span a writer holds shares no byte with a message a reader is still holding, so
  writers and readers may touch their spans without any lock.
\<close>

theorem buffers_are_exclusive:
  assumes "reachable wq G \<sigma>" "threads \<sigma> w = Some (Holding b)"
  shows "(\<forall>w' b'. w' \<noteq> w \<and> threads \<sigma> w' = Some (Holding b') \<longrightarrow> disjoint_spans b b') \<and>
    (\<forall>r q wr. open_readers \<sigma> r = Some q \<and> held \<sigma> r = Some wr \<longrightarrow> disjoint_spans b wr)"
proof (intro conjI allI impI)
  obtain A where R: "refines wq G \<sigma> A" and inv: "spec_inv (q_cap wq) A"
    using reachable_refines [OF assms(1)] .
  obtain e where e: "s_owner A w = Some (e_start e)" "live A e" "e_state e = Claimed_Entry"
    "wrapper_data b = e_start e mod q_cap wq" "unat (wrapper_size b) = e_len e"
    using holding_entry [OF R assms(2)] by blast
  show "disjoint_spans b b'" if w': "w' \<noteq> w \<and> threads \<sigma> w' = Some (Holding b')" for w' b'
  proof -
    obtain f where f: "s_owner A w' = Some (e_start f)" "live A f"
      "wrapper_data b' = e_start f mod q_cap wq" "unat (wrapper_size b') = e_len f"
      using holding_entry [OF R conjunct2 [OF w']] by blast
    have "e \<noteq> f" using inv e(1) f(1) w' by (auto simp: spec_inv_def spec_owner_ok_def)
    from spans_apart [OF inv e(2) f(2) this e(4,5) f(3,4)] show ?thesis .
  qed
  show "disjoint_spans b wr" if q: "open_readers \<sigma> r = Some q \<and> held \<sigma> r = Some wr" for r q wr
  proof -
    obtain f bs where f: "s_pos A r = Some (e_start f)" "f \<in> set (s_log A)"
      "e_state f = Published_Entry bs" "wrapper_data wr = e_start f mod q_cap wq"
      "unat (wrapper_size wr) = e_len f"
      using R q unfolding refines_def rel_held_def by metis
    have "s_lo A \<le> e_start f" using inv f(1) by (simp add: spec_inv_def spec_readers_ok_def)
    with f(2,3) have "live A f" by (simp add: live_def)
    moreover have "e \<noteq> f" using e(3) f(3) by auto
    ultimately show ?thesis using spans_apart [OF inv e(2) _ _ e(4,5) f(4,5)] by blast
  qed
qed

theorem buffers_are_exclusive_witness:
  "threads demo_writing 1 = Some (Holding demo_buffer2) \<and> disjoint_spans demo_buffer2 demo_wrapper"
proof -
  have th: "threads demo_writing 1 = Some (Holding demo_buffer2)" by simp
  have "open_readers demo_writing 0 = Some (demo_joined\<lparr>read_message_cnt := 1\<rparr>) \<and>
    held demo_writing 0 = Some demo_wrapper" by simp
  with buffers_are_exclusive [OF demo_writing_reachable th] th show ?thesis by blast
qed

section \<open>The grid of message starts\<close>

text \<open>
  The condition on message starts that the guarantees above assume is kept by messages of one
  size, and by all sizes that with their headers are multiples of the grid: if the write offset is
  on the grid, it is on the grid again after a reservation, whether it fits or pads the ring.
\<close>

lemma aligned_sizes_keep_grid:
  assumes "sane_queue q" "g dvd unat n" "g dvd seg_hi s mod q_cap q"
    and "unat n < 2 ^ 32" "18 \<le> unat n" "seg_hi s + q_cap q < 2 ^ 56"
    and eq: "reserve_write_offset q s n = (s', t)"
  shows "g dvd seg_hi s' mod q_cap q"
proof -
  have room: "seg_hi s + region_len (q_cap q) (seg_hi s) (unat n) < 2 ^ 56"
    using assms(6) region_len_le [of "q_cap q" "seg_hi s" "unat n"] by simp
  have hi: "seg_hi s' = seg_hi s + region_len (q_cap q) (seg_hi s) (unat n)"
    by (rule reserve_write_offset_nat(1) [OF assms(1,4) room eq])
  have c: "0 < q_cap q" using assms(1) by (simp add: sane_queue_def)
  show ?thesis
  proof (cases "unat n + 18 \<le> q_cap q - seg_hi s mod q_cap q")
    case True
    then have "seg_hi s mod q_cap q + unat n < q_cap q" by simp
    then have "seg_hi s' mod q_cap q = seg_hi s mod q_cap q + unat n"
      using True by (simp add: hi region_len_def mod_add_left_eq [of "seg_hi s", symmetric] mod_less)
    with assms(2,3) show ?thesis by simp
  next
    case False
    then have "seg_hi s' mod q_cap q = 0"
      using mod_to_end [OF c, of "seg_hi s"] by (simp add: hi region_len_def)
    then show ?thesis by simp
  qed
qed

lemma aligned_sizes_keep_grid_witness:
  "46 dvd seg_hi demo_reserved mod 128"
  using aligned_sizes_keep_grid [of "demo_writer 128" 46 "28 + sizeof_MessageHeader"
      "set_packed 1 (demo_segment 128)" demo_reserved demo_ticket] demo_reserve demo_offsets
  by (simp add: sane_queue_def)

text \<open>
  Refinement. Every state that writers and readers can reach on the ring of bytes represents
  a reachable state of the broadcast log of \<open>Broadcast_Spec\<close>: the interleaved operations of the
  queue implement the abstract log with its readers.
\<close>

lemma queue_implements_broadcast_log:
  assumes "queue_init wq G \<sigma>0" "(sys_step wq G)\<^sup>*\<^sup>* \<sigma>0 \<sigma>"
  shows "\<exists>A0 A. spec_init A0 \<and> (spec_step (q_cap wq))\<^sup>*\<^sup>* A0 A \<and> refines wq G \<sigma> A"
  using ipc.reachable_sim [OF assms] by blast

lemma queue_implements_broadcast_log_witness:
  "\<exists>A0 A. spec_init A0 \<and> (spec_step 128)\<^sup>*\<^sup>* A0 A \<and> refines (demo_writer 128) (grid 46) demo_start A"
  using queue_implements_broadcast_log [OF demo_init rtranclp.rtrancl_refl] by simp

section \<open>Whole polls as runs\<close>

text \<open>A poll with all its levels is a sequence of steps of one reader.\<close>

definition reader_moved :: "nat \<Rightarrow> Sys \<Rightarrow> Sys \<Rightarrow> bool" where
  "reader_moved r \<sigma> \<sigma>' \<longleftrightarrow>
     sent \<sigma>' = sent \<sigma> \<and> dropped \<sigma>' = dropped \<sigma> \<and> joined \<sigma>' = joined \<sigma> \<and> threads \<sigma>' = threads \<sigma> \<and>
     (\<forall>r'. r' \<noteq> r \<longrightarrow> open_readers \<sigma>' r' = open_readers \<sigma> r' \<and> held \<sigma>' r' = held \<sigma> r' \<and>
        received \<sigma>' r' = received \<sigma> r')"

lemma poll_buffer_run:
  assumes "reachable wq G \<sigma>" "open_readers \<sigma> r = Some q" "held \<sigma> r = None"
    and "no_lapped_abort wq \<sigma>" "poll_buffer n q (seg \<sigma>) = Some (Inr (q', s', got))"
  shows "\<exists>\<sigma>'. reachable wq G \<sigma>' \<and> seg \<sigma>' = s' \<and> open_readers \<sigma>' r = Some q' \<and> held \<sigma>' r = got \<and>
    received \<sigma>' r = received \<sigma> r \<and> reader_moved r \<sigma> \<sigma>'"
  using assms
proof (induction n arbitrary: \<sigma> q)
  case 0
  then show ?case by simp
next
  case (Suc n)
  show ?case
  proof (cases "poll_once q (seg \<sigma>)")
    case (Inl e)
    with Suc.prems(5) show ?thesis by simp
  next
    case (Inr p)
    show ?thesis
    proof (cases p)
      case (Poll_Return q1 s1 got1)
      with Inr Suc.prems(5) have "poll_once q (seg \<sigma>) = Inr (Poll_Return q' s' got)" by simp
      from reachable_step [OF Suc.prems(1) sys_step.poll_return [OF Suc.prems(2,3) this]]
      show ?thesis by (intro exI conjI) (assumption, simp_all add: reader_moved_def)
    next
      case (Poll_Again q1 s1)
      let ?\<sigma> = "\<sigma>\<lparr>seg := s1, open_readers := (open_readers \<sigma>)(r \<mapsto> q1)\<rparr>"
      have again: "poll_once q (seg \<sigma>) = Inr (Poll_Again q1 s1)" using Inr Poll_Again by simp
      obtain A where R: "refines wq G \<sigma> A" using reachable_refines [OF Suc.prems(1)] .
      note near = poll_again_near [OF R Suc.prems(2) no_lapped_abort_safe [OF R Suc.prems(2,4)] again]
      from refines_poll_again [OF R Suc.prems(2,3) near again] obtain e where "e_start e = reader_at q"
        "refines wq G ?\<sigma> (advanced r e A)" by blast
      with no_lapped_abort_again [OF R Suc.prems(2,4), of e ?\<sigma>] have "no_lapped_abort wq ?\<sigma>" by simp
      moreover from reachable_step [OF Suc.prems(1) sys_step.poll_again [OF Suc.prems(2,3) near again]]
      have "reachable wq G ?\<sigma>" .
      moreover have "poll_buffer n q1 s1 = Some (Inr (q', s', got))"
        using Inr Poll_Again Suc.prems(5) by simp
      ultimately show ?thesis
        using Suc.IH [of ?\<sigma> q1] Suc.prems(3) by (simp add: reader_moved_def)
    qed
  qed
qed

text \<open>The same for releasing what is held.\<close>

lemma release_run:
  assumes "reachable wq G \<sigma>" "open_readers \<sigma> r = Some q" "held \<sigma> r = Some wr"
  shows "\<exists>q' s' wr' \<sigma>'. wrapper_release q (seg \<sigma>) wr = Inr (q', s', wr') \<and> reachable wq G \<sigma>' \<and>
    seg \<sigma>' = s' \<and> open_readers \<sigma>' r = Some q' \<and> held \<sigma>' r = None \<and>
    received \<sigma>' r = received \<sigma> r @ [get_as_view (seg \<sigma>) wr] \<and> reader_moved r \<sigma> \<sigma>'"
proof -
  obtain A where R: "refines wq G \<sigma> A" using reachable_refines [OF assms(1)] .
  obtain q' s' wr' where rel: "wrapper_release q (seg \<sigma>) wr = Inr (q', s', wr')"
    using refines_wrapper_release [OF R assms(2,3)] by blast
  from reachable_step [OF assms(1) sys_step.release [OF assms(2,3) rel]] rel
  show ?thesis by (intro exI conjI) (assumption+, simp_all add: reader_moved_def)
qed

end
