(* ===== verification/Ipc_Lifecycle.thy ===== *)
theory Ipc_Lifecycle
  imports Ipc_Read
begin

text \<open>
  Opening and closing a queue: the constructor, \<open>validate_settings\<close>, \<open>close\<close> and the destructor
  of message_transport/ipc_queue.cpp, on the shared memory objects of one machine.

  An object that is unlinked loses its name, but the processes that mapped it keep using it. So the
  objects are numbered, a name refers to a number, and the file descriptor of a queue object is the
  number of the object it mapped (-1 when it is closed). Each function is one step here; in the
  code other processes act between the calls and stores of one, which is what \<open>Ipc_Processes\<close> has.
\<close>

section \<open>Shared memory objects\<close>

record Shm =
  names :: "string \<rightharpoonup> nat"
  objects :: "nat \<Rightarrow> Segment"
  next_object :: nat

definition mapped :: "IpcQueue \<Rightarrow> Shm \<Rightarrow> Segment" where
  "mapped q h = objects h (nat (fd q))"

definition put_mapped :: "IpcQueue \<Rightarrow> Segment \<Rightarrow> Shm \<Rightarrow> Shm" where
  "put_mapped q s h = h\<lparr>objects := (objects h)(nat (fd q) := s)\<rparr>"

definition shm_unlink :: "string \<Rightarrow> Shm \<Rightarrow> Shm" where
  "shm_unlink name h = h\<lparr>names := (names h)(name := None)\<rparr>"

definition shm_create :: "string \<Rightarrow> Segment \<Rightarrow> Shm \<Rightarrow> Shm" where
  "shm_create name s h =
     h\<lparr>names := (names h)(name \<mapsto> next_object h),
       objects := (objects h)(next_object h := s),
       next_object := next_object h + 1\<rparr>"

section \<open>The constructor\<close>

definition MAX_QUEUE_SIZE_BYTES :: u64 where
  "MAX_QUEUE_SIZE_BYTES = 1024 * 1024 * 1024"

definition validate_settings :: "IpcQueue \<Rightarrow> Segment \<Rightarrow> error + IpcQueue" where
  "validate_settings q s =
     (if magic (global_header s) \<noteq> MAGIC then Inl Queue_Uninitialized
      else
        let actual = shm_queue_size_bytes (write_fields (global_header s)) in
        Inr (if actual \<noteq> queue_size_bytes q
             then q\<lparr>queue_size_bytes := actual,
                    available_queue_size_bytes := actual - sizeof_GlobalHeader\<rparr>
             else q))"

text \<open>The end of the constructor: a reader registers and starts at the write offset it saw.\<close>

definition register :: "IpcQueue \<Rightarrow> Segment \<Rightarrow> IpcQueue \<times> Segment" where
  "register q s =
     (if \<not> is_writer q then
        let (s', result) = modify_readers True s in (q\<lparr>abs_read_offset := write_offset result\<rparr>, s')
      else (q, set_writers (writers_of s + 1) s))"

text \<open>
  \<open>may_open\<close> is the operating system's answer to \<open>shm_open\<close>, for an existing object and for a new
  one.
\<close>

definition open_queue ::
    "(string \<Rightarrow> bool) \<Rightarrow> Shm \<Rightarrow> IpcQueueParameters \<Rightarrow> error + (IpcQueue \<times> Shm)" where
  "open_queue may_open h params =
     (let q = IpcQueue_members params; name = param_file_name params in
      if param_queue_size params > MAX_QUEUE_SIZE_BYTES then Inl Queue_Too_Large
      else if \<not> is_power_of_two (available_queue_size_bytes q) then Inl Not_Power_Of_Two
      else if \<not> may_open name then Inl Shm_Open_Failed
      else case names h name of
        Some k \<Rightarrow>
          bindE (validate_settings (q\<lparr>fd := int k\<rparr>) (objects h k)) (\<lambda>q1.
          let (q2, s) = register q1 (objects h k) in Inr (q2, put_mapped q2 s h))
      | None \<Rightarrow>
          let k = next_object h; q1 = q\<lparr>fd := int k\<rparr>;
              (q2, s) = register q1 (init_new_file q1) in
          Inr (q2, shm_create name s h))"

section \<open>Closing\<close>

definition remove_file :: "IpcQueue \<Rightarrow> u32 \<Rightarrow> UnpackedReadersAndWriterOffset \<Rightarrow> bool" where
  "remove_file q writers wrapper \<longleftrightarrow>
     writers = 0 \<and> (\<not> is_writer q \<or> num_readers wrapper = 0)"

text \<open>The drain of a leaving reader is bounded by fuel; \<open>None\<close> is fuel run out.\<close>

definition close_queue :: "nat \<Rightarrow> IpcQueue \<Rightarrow> Shm \<Rightarrow> (error + (IpcQueue \<times> Shm)) option" where
  "close_queue fuel q h =
     (if fd q = -1 then Some (Inr (q, h))
      else
        let s = mapped q h;
            finish = (\<lambda>q1 s1 wrapper.
              let h1 = put_mapped q s1 h;
                  h2 = (if remove_file q (writers_of s1) wrapper
                        then shm_unlink (file_name q) h1 else h1)
              in (q1\<lparr>fd := -1\<rparr>, h2)) in
        if \<not> is_writer q then
          let (s0, wrapper) = modify_readers False s in
          (case decrement_readers_until fuel q s0 (write_offset wrapper) of
             None \<Rightarrow> None
           | Some (Inl e) \<Rightarrow> Some (Inl e)
           | Some (Inr (q1, s1)) \<Rightarrow> Some (Inr (finish q1 s1 wrapper)))
        else
          Some (Inr (finish q (set_writers (writers_of s - 1) s) (unwrap (packed_of s)))))"

definition destroy_queue :: "nat \<Rightarrow> IpcQueue \<Rightarrow> Shm \<Rightarrow> (error + (IpcQueue \<times> Shm)) option" where
  "destroy_queue fuel q h = close_queue fuel q h"

section \<open>Opening\<close>

lemma open_queue_existing:
  assumes "\<not> param_queue_size params > MAX_QUEUE_SIZE_BYTES"
    and "is_power_of_two (param_queue_size params)" "may_open (param_file_name params)"
    and "names h (param_file_name params) = Some k"
  shows "open_queue may_open h params =
    bindE (validate_settings ((IpcQueue_members params)\<lparr>fd := int k\<rparr>) (objects h k)) (\<lambda>q1.
      let (q2, s) = register q1 (objects h k) in Inr (q2, put_mapped q2 s h))"
  using assms by (simp add: open_queue_def IpcQueue_members_def)

lemma reader_joins:
  assumes "\<not> param_queue_size params > MAX_QUEUE_SIZE_BYTES"
    and "is_power_of_two (param_queue_size params)" "may_open (param_file_name params)"
    and "\<not> param_is_writer params"
    and "names h (param_file_name params) = Some k" "magic (global_header (objects h k)) = MAGIC"
    and "seg_readers (objects h k) < 255"
  shows "\<exists>q h'. open_queue may_open h params = Inr (q, h') \<and>
    available_queue_size_bytes q =
      shm_queue_size_bytes (write_fields (global_header (objects h k))) - sizeof_GlobalHeader \<and>
    unat (abs_read_offset q) = seg_hi (objects h k) \<and> fd q = int k \<and>
    seg_readers (objects h' k) = seg_readers (objects h k) + 1 \<and>
    seg_hi (objects h' k) = seg_hi (objects h k) \<and> ring (objects h' k) = ring (objects h k) \<and>
    read_offset_of (objects h' k) = read_offset_of (objects h k) \<and>
    writers_of (objects h' k) = writers_of (objects h k)"
proof -
  let ?s = "objects h k" and ?q = "(IpcQueue_members params)\<lparr>fd := int k\<rparr>"
  have reader: "\<not> is_writer ?q" using assms(4) by (simp add: IpcQueue_members_def)
  have size: "available_queue_size_bytes ?q = queue_size_bytes ?q - sizeof_GlobalHeader"
    by (simp add: IpcQueue_members_def)
  obtain q1 where q1: "validate_settings ?q ?s = Inr q1" "\<not> is_writer q1" "fd q1 = int k"
    "available_queue_size_bytes q1 =
       shm_queue_size_bytes (write_fields (global_header ?s)) - sizeof_GlobalHeader"
    using assms(6) reader size by (simp add: validate_settings_def Let_def)
  let ?p = "return_add_reader (unwrap (packed_of ?s))"
  have "open_queue may_open h params = Inr (q1\<lparr>abs_read_offset := write_offset (snd ?p)\<rparr>,
      put_mapped q1 (set_packed (fst ?p) ?s) h)"
    using open_queue_existing [of params may_open h k] assms q1(1,2)
    by (simp add: register_def modify_readers_def put_mapped_def case_prod_beta)
  moreover have "unat (write_offset (snd ?p)) = seg_hi ?s"
    by (simp add: return_add_reader_def seg_hi_def)
  moreover have "seg_readers (set_packed (fst ?p) ?s) = seg_readers ?s + 1"
    using assms(7) by (simp add: seg_readers_def packed_readers_add)
  ultimately show ?thesis
    using q1 by (simp add: put_mapped_def seg_hi_def packed_frames)
qed

text \<open>
  A reader that opens an existing queue adopts the size the file was created with, whatever it
  asked for, starts at the current write offset, and adds one to the reader count; the ring, the
  write offset, the watermark and the writer count are not touched.
\<close>

lemma reader_joins_existing:
  assumes "\<not> param_queue_size params > MAX_QUEUE_SIZE_BYTES"
    and "is_power_of_two (param_queue_size params)" "may_open (param_file_name params)"
    and "\<not> param_is_writer params"
    and "names h (param_file_name params) = Some k" "magic (global_header (objects h k)) = MAGIC"
    and "seg_readers (objects h k) < 255"
  shows "\<exists>q h'. open_queue may_open h params = Inr (q, h') \<and>
    available_queue_size_bytes q =
      shm_queue_size_bytes (write_fields (global_header (objects h k))) - sizeof_GlobalHeader \<and>
    unat (abs_read_offset q) = seg_hi (objects h k) \<and> fd q = int k \<and>
    seg_readers (objects h' k) = seg_readers (objects h k) + 1 \<and>
    seg_hi (objects h' k) = seg_hi (objects h k) \<and> ring (objects h' k) = ring (objects h k) \<and>
    read_offset_of (objects h' k) = read_offset_of (objects h k) \<and>
    writers_of (objects h' k) = writers_of (objects h k)"
  using assms by (rule reader_joins)

text \<open>The first reader of a name creates the file; a later writer finds it.\<close>

lemma first_reader:
  assumes "\<not> param_queue_size params > MAX_QUEUE_SIZE_BYTES"
    and "is_power_of_two (param_queue_size params)" "may_open (param_file_name params)"
    and "\<not> param_is_writer params" "names h (param_file_name params) = None"
  shows "\<exists>q h'. open_queue may_open h params = Inr (q, h') \<and> fd q = int (next_object h) \<and>
    names h' (param_file_name params) = Some (next_object h) \<and>
    magic (global_header (objects h' (next_object h))) = MAGIC \<and>
    seg_readers (objects h' (next_object h)) = 1"
proof -
  let ?q = "(IpcQueue_members params)\<lparr>fd := int (next_object h)\<rparr>"
  let ?s = "init_new_file ?q"
  let ?s' = "set_packed (fst (return_add_reader (unwrap (packed_of ?s)))) ?s"
  have "packed_of ?s = 0" by (simp add: init_new_file_def packed_of_def)
  then have "seg_readers ?s' = 1"
    using packed_readers_add [of 0]
    by (simp add: seg_readers_def) (simp add: return_add_reader_def unwrap_def repack_def)
  moreover have "magic (global_header ?s') = MAGIC" by (simp add: set_packed_def init_new_file_def)
  moreover have "open_queue may_open h params =
      Inr (?q\<lparr>abs_read_offset := write_offset (snd (return_add_reader (unwrap (packed_of ?s))))\<rparr>,
        shm_create (param_file_name params) ?s' h)"
    using assms by (simp add: open_queue_def register_def modify_readers_def IpcQueue_members_def
        Let_def case_prod_beta)
  ultimately show ?thesis by (simp add: shm_create_def)
qed

lemma next_writer:
  assumes "\<not> param_queue_size params > MAX_QUEUE_SIZE_BYTES"
    and "is_power_of_two (param_queue_size params)" "may_open (param_file_name params)"
    and "param_is_writer params"
    and "names h (param_file_name params) = Some k" "magic (global_header (objects h k)) = MAGIC"
  shows "\<exists>q h'. open_queue may_open h params = Inr (q, h') \<and> fd q = int k \<and>
    names h' = names h \<and> magic (global_header (objects h' k)) = MAGIC \<and>
    seg_readers (objects h' k) = seg_readers (objects h k)"
proof -
  let ?q = "(IpcQueue_members params)\<lparr>fd := int k\<rparr>"
  obtain q1 where "validate_settings ?q (objects h k) = Inr q1" "is_writer q1" "fd q1 = int k"
    using assms(4,6) by (simp add: validate_settings_def Let_def IpcQueue_members_def)
  then show ?thesis
    using open_queue_existing [of params may_open h k] assms
    by (simp add: register_def put_mapped_def set_writers_def seg_readers_def packed_of_def)
qed

definition demo_shm :: Shm where
  "demo_shm = \<lparr>names = [''/q'' \<mapsto> 0], objects = (\<lambda>_. demo_segment 128), next_object = 1\<rparr>"

lemma demo_power: "is_power_of_two 64" "is_power_of_two 128"
  by (simp_all add: is_power_of_two_def)

lemma demo_magic [simp]: "magic (global_header (demo_segment n)) = MAGIC"
  "shm_queue_size_bytes (write_fields (global_header (demo_segment n))) = n + sizeof_GlobalHeader"
  by (simp_all add: demo_segment_def init_new_file_def demo_writer_def IpcQueue_members_def
      demo_params_def)

lemma reader_joins_existing_witness:
  "\<exists>q h'. open_queue (\<lambda>_. True) demo_shm (demo_params 64 False) = Inr (q, h') \<and>
    available_queue_size_bytes q = 128 \<and> seg_readers (objects h' 0) = 1"
  using reader_joins_existing [of "demo_params 64 False" "\<lambda>_. True" demo_shm 0] demo_power
  by (auto simp: demo_params_def demo_shm_def MAX_QUEUE_SIZE_BYTES_def)

section \<open>Closing\<close>

lemma put_mapped_simps [simp]:
  "names (put_mapped q s h) = names h"
  "fd q = int k \<Longrightarrow> objects (put_mapped q s h) k = s"
  "names (shm_unlink f h) = (names h)(f := None)" "objects (shm_unlink f h) = objects h"
  by (simp_all add: put_mapped_def shm_unlink_def)



text \<open>
  Closing twice is closing once: the destructor of a queue that was closed does nothing.
\<close>

lemma close_idempotent:
  assumes "close_queue n q h = Some (Inr (q', h'))"
  shows "destroy_queue m q' h' = Some (Inr (q', h'))"
proof -
  have "fd q' = -1"
    using assms
    by (auto simp: close_queue_def Let_def split: if_splits prod.splits option.splits sum.splits)
  then show ?thesis by (simp add: destroy_queue_def close_queue_def)
qed

lemma close_idempotent_witness:
  "\<exists>q'. destroy_queue 0 q' demo_shm = Some (Inr (q', demo_shm)) \<and> fd q' = -1"
  using close_idempotent [of 0 "demo_reader 64" demo_shm "demo_reader 64" demo_shm 0]
  by (intro exI [of _ "demo_reader 64"])
    (simp add: close_queue_def demo_reader_def IpcQueue_members_def)

text \<open>
  Closing removes a name, not the object that was mapped. A reader that is the last to close
  an old queue, without writers left, unlinks whatever the name refers to by then: a queue that
  was created anew under the same name loses its file.
\<close>

theorem close_unlinks_newer_file:
  assumes "\<not> is_writer q" "fd q = int k" "writers_of (objects h k) = 0"
    and "hdr_commit_flag (ring (objects h k))
      (unat (abs_read_offset q mod available_queue_size_bytes q)) \<noteq> 1"
    and "names h (file_name q) = Some k'" "k' \<noteq> k"
  shows "\<exists>q' h'. close_queue (Suc n) q h = Some (Inr (q', h')) \<and>
    names h' (file_name q) = None \<and> objects h' k' = objects h k'"
proof -
  let ?s = "objects h k"
  let ?p = "return_sub_reader (unwrap (packed_of ?s))"
  let ?s' = "set_packed (fst ?p) ?s"
  have m: "modify_readers False (mapped q h) = (?s', snd ?p)"
    using assms(2) by (simp add: modify_readers_def mapped_def case_prod_beta)
  have "decrement_readers_until (Suc n) q ?s' (write_offset (snd ?p)) = Some (Inr (q, ?s'))"
    using assms(4) by simp
  then have "close_queue (Suc n) q h =
      Some (Inr (q\<lparr>fd := -1\<rparr>, shm_unlink (file_name q) (put_mapped q ?s' h)))"
    using assms(1-3) m
    by (simp add: close_queue_def remove_file_def Let_def del: decrement_readers_until.simps)
  with assms(2,5,6) show ?thesis by (simp add: put_mapped_def)
qed

theorem close_unlinks_newer_file_witness:
  "\<exists>q' h'. close_queue 1 ((demo_reader 128)\<lparr>fd := 0\<rparr>) (demo_shm\<lparr>names := [''/q'' \<mapsto> 1]\<rparr>)
     = Some (Inr (q', h')) \<and> names h' ''/q'' = None"
  using close_unlinks_newer_file [of "(demo_reader 128)\<lparr>fd := 0\<rparr>" 0
      "demo_shm\<lparr>names := [''/q'' \<mapsto> 1]\<rparr>" 1 0]
  by (auto simp: demo_shm_def demo_reader_def IpcQueue_members_def demo_params_def writers_of_def
      demo_segment_def init_new_file_def hdr_commit_flag_def)

end
