(* ===== verification/Archive.thy ===== *)
theory Archive
  imports Ipc_Lifecycle Ipc_Guarantees
begin

text \<open>
  The archive library on top of the queue (message_archive): publications that batch claimed
  buffers until they are committed, subscriptions that hand messages to a callback, the control
  messages, the media driver, and the functions exported to Python.

  A publication relies on two operations of the queue's buffers, a subscription on what the reader
  wrapper does when it is released and destroyed; both contracts are locales, interpreted on the
  definitions of \<open>Ipc_Queue\<close>.
\<close>

section \<open>Publications\<close>

record ArchivePublication =
  pub_queue :: IpcQueue
  to_commit :: "RaiiWrapper list"

definition make_publication :: "IpcQueue \<Rightarrow> ArchivePublication" where
  "make_publication q = \<lparr>pub_queue = q, to_commit = []\<rparr>"

definition pub_is_ready :: "Segment \<Rightarrow> bool" where
  "pub_is_ready s \<longleftrightarrow> IpcQueue_num_readers s > 0"

definition uncommitted_message_count :: "ArchivePublication \<Rightarrow> nat" where
  "uncommitted_message_count p = length (to_commit p)"

definition pub_commit :: "ArchivePublication \<Rightarrow> Segment \<Rightarrow> nat \<times> ArchivePublication \<times> Segment" where
  "pub_commit p s =
     (length (to_commit p), p\<lparr>to_commit := []\<rparr>, foldl wrapper_commit s (to_commit p))"

text \<open>The span handed to the caller, or the claim still waits for the readers.\<close>

datatype PubClaim =
    Pub_Span ArchivePublication Segment "nat \<times> u64"
  | Pub_Waits Segment Ticket

definition pub_claim_buffer ::
    "nat \<Rightarrow> ArchivePublication \<Rightarrow> Segment \<Rightarrow> u64 \<Rightarrow> (error + PubClaim) option" where
  "pub_claim_buffer fuel p s buffer_size =
     (case claim_buffer fuel (pub_queue p) s buffer_size of
        None \<Rightarrow> None
      | Some (Inl e) \<Rightarrow> Some (Inl e)
      | Some (Inr (Must_Wait s' t)) \<Rightarrow> Some (Inr (Pub_Waits s' t))
      | Some (Inr (Claimed s' b)) \<Rightarrow>
          Some (Inr (Pub_Span (p\<lparr>to_commit := to_commit p @ [fst (writer_move b)]\<rparr>) s' (get_as_span b))))"

definition pub_agent_name :: "ArchivePublication \<Rightarrow> string" where
  "pub_agent_name p = IpcQueue_name (pub_queue p)"

definition pub_close ::
    "nat \<Rightarrow> ArchivePublication \<Rightarrow> Shm \<Rightarrow> (error + (ArchivePublication \<times> Shm)) option" where
  "pub_close fuel p h =
     (let (n, p', s) = pub_commit p (mapped (pub_queue p) h) in
      map_option (\<lambda>r. bindE r (\<lambda>(q, h'). Inr (p'\<lparr>pub_queue := q\<rparr>, h')))
        (close_queue fuel (pub_queue p') (put_mapped (pub_queue p) s h)))"

text \<open>
  The class has no destructor of its own: destroying a publication destroys the wrappers, whose
  destructor does nothing, and the queue, which is closed.
\<close>

definition pub_destroy :: "nat \<Rightarrow> ArchivePublication \<Rightarrow> Shm \<Rightarrow> (error + Shm) option" where
  "pub_destroy fuel p h =
     map_option (\<lambda>r. bindE r (\<lambda>(q, h'). Inr h')) (destroy_queue fuel (pub_queue p) h)"

subsection \<open>What a publication needs from its buffers\<close>

locale commit_store =
  fixes commit :: "'s \<Rightarrow> 'b \<Rightarrow> 's"
    and committed :: "'s \<Rightarrow> 'b \<Rightarrow> bool"
    and apart :: "'b \<Rightarrow> 'b \<Rightarrow> bool"
  assumes commit_marks: "committed (commit s b) b"
    and commit_keeps: "committed s b' \<Longrightarrow> committed (commit s b) b'"
    and commit_frame: "apart b b' \<Longrightarrow> committed (commit s b) b' \<longleftrightarrow> committed s b'"
begin

lemma commit_all_keeps: "committed s b \<Longrightarrow> committed (foldl commit s bs) b"
  by (induction bs arbitrary: s) (simp_all add: commit_keeps)

lemma commit_all_marks: "b \<in> set bs \<Longrightarrow> committed (foldl commit s bs) b"
  by (induction bs arbitrary: s) (auto simp: commit_marks commit_all_keeps)

lemma commit_all_frame:
  "(\<And>b. b \<in> set bs \<Longrightarrow> apart b b') \<Longrightarrow> committed (foldl commit s bs) b' \<longleftrightarrow> committed s b'"
  by (induction bs arbitrary: s) (simp_all add: commit_frame)

end

definition is_committed :: "Segment \<Rightarrow> RaiiWrapper \<Rightarrow> bool" where
  "is_committed s b \<longleftrightarrow>
     commit_flag_of_byte (hdr_commit_flag (ring s) (wrapper_data b)) = Some READY_FOR_CONSUMER"

definition other_header :: "RaiiWrapper \<Rightarrow> RaiiWrapper \<Rightarrow> bool" where
  "other_header b b' \<longleftrightarrow> wrapper_data b \<noteq> wrapper_data b'"

interpretation queue_commit: commit_store wrapper_commit is_committed other_header
  by unfold_locales
    (simp_all add: is_committed_def other_header_def wrapper_commit_def commit_buffer_def
      hdr_commit_flag_def set_commit_flag_def)

lemma commit_all_ring:
  "ring (foldl wrapper_commit s bs) i =
     (if \<exists>b\<in>set bs. i = wrapper_data b + 17 then 1 else ring s i)"
  by (induction bs arbitrary: s)
    (auto simp: wrapper_commit_def commit_buffer_def set_commit_flag_def)

lemma commit_all_header: "global_header (foldl wrapper_commit s bs) = global_header s"
  by (induction bs arbitrary: s) (simp_all add: wrapper_commit_def commit_buffer_def)

text \<open>
  C18. Committing a publication publishes exactly its claimed buffers: it returns how many there
  were, every one of them is ready for the consumers, every other buffer of the queue keeps its
  state, no byte but their flags and no field of the header changes, and a second commit publishes
  nothing.
\<close>

theorem pub_commit_publishes:
  assumes "pub_commit p s = (n, p', s')"
  shows "n = uncommitted_message_count p \<and> uncommitted_message_count p' = 0 \<and>
    (\<forall>b\<in>set (to_commit p). is_committed s' b) \<and>
    (\<forall>b'. (\<forall>b\<in>set (to_commit p). other_header b b') \<longrightarrow> is_committed s' b' = is_committed s b') \<and>
    (\<forall>i. (\<forall>b\<in>set (to_commit p). i \<noteq> wrapper_data b + 17) \<longrightarrow> ring s' i = ring s i) \<and>
    global_header s' = global_header s \<and> pub_commit p' s' = (0, p', s')"
proof -
  have p': "p' = p\<lparr>to_commit := []\<rparr>" and s': "s' = foldl wrapper_commit s (to_commit p)"
    and n: "n = length (to_commit p)"
    using assms by (simp_all add: pub_commit_def)
  show ?thesis
    using queue_commit.commit_all_marks queue_commit.commit_all_frame
    by (simp add: p' s' n uncommitted_message_count_def commit_all_ring commit_all_header pub_commit_def)
qed

theorem pub_commit_publishes_witness:
  "is_committed (snd (snd (pub_commit
      ((make_publication (demo_writer 64))\<lparr>to_commit := [\<lparr>wrapper_data = 0, wrapper_size = 20\<rparr>]\<rparr>)
      (demo_segment 64)))) \<lparr>wrapper_data = 0, wrapper_size = 20\<rparr>"
proof -
  let ?p = "(make_publication (demo_writer 64))\<lparr>to_commit := [\<lparr>wrapper_data = 0, wrapper_size = 20\<rparr>]\<rparr>"
  obtain n p' s' where "pub_commit ?p (demo_segment 64) = (n, p', s')" by (metis prod_cases3)
  with pub_commit_publishes [OF this] show ?thesis by simp
qed

text \<open>
  Writing into the span of a claimed buffer and committing the publication is what
  \<open>write_to_buffer\<close> does in one call, for a payload that fills the span: the guarantees of the
  queue hold for publications.
\<close>

lemma span_then_commit_is_write:
  assumes "get_as_span b = (a, len)" "length data = unat len" "18 \<le> unat (wrapper_size b)"
  shows "write_to_buffer s b data = Inr (wrapper_commit (s\<lparr>ring := write_bytes (ring s) a data\<rparr>) b)"
proof -
  have "unat len = unat (wrapper_size b) - 18"
    using assms(1,3) by (auto simp: get_as_span_def unat_sub_u64)
  with assms show ?thesis
    by (auto simp: write_to_buffer_def wrapper_commit_def get_as_span_def)
qed

lemma span_then_commit_is_write_witness:
  "\<exists>s'. write_to_buffer (demo_segment 64) \<lparr>wrapper_data = 0, wrapper_size = 20\<rparr> [1, 2] = Inr s'"
  using span_then_commit_is_write [of "\<lparr>wrapper_data = 0, wrapper_size = 20\<rparr>" 18 2 "[1, 2]"]
  by (simp add: get_as_span_def sizeof_MessageHeader_def)

section \<open>Subscriptions\<close>

datatype FragmentAction = CONTINUE | ABORT

primrec fragment_action_value :: "FragmentAction \<Rightarrow> u8" where
  "fragment_action_value CONTINUE = 0"
| "fragment_action_value ABORT = 1"

text \<open>
  The callback gets the payload and returns a byte, or throws (\<open>None\<close>); it may change a state of
  its own. The outcome of a poll says what the callback was given.
\<close>

type_synonym 'h callback = "'h \<Rightarrow> u8 list \<Rightarrow> 'h \<times> u8 option"

datatype PollOutcome = No_Data | Handled "u8 list" u8 | Threw "u8 list"

text \<open>
  The \<open>switch\<close> of \<open>poll\<close>: the case \<open>ABORT\<close> has no \<open>break\<close> and falls through to the release.
  Leaving the function destroys the wrapper.
\<close>

definition finish_fragment ::
    "u8 \<Rightarrow> IpcQueue \<Rightarrow> Segment \<Rightarrow> ReaderWrapper \<Rightarrow> error + (IpcQueue \<times> Segment)" where
  "finish_fragment code q s r =
     (let r1 = (if code = fragment_action_value ABORT then mark_as_read r else r) in
      bindE (wrapper_release q s r1) (\<lambda>(q', s', r2). wrapper_destruct q' s' r2))"

definition subscription_poll ::
    "nat \<Rightarrow> 'h callback \<Rightarrow> 'h \<Rightarrow> IpcQueue \<Rightarrow> Segment \<Rightarrow>
     (error + ('h \<times> IpcQueue \<times> Segment \<times> PollOutcome)) option" where
  "subscription_poll fuel handler h q s =
     (case poll_buffer fuel q s of
        None \<Rightarrow> None
      | Some (Inl e) \<Rightarrow> Some (Inl e)
      | Some (Inr (q', s', None)) \<Rightarrow> Some (Inr (h, q', s', No_Data))
      | Some (Inr (q', s', Some r)) \<Rightarrow>
          let bytes = get_as_view s' r in
          (case handler h bytes of
             (h', Some code) \<Rightarrow>
               Some (bindE (finish_fragment code q' s' r) (\<lambda>(q2, s2). Inr (h', q2, s2, Handled bytes code)))
           | (h', None) \<Rightarrow>
               Some (bindE (wrapper_destruct q' s' r) (\<lambda>(q2, s2). Inr (h', q2, s2, Threw bytes)))))"

subsection \<open>What a subscription needs from a reader wrapper\<close>

locale fragment_handle =
  fixes release :: "'q \<Rightarrow> 's \<Rightarrow> 'r \<Rightarrow> 'e + ('q \<times> 's \<times> 'r)"
    and destruct :: "'q \<Rightarrow> 's \<Rightarrow> 'r \<Rightarrow> 'e + ('q \<times> 's)"
    and mark :: "'r \<Rightarrow> 'r"
    and done_with :: "'r \<Rightarrow> bool"
  assumes release_ignores_mark: "release q s (mark r) = release q s r"
    and release_done: "release q s r = Inr (q', s', r') \<Longrightarrow> done_with r'"
    and destruct_done: "done_with r \<Longrightarrow> destruct q s r = Inr (q, s)"
    and destruct_pending:
      "\<not> done_with r \<Longrightarrow> destruct q s r =
         (case release q s r of Inl e \<Rightarrow> Inl e | Inr (q', s', r') \<Rightarrow> Inr (q', s'))"
begin

lemma release_then_destruct:
  assumes "\<not> done_with r"
  shows "(case release q s r of Inl e \<Rightarrow> Inl e | Inr (q', s', r') \<Rightarrow> destruct q' s' r') = destruct q s r"
  using destruct_pending [OF assms] release_done destruct_done
  by (auto split: sum.splits)

lemma marked_release_then_destruct:
  assumes "\<not> done_with r"
  shows "(case release q s (mark r) of Inl e \<Rightarrow> Inl e | Inr (q', s', r') \<Rightarrow> destruct q' s' r')
    = destruct q s r"
  unfolding release_ignores_mark by (rule release_then_destruct [OF assms])

end

lemma wrapper_release_marked: "wrapper_release q s (mark_as_read r) = wrapper_release q s r"
  by (simp add: wrapper_release_def mark_as_read_def)

interpretation reader_handle: fragment_handle wrapper_release wrapper_destruct mark_as_read released
proof unfold_locales
  show "wrapper_release q s (mark_as_read r) = wrapper_release q s r" for q s r
    by (rule wrapper_release_marked)
  show "released r'" if "wrapper_release q s r = Inr (q', s', r')" for q s r q' s' r'
    using that by (auto simp: wrapper_release_def bindE_eq_Inr)
  show "wrapper_destruct q s r = Inr (q, s)" if "released r" for q s r
    using that by (simp add: wrapper_destruct_def)
  show "wrapper_destruct q s r = (case wrapper_release q s r of Inl e \<Rightarrow> Inl e
      | Inr (q', s', r') \<Rightarrow> Inr (q', s'))" if "\<not> released r" for q s r
    using that by (simp add: wrapper_destruct_def bindE_def)
qed

lemma finish_fragment_eq:
  assumes "\<not> released r"
  shows "finish_fragment code q s r = wrapper_destruct q s r"
  using reader_handle.release_then_destruct [OF assms, of q s]
    reader_handle.marked_release_then_destruct [OF assms, of q s]
  by (simp add: finish_fragment_def bindE_def Let_def split: sum.splits prod.splits)

lemma poll_once_unreleased:
  "poll_once q s = Inr (Poll_Return q' s' (Some r)) \<Longrightarrow> \<not> released r"
  by (auto simp: poll_once_def mk_reader_wrapper_def Let_def bindE_eq_Inr
      split: if_splits option.splits CommitFlag.splits)

lemma poll_buffer_unreleased:
  "poll_buffer n q s = Some (Inr (q', s', Some r)) \<Longrightarrow> \<not> released r"
  by (induction n arbitrary: q s)
    (auto dest: poll_once_unreleased split: sum.splits PollStep.splits)

text \<open>
  \<open>ABORT\<close> does not keep a message. Whatever byte the callback returns, and also when it throws,
  the queue and the segment after the poll are the same: the message is released and the next poll
  goes on behind it, although the comment in the case \<open>ABORT\<close> says that the bytes are to be read
  again.
\<close>

theorem abort_releases_message:
  assumes "poll_buffer n q s = Some (Inr (q', s', Some r))"
  shows "map_option (\<lambda>x. bindE x (\<lambda>(h', q2, s2, outcome). Inr (q2, s2)))
      (subscription_poll n handler h q s)
    = Some (release_buffer q' s' (wrapper_data r))"
proof -
  have r: "\<not> released r" by (rule poll_buffer_unreleased [OF assms])
  then have "wrapper_destruct q' s' r = release_buffer q' s' (wrapper_data r)"
    by (cases "release_buffer q' s' (wrapper_data r)") (auto simp: wrapper_destruct_def wrapper_release_def)
  then show ?thesis
    by (cases "release_buffer q' s' (wrapper_data r)")
      (auto simp: subscription_poll_def assms finish_fragment_eq [OF r] Let_def
        split: prod.splits option.splits)
qed

theorem abort_releases_message_witness:
  "\<exists>q2 s2. map_option (\<lambda>x. bindE x (\<lambda>(h', q2, s2, outcome). Inr (q2, s2)))
      (subscription_poll 1 (\<lambda>h bytes. (h, Some (fragment_action_value ABORT))) () demo_joined demo_published)
    = Some (Inr (q2, s2)) \<and> reader_at q2 = 46"
proof -
  have "poll_buffer 1 demo_joined demo_published =
      Some (Inr (demo_joined\<lparr>read_message_cnt := 1\<rparr>, demo_published, Some demo_wrapper))"
    by (simp add: demo_poll)
  from abort_releases_message [OF this] demo_release show ?thesis
    by (fastforce simp: wrapper_release_def bindE_eq_Inr)
qed

lemma subscription_run:
  assumes "reachable wq G \<sigma>" "open_readers \<sigma> r = Some q" "held \<sigma> r = None"
    and "no_lapped_abort wq \<sigma>" "seg_hi (seg \<sigma>) - reader_at q < 18 * n"
  shows "\<exists>h' q' outcome \<sigma>'.
    subscription_poll n handler h q (seg \<sigma>) = Some (Inr (h', q', seg \<sigma>', outcome)) \<and>
    reachable wq G \<sigma>' \<and> open_readers \<sigma>' r = Some q' \<and> held \<sigma>' r = None \<and> reader_moved r \<sigma> \<sigma>' \<and>
    (case outcome of
       No_Data \<Rightarrow> h' = h \<and> received \<sigma>' r = received \<sigma> r
     | Handled bytes code \<Rightarrow> handler h bytes = (h', Some code) \<and> received \<sigma>' r = received \<sigma> r @ [bytes]
     | Threw bytes \<Rightarrow> handler h bytes = (h', None) \<and> received \<sigma>' r = received \<sigma> r @ [bytes])"
proof -
  obtain A where R: "refines wq G \<sigma> A" using reachable_refines [OF assms(1)] .
  then have "seg_hi (seg \<sigma>) = s_hi A" by (simp add: refines_def rel_offsets_def)
  then obtain q1 s1 got where poll: "poll_buffer n q (seg \<sigma>) = Some (Inr (q1, s1, got))"
    using poll_buffer_returns [OF R assms(2-4), of n] assms(5) by auto
  then obtain \<sigma>1 where 1: "reachable wq G \<sigma>1" "seg \<sigma>1 = s1" "open_readers \<sigma>1 r = Some q1"
    "held \<sigma>1 r = got" "received \<sigma>1 r = received \<sigma> r" "reader_moved r \<sigma> \<sigma>1"
    using poll_buffer_run [OF assms(1-4)] by blast
  show ?thesis
  proof (cases got)
    case None
    with poll 1 show ?thesis
      by (intro exI [of _ h] exI [of _ q1] exI [of _ No_Data] exI [of _ \<sigma>1])
        (simp add: subscription_poll_def)
  next
    case (Some wr)
    note pending = poll_buffer_unreleased [OF poll [unfolded Some]]
    obtain q2 s2 wr2 \<sigma>2 where rel: "wrapper_release q1 s1 wr = Inr (q2, s2, wr2)"
      and 2: "reachable wq G \<sigma>2" "seg \<sigma>2 = s2" "open_readers \<sigma>2 r = Some q2" "held \<sigma>2 r = None"
        "received \<sigma>2 r = received \<sigma> r @ [get_as_view s1 wr]" "reader_moved r \<sigma>1 \<sigma>2"
      using release_run [OF 1(1,3)] 1(2,4,5) Some by auto
    have moved: "reader_moved r \<sigma> \<sigma>2" using 1(6) 2(6) by (simp add: reader_moved_def)
    have destr: "wrapper_destruct q1 s1 wr = Inr (q2, s2)"
      using rel pending by (simp add: wrapper_destruct_def)
    obtain h' code where h': "handler h (get_as_view s1 wr) = (h', code)" by fastforce
    let ?o = "case code of Some c \<Rightarrow> Handled (get_as_view s1 wr) c | None \<Rightarrow> Threw (get_as_view s1 wr)"
    have "subscription_poll n handler h q (seg \<sigma>) = Some (Inr (h', q2, seg \<sigma>2, ?o))"
      using destr 2(2) h'
      by (cases code) (simp_all add: subscription_poll_def poll Some finish_fragment_eq [OF pending] Let_def)
    moreover have "case ?o of
       No_Data \<Rightarrow> h' = h \<and> received \<sigma>2 r = received \<sigma> r
     | Handled bytes code \<Rightarrow> handler h bytes = (h', Some code) \<and> received \<sigma>2 r = received \<sigma> r @ [bytes]
     | Threw bytes \<Rightarrow> handler h bytes = (h', None) \<and> received \<sigma>2 r = received \<sigma> r @ [bytes]"
      using h' 2(5) by (cases code) simp_all
    ultimately show ?thesis using 2(1,3,4) moved by blast
  qed
qed



section \<open>Owning and closing a subscription\<close>

text \<open>
  The queue is held by a \<open>unique_ptr\<close>: \<open>None\<close> is the null pointer. Resetting it runs the queue's
  destructor.
\<close>

record ArchiveSubscription =
  sub_queue :: "IpcQueue option"

definition sub_is_ready :: "ArchiveSubscription \<Rightarrow> bool" where
  "sub_is_ready sub = True"

definition sub_close ::
    "nat \<Rightarrow> ArchiveSubscription \<Rightarrow> Shm \<Rightarrow> (error + (ArchiveSubscription \<times> Shm)) option" where
  "sub_close fuel sub h =
     (case sub_queue sub of
        None \<Rightarrow> Some (Inr (sub, h))
      | Some q \<Rightarrow>
          (case close_queue fuel q h of
             None \<Rightarrow> None
           | Some (Inl e) \<Rightarrow> Some (Inl e)
           | Some (Inr (q', h')) \<Rightarrow>
               map_option (\<lambda>r. bindE r (\<lambda>(q'', h''). Inr (sub\<lparr>sub_queue := None\<rparr>, h'')))
                 (destroy_queue fuel q' h')))"

definition sub_destroy ::
    "nat \<Rightarrow> ArchiveSubscription \<Rightarrow> Shm \<Rightarrow> (error + (ArchiveSubscription \<times> Shm)) option" where
  "sub_destroy fuel sub h =
     (if sub_queue sub \<noteq> None then sub_close fuel sub h else Some (Inr (sub, h)))"

lemma close_queue_closed: "close_queue n q h = Some (Inr (q', h')) \<Longrightarrow> fd q' = -1"
  by (auto simp: close_queue_def Let_def split: if_splits prod.splits option.splits sum.splits)

text \<open>
  A subscription closes its queue exactly once. \<open>close\<close> has the effect of closing the queue and
  none besides, although it also runs the queue's destructor, and destroying the subscription
  afterwards does nothing.
\<close>

lemma subscription_closes_once:
  assumes "sub_queue sub = Some q" "close_queue n q h = Some (Inr (q', h'))"
  shows "sub_close n sub h = Some (Inr (sub\<lparr>sub_queue := None\<rparr>, h')) \<and>
    sub_destroy m (sub\<lparr>sub_queue := None\<rparr>) h' = Some (Inr (sub\<lparr>sub_queue := None\<rparr>, h')) \<and>
    sub_destroy n sub h = sub_close n sub h"
proof -
  have "destroy_queue n q' h' = Some (Inr (q', h'))"
    using close_queue_closed [OF assms(2)] by (simp add: destroy_queue_def close_queue_def)
  with assms show ?thesis by (simp add: sub_close_def sub_destroy_def)
qed

lemma subscription_closes_once_witness:
  "sub_close 0 \<lparr>sub_queue = Some (demo_reader 64)\<rparr> demo_shm = Some (Inr (\<lparr>sub_queue = None\<rparr>, demo_shm))"
  using subscription_closes_once [of "\<lparr>sub_queue = Some (demo_reader 64)\<rparr>" "demo_reader 64" 0 demo_shm
      "demo_reader 64" demo_shm 0]
  by (simp add: close_queue_def demo_reader_def IpcQueue_members_def)

section \<open>Control messages\<close>

datatype ArchiveMessageType = UNKNOWN | START_RECORDING | STOP_RECORDING

primrec archive_message_type_value :: "ArchiveMessageType \<Rightarrow> nat" where
  "archive_message_type_value UNKNOWN = 0"
| "archive_message_type_value START_RECORDING = 1"
| "archive_message_type_value STOP_RECORDING = 2"

text \<open>The packed structs as the bytes they occupy: type, length and channel, two bytes each.\<close>

definition sizeof_ArchiveMessageHeader :: nat where
  "sizeof_ArchiveMessageHeader = 4"

definition ArchiveMessageHeader_bytes :: "ArchiveMessageType \<Rightarrow> nat \<Rightarrow> u8 list" where
  "ArchiveMessageHeader_bytes t len = le_bytes 2 (archive_message_type_value t) @ le_bytes 2 len"

definition StartArchiveRecording :: "nat \<Rightarrow> u8 list" where
  "StartArchiveRecording channel_id =
     ArchiveMessageHeader_bytes START_RECORDING (sizeof_ArchiveMessageHeader + 2) @ le_bytes 2 channel_id"

definition StopArchiveRecording :: "nat \<Rightarrow> u8 list" where
  "StopArchiveRecording channel_id =
     ArchiveMessageHeader_bytes STOP_RECORDING (sizeof_ArchiveMessageHeader + 2) @ le_bytes 2 channel_id"

definition message_type_of :: "u8 list \<Rightarrow> nat" where
  "message_type_of bytes = le_value (take 2 bytes)"

definition message_length_of :: "u8 list \<Rightarrow> nat" where
  "message_length_of bytes = le_value (take 2 (drop 2 bytes))"

definition channel_id_of :: "u8 list \<Rightarrow> nat" where
  "channel_id_of bytes = le_value (take 2 (drop 4 bytes))"

text \<open>Which case of the driver's \<open>switch\<close> a message takes; none of them does anything yet.\<close>

datatype ControlCase = Start_Case | Stop_Case | Default_Case

definition process_message :: "u8 list \<Rightarrow> ControlCase" where
  "process_message message =
     (if message_type_of message = archive_message_type_value START_RECORDING then Start_Case
      else if message_type_of message = archive_message_type_value STOP_RECORDING then Stop_Case
      else Default_Case)"

text \<open>
  The control messages carry what they should: their length field is the size of the whole
  message, the channel is read back, and the media driver's \<open>switch\<close> tells them apart.
\<close>

lemma control_messages_roundtrip:
  "message_length_of (StartArchiveRecording c) = length (StartArchiveRecording c) \<and>
   message_length_of (StopArchiveRecording c) = length (StopArchiveRecording c) \<and>
   channel_id_of (StartArchiveRecording c) = c mod 2 ^ 16 \<and>
   channel_id_of (StopArchiveRecording c) = c mod 2 ^ 16 \<and>
   process_message (StartArchiveRecording c) = Start_Case \<and>
   process_message (StopArchiveRecording c) = Stop_Case"
  by (simp add: StartArchiveRecording_def StopArchiveRecording_def ArchiveMessageHeader_bytes_def
      message_length_of_def channel_id_of_def message_type_of_def process_message_def
      sizeof_ArchiveMessageHeader_def)

section \<open>The media driver\<close>

text \<open>
  The service flags are those of \<open>common::IApplicationService\<close>, both false at first. \<open>stop\<close> is
  empty. The loop of \<open>run\<close> is bounded by fuel; its result lists the messages it processed.
\<close>

definition DEFAULT_ROTATION_SIZE :: u64 where "DEFAULT_ROTATION_SIZE = push_bit 20 1"

definition DEFAULT_FILE_PATTERN :: string where "DEFAULT_FILE_PATTERN = ''%s_%s.log''"

text \<open>The configuration among the parameters is an argument of the constructor here.\<close>

record MpscArchiveParams =
  rotation_size :: u64
  file_pattern :: string

record MpscArchiveMediaDriver =
  driver_params :: MpscArchiveParams
  initialized :: bool
  running :: bool
  driver_queue :: IpcQueue

definition DEFAULT_SHM_NAME :: string where
  "DEFAULT_SHM_NAME = ''/dev/shm/media_driver_ctrl''"

definition make_driver :: "MpscArchiveParams \<Rightarrow> IpcQueue \<Rightarrow> MpscArchiveMediaDriver" where
  "make_driver p q =
     \<lparr>driver_params = p, initialized = False, running = False, driver_queue = q\<rparr>"

text \<open>\<open>lookup\<close> is the configuration: \<open>None\<close> where the library throws.\<close>

definition config_lookup :: "(string \<rightharpoonup> 'a) \<Rightarrow> string \<Rightarrow> error + 'a" where
  "config_lookup lookup key =
     (case lookup key of None \<Rightarrow> Inl Config_Lookup_Failed | Some v \<Rightarrow> Inr v)"

definition driver_queue_params :: "u64 \<Rightarrow> IpcQueueParameters" where
  "driver_queue_params queue_size =
     \<lparr>param_file_name = DEFAULT_SHM_NAME, param_queue_size = queue_size,
      param_is_writer = False, param_agent_name = ''''\<rparr>"

definition open_driver ::
    "(string \<Rightarrow> bool) \<Rightarrow> MpscArchiveParams \<Rightarrow> (string \<rightharpoonup> u64) \<Rightarrow> Shm \<Rightarrow>
     error + (MpscArchiveMediaDriver \<times> Shm)" where
  "open_driver may_open p lookup h =
     bindE (config_lookup lookup ''mpsc_queue.queue_size'') (\<lambda>queue_size.
     bindE (open_queue may_open h (driver_queue_params queue_size)) (\<lambda>(q, h').
       Inr (make_driver p q, h')))"

definition driver_start :: "MpscArchiveMediaDriver \<Rightarrow> MpscArchiveMediaDriver" where
  "driver_start d = d\<lparr>initialized := True\<rparr>"

definition driver_stop :: "MpscArchiveMediaDriver \<Rightarrow> MpscArchiveMediaDriver" where
  "driver_stop d = d"

fun driver_run ::
    "nat \<Rightarrow> (nat \<Rightarrow> Segment \<Rightarrow> Segment) \<Rightarrow> MpscArchiveMediaDriver \<Rightarrow> Segment \<Rightarrow>
     (error + (MpscArchiveMediaDriver \<times> Segment \<times> ControlCase list)) option" where
  "driver_run 0 others d s = None"
| "driver_run (Suc n) others d s =
     (if \<not> running d then Some (Inr (d, s, []))
      else case poll_buffer (Suc n) (driver_queue d) s of
        None \<Rightarrow> None
      | Some (Inl e) \<Rightarrow> Some (Inl e)
      | Some (Inr (q', s', None)) \<Rightarrow> driver_run n others (d\<lparr>driver_queue := q'\<rparr>) (others n s')
      | Some (Inr (q', s', Some r)) \<Rightarrow>
          let c = process_message (get_as_view s' r) in
          (case wrapper_destruct q' s' r of
             Inl e \<Rightarrow> Some (Inl e)
           | Inr (q2, s2) \<Rightarrow>
               map_option (map_sum id (\<lambda>(d', s3, cs). (d', s3, c # cs)))
                 (driver_run n others (d\<lparr>driver_queue := q2\<rparr>) (others n s2))))"

text \<open>
  The media driver never processes a message. Neither its constructor nor \<open>start\<close> sets
  \<open>running\<close>, so \<open>run\<close> returns at once, whatever is in its queue.
\<close>

lemma driver_never_polls:
  assumes "open_driver may_open p lookup h = Inr (d, h')"
  shows "driver_run (Suc n) others (driver_start d) s = Some (Inr (driver_start d, s, []))"
  using assms by (auto simp: open_driver_def bindE_eq_Inr driver_start_def make_driver_def)

text \<open>
  The name of the driver's queue has three slashes. A system whose \<open>shm_open\<close> rejects such names,
  as that of Linux does, never gives a driver.
\<close>

lemma driver_name_rejected:
  assumes "\<And>name. may_open name \<Longrightarrow> CHR ''/'' \<notin> set (tl name)"
  shows "\<exists>e. open_driver may_open p lookup h = Inl e"
proof -
  have "\<not> may_open DEFAULT_SHM_NAME"
    using assms [of DEFAULT_SHM_NAME] by (auto simp: DEFAULT_SHM_NAME_def)
  then show ?thesis
    by (auto simp: open_driver_def open_queue_def driver_queue_params_def config_lookup_def Let_def
        split: option.splits)
qed

section \<open>The functions exported to Python\<close>

text \<open>
  message_archive/python_wrapper.cpp. The subscription functions swallow exceptions, the
  publication functions let them pass; a failed assertion ends the process in both.
\<close>

definition c_params :: "string \<Rightarrow> u64 \<Rightarrow> bool \<Rightarrow> string \<Rightarrow> IpcQueueParameters" where
  "c_params queue_name queue_size writer agent =
     \<lparr>param_file_name = queue_name, param_queue_size = queue_size, param_is_writer = writer,
      param_agent_name = agent\<rparr>"

definition archive_force_close :: "string \<Rightarrow> Shm \<Rightarrow> Shm" where
  "archive_force_close queue_name h = shm_unlink queue_name h"

definition archive_pub_create ::
    "(string \<Rightarrow> bool) \<Rightarrow> Shm \<Rightarrow> string \<Rightarrow> u64 \<Rightarrow> string \<Rightarrow> error + (ArchivePublication \<times> Shm)" where
  "archive_pub_create may_open h queue_name queue_size agent =
     bindE (open_queue may_open h (c_params queue_name queue_size True agent))
       (\<lambda>(q, h'). Inr (make_publication q, h'))"

definition archive_pub_is_ready :: "ArchivePublication \<Rightarrow> Shm \<Rightarrow> bool" where
  "archive_pub_is_ready p h = pub_is_ready (mapped (pub_queue p) h)"

definition archive_pub_claim ::
    "nat \<Rightarrow> ArchivePublication \<Rightarrow> Segment \<Rightarrow> u64 \<Rightarrow> (error + PubClaim) option" where
  "archive_pub_claim fuel p s n = pub_claim_buffer fuel p s n"

definition archive_pub_close ::
    "nat \<Rightarrow> ArchivePublication \<Rightarrow> Shm \<Rightarrow> (error + (ArchivePublication \<times> Shm)) option" where
  "archive_pub_close fuel p h = pub_close fuel p h"

definition archive_pub_destroy :: "nat \<Rightarrow> ArchivePublication \<Rightarrow> Shm \<Rightarrow> (error + Shm) option" where
  "archive_pub_destroy fuel p h = pub_destroy fuel p h"

definition archive_pub_commit :: "ArchivePublication \<Rightarrow> Shm \<Rightarrow> nat \<times> ArchivePublication \<times> Shm" where
  "archive_pub_commit p h =
     (let (n, p', s) = pub_commit p (mapped (pub_queue p) h)
      in (n, p', put_mapped (pub_queue p) s h))"

definition archive_sub_create ::
    "(string \<Rightarrow> bool) \<Rightarrow> Shm \<Rightarrow> string \<Rightarrow> u64 \<Rightarrow> string \<Rightarrow> error + (ArchiveSubscription \<times> Shm)" where
  "archive_sub_create may_open h queue_name queue_size agent =
     bindE (open_queue may_open h (c_params queue_name queue_size False agent))
       (\<lambda>(q, h'). Inr (\<lparr>sub_queue = Some q\<rparr>, h'))"

definition archive_sub_is_ready :: "ArchiveSubscription \<Rightarrow> bool" where
  "archive_sub_is_ready sub = sub_is_ready sub"

text \<open>\<open>catch (...)\<close>: an exception leaves \<open>unchanged\<close>, a failed assertion is not an exception.\<close>

definition swallow :: "'a \<Rightarrow> error + 'a \<Rightarrow> error + 'a" where
  "swallow unchanged r =
     (case r of
        Inr x \<Rightarrow> Inr x
      | Inl (Assert_Failed w) \<Rightarrow> Inl (Assert_Failed w)
      | Inl e \<Rightarrow> Inr unchanged)"

text \<open>
  The only exception \<open>poll\<close> throws itself is the one at the start of \<open>poll_buffer\<close>, before
  anything changed. An exception of the handler is swallowed after the reader wrapper was
  destroyed.
\<close>

definition archive_sub_poll ::
    "nat \<Rightarrow> 'h callback \<Rightarrow> 'h \<Rightarrow> IpcQueue \<Rightarrow> Segment \<Rightarrow>
     (error + ('h \<times> IpcQueue \<times> Segment)) option" where
  "archive_sub_poll fuel handler h q s =
     map_option (\<lambda>r. swallow (h, q, s)
         (bindE r (\<lambda>(h', q', s', outcome). Inr (h', q', s'))))
       (subscription_poll fuel handler h q s)"

definition archive_sub_close ::
    "nat \<Rightarrow> ArchiveSubscription \<Rightarrow> Shm \<Rightarrow> (error + (ArchiveSubscription \<times> Shm)) option" where
  "archive_sub_close fuel sub h = map_option (swallow (sub, h)) (sub_close fuel sub h)"

definition archive_sub_destroy ::
    "nat \<Rightarrow> ArchiveSubscription \<Rightarrow> Shm \<Rightarrow> (error + (ArchiveSubscription \<times> Shm)) option" where
  "archive_sub_destroy fuel sub h = map_option (swallow (sub, h)) (sub_destroy fuel sub h)"

text \<open>
  C35. A publication and a subscription created through the C functions on a fresh name meet: the
  subscription adopts the publication's queue, starts where the publication will write first, and
  the publication is ready from then on and not before.
\<close>

theorem c_api_pub_sub_meet:
  assumes "is_power_of_two n1" "\<not> n1 > MAX_QUEUE_SIZE_BYTES"
    and "is_power_of_two n2" "\<not> n2 > MAX_QUEUE_SIZE_BYTES"
    and "may_open name" "names h name = None"
  shows "\<exists>p h1 sub q h2. archive_pub_create may_open h name n1 a = Inr (p, h1) \<and>
    \<not> archive_pub_is_ready p h1 \<and>
    archive_sub_create may_open h1 name n2 b = Inr (sub, h2) \<and> sub_queue sub = Some q \<and>
    available_queue_size_bytes q = n1 \<and> abs_read_offset q = 0 \<and> fd q = fd (pub_queue p) \<and>
    archive_pub_is_ready p h2"
proof -
  let ?q = "(IpcQueue_members (c_params name n1 True a))\<lparr>fd := int (next_object h)\<rparr>"
  let ?s = "set_writers 1 (init_new_file ?q)"
  let ?h1 = "shm_create name ?s h"
  let ?k = "next_object h"
  have w0: "writers_of (init_new_file ?q) = 0" by (simp add: writers_of_def init_new_file_def)
  have created: "archive_pub_create may_open h name n1 a = Inr (make_publication ?q, ?h1)"
    using assms w0 by (simp add: archive_pub_create_def open_queue_def c_params_def Let_def register_def
        IpcQueue_members_def)
  have m: "names ?h1 name = Some ?k" "objects ?h1 ?k = ?s" "magic (global_header ?s) = MAGIC"
    "packed_of ?s = 0"
    "shm_queue_size_bytes (write_fields (global_header ?s)) = n1 + sizeof_GlobalHeader"
    by (simp_all add: shm_create_def set_writers_def init_new_file_def packed_of_def
        IpcQueue_members_def c_params_def)
  have r0: "seg_readers ?s = 0" "seg_hi ?s = 0"
    using m(4) by (simp_all add: seg_readers_def seg_hi_def unat_num_readers_unwrap unat_write_offset_unwrap)
  have "\<not> archive_pub_is_ready (make_publication ?q) ?h1"
    using m(2,4) by (simp add: archive_pub_is_ready_def pub_is_ready_def mapped_def make_publication_def
        IpcQueue_num_readers_def unwrap_def)
  moreover obtain q h2 where sub: "open_queue may_open ?h1 (c_params name n2 False b) = Inr (q, h2)"
    "available_queue_size_bytes q = n1" "unat (abs_read_offset q) = 0" "fd q = int ?k"
    "seg_readers (objects h2 ?k) = 1"
    using reader_joins [of "c_params name n2 False b" may_open ?h1 ?k] assms m r0
    by (auto simp: c_params_def)
  moreover have "archive_pub_is_ready (make_publication ?q) h2"
    using sub(5) by (simp add: archive_pub_is_ready_def pub_is_ready_def mapped_def make_publication_def
        IpcQueue_num_readers_def seg_readers_def word_less_nat_alt)
  ultimately show ?thesis
    using created
    by (intro exI [of _ "make_publication ?q"] exI [of _ ?h1] exI [of _ "\<lparr>sub_queue = Some q\<rparr>"]
        exI [of _ q] exI [of _ h2])
      (simp add: archive_sub_create_def make_publication_def unat_eq_0)
qed

theorem c_api_pub_sub_meet_witness:
  "\<exists>p h1. archive_pub_create (\<lambda>_. True) (demo_shm\<lparr>names := Map.empty\<rparr>) ''/q'' 64 ''a'' = Inr (p, h1) \<and>
    \<not> archive_pub_is_ready p h1"
  using c_api_pub_sub_meet [of 64 128 "\<lambda>_. True" "''/q''" "demo_shm\<lparr>names := Map.empty\<rparr>" "''a''" "''b''"]
    demo_power
  by (auto simp: MAX_QUEUE_SIZE_BYTES_def)

end
