(* ===== verification/Order_Book.thy ===== *)
theory Order_Book
  imports Prelude
begin

text \<open>
  The order book of a product (ledger/Book.cpp with its headers): price levels that know the ids of
  their orders and the sum of their quantities, active orders, and products.
\<close>

section \<open>Orders, levels, books\<close>

text \<open>An order refers to its product; the reference is the key of the product.\<close>

record ActiveOrder =
  order_product :: u64
  order_id :: u64
  unscaled_price :: u64
  scaling_factor :: u64
  quantity :: u64
  is_bid :: bool

text \<open>
  The constructor has no initialiser for the member \<open>quantity\<close>: whatever quantity it is given, the
  member keeps what the memory held, \<open>junk\<close>.
\<close>

definition make_ActiveOrder ::
    "u64 \<Rightarrow> u64 \<Rightarrow> u64 \<Rightarrow> u64 \<Rightarrow> u64 \<Rightarrow> u64 \<Rightarrow> bool \<Rightarrow> ActiveOrder" where
  "make_ActiveOrder junk product oid price price_factor qty bid =
     \<lparr>order_product = product, order_id = oid, unscaled_price = price, scaling_factor = price_factor,
      quantity = junk, is_bid = bid\<rparr>"

text \<open>
  What the accessors of an order answer. \<open>get_scaled_price\<close> multiplies by a power of ten in floating
  point and has no counterpart here.
\<close>

definition get_order_id :: "ActiveOrder \<Rightarrow> u64" where "get_order_id ord = order_id ord"

definition get_quantity :: "ActiveOrder \<Rightarrow> u64" where "get_quantity ord = quantity ord"

definition get_is_bid :: "ActiveOrder \<Rightarrow> bool" where "get_is_bid ord = is_bid ord"

definition get_unscaled_price :: "ActiveOrder \<Rightarrow> u64" where "get_unscaled_price ord = unscaled_price ord"

definition get_product :: "ActiveOrder \<Rightarrow> u64" where "get_product ord = order_product ord"

record PriceLevel =
  price :: u64
  price_factor :: u64
  order_ids :: "u64 set"
  total_count :: u64

record Book =
  bids :: "PriceLevel list"
  asks :: "PriceLevel list"

record Product =
  exchange_symbol :: string
  book :: Book

definition make_Product :: "string \<Rightarrow> Product" where
  "make_Product symbol = \<lparr>exchange_symbol = symbol, book = \<lparr>bids = [], asks = []\<rparr>\<rparr>"

definition get_book :: "Product \<Rightarrow> Book" where "get_book p = book p"

definition get_exchange_symbol :: "Product \<Rightarrow> string" where "get_exchange_symbol p = exchange_symbol p"

section \<open>Operations\<close>

fun remove_order_from_side :: "PriceLevel list \<Rightarrow> ActiveOrder \<Rightarrow> PriceLevel list \<times> bool" where
  "remove_order_from_side [] ord = ([], False)"
| "remove_order_from_side (level # levels) ord =
     (if order_id ord \<in> order_ids level then
        let level' = level\<lparr>order_ids := order_ids level - {order_id ord}\<rparr>;
            qty = quantity ord in
        (if qty \<ge> total_count level' then levels
         else level'\<lparr>total_count := total_count level' - qty\<rparr> # levels, True)
      else let (levels', found) = remove_order_from_side levels ord in (level # levels', found))"

text \<open>The body of \<open>add_order_to_side\<close> is commented out.\<close>

definition add_order_to_side :: "PriceLevel list \<Rightarrow> ActiveOrder \<Rightarrow> PriceLevel list \<times> bool" where
  "add_order_to_side levels ord = (levels, False)"

definition erase_order :: "Book \<Rightarrow> ActiveOrder \<Rightarrow> Book \<times> bool" where
  "erase_order b ord =
     (if is_bid ord then
        let (levels, found) = remove_order_from_side (bids b) ord in (b\<lparr>bids := levels\<rparr>, found)
      else
        let (levels, found) = remove_order_from_side (asks b) ord in (b\<lparr>asks := levels\<rparr>, found))"

definition add_order :: "Book \<Rightarrow> ActiveOrder \<Rightarrow> Book \<times> bool" where
  "add_order b ord =
     (if is_bid ord then
        let (levels, found) = add_order_to_side (bids b) ord in (b\<lparr>bids := levels\<rparr>, found)
      else
        let (levels, found) = add_order_to_side (asks b) ord in (b\<lparr>asks := levels\<rparr>, found))"

section \<open>Accounting\<close>

text \<open>
  A side is consistent with the quantities \<open>qty\<close> of the orders when every level counts its orders,
  no level is empty, and no order is on two levels.
\<close>

definition level_ok :: "(u64 \<Rightarrow> nat) \<Rightarrow> PriceLevel \<Rightarrow> bool" where
  "level_ok qty l \<longleftrightarrow>
     finite (order_ids l) \<and> order_ids l \<noteq> {} \<and> unat (total_count l) = sum qty (order_ids l)"

fun side_ok :: "(u64 \<Rightarrow> nat) \<Rightarrow> PriceLevel list \<Rightarrow> bool" where
  "side_ok qty [] \<longleftrightarrow> True"
| "side_ok qty (l # ls) \<longleftrightarrow>
     level_ok qty l \<and> order_ids l \<inter> \<Union> (order_ids ` set ls) = {} \<and> side_ok qty ls"

definition side_orders :: "PriceLevel list \<Rightarrow> u64 set" where
  "side_orders ls = \<Union> (order_ids ` set ls)"

definition side_total :: "PriceLevel list \<Rightarrow> nat" where
  "side_total ls = (\<Sum>l\<leftarrow>ls. unat (total_count l))"

lemma side_orders_simps [simp]:
  "side_orders [] = {}" "side_orders (l # ls) = order_ids l \<union> side_orders ls"
  by (simp_all add: side_orders_def)

lemma side_total_simps [simp]:
  "side_total [] = 0" "side_total (l # ls) = unat (total_count l) + side_total ls"
  by (simp_all add: side_total_def)

lemma remove_absent:
  "order_id ord \<notin> side_orders ls \<Longrightarrow> remove_order_from_side ls ord = (ls, False)"
  by (induction ls) simp_all

text \<open>Removing one order from its level: the level goes exactly when it was its only order.\<close>

lemma level_without:
  assumes "level_ok qty l" "i \<in> order_ids l" "\<forall>j. 0 < qty j"
  shows "qty i \<le> unat (total_count l)"
    and "unat (total_count l) \<le> qty i \<longleftrightarrow> order_ids l = {i}"
    and "unat (total_count l) - qty i = sum qty (order_ids l - {i})"
proof -
  have total: "unat (total_count l) = qty i + sum qty (order_ids l - {i})"
    using assms(1,2) sum.remove [of "order_ids l" i qty] by (simp add: level_ok_def)
  have "sum qty (order_ids l - {i}) = 0 \<longleftrightarrow> (\<forall>j\<in>order_ids l - {i}. qty j = 0)"
    using assms(1) by (simp add: level_ok_def)
  also have "\<dots> \<longleftrightarrow> order_ids l - {i} = {}"
    using assms(3) by (metis all_not_in_conv less_irrefl)
  finally have "sum qty (order_ids l - {i}) = 0 \<longleftrightarrow> order_ids l - {i} = {}" .
  with total show "unat (total_count l) \<le> qty i \<longleftrightarrow> order_ids l = {i}"
    using assms(2) by auto
  from total show "qty i \<le> unat (total_count l)"
    "unat (total_count l) - qty i = sum qty (order_ids l - {i})" by simp_all
qed

lemma remove_present:
  assumes "side_ok qty ls" "order_id ord \<in> side_orders ls" "\<forall>j. 0 < qty j"
    and "unat (quantity ord) = qty (order_id ord)"
  shows "\<exists>ls'. remove_order_from_side ls ord = (ls', True) \<and> side_ok qty ls' \<and>
    side_orders ls' = side_orders ls - {order_id ord} \<and>
    side_total ls' + unat (quantity ord) = side_total ls"
  using assms(1,2)
proof (induction ls)
  case Nil
  then show ?case by simp
next
  case (Cons l ls)
  let ?i = "order_id ord"
  have ok: "level_ok qty l" and apart: "order_ids l \<inter> side_orders ls = {}" and rest: "side_ok qty ls"
    using Cons.prems(1) by (simp_all add: side_orders_def)
  show ?case
  proof (cases "?i \<in> order_ids l")
    case True
    note lw = level_without [OF ok True assms(3)]
    have absent: "?i \<notin> side_orders ls" using apart True by blast
    show ?thesis
    proof (cases "total_count l \<le> quantity ord")
      case gone: True
      then have "order_ids l = {?i}" using lw(2) assms(4) by (simp add: word_le_nat_alt)
      moreover have "unat (total_count l) = unat (quantity ord)"
        using gone lw(1) assms(4) by (simp add: word_le_nat_alt)
      ultimately show ?thesis
        using True gone rest absent by simp
    next
      case False
      let ?l = "l\<lparr>order_ids := order_ids l - {?i}, total_count := total_count l - quantity ord\<rparr>"
      have le: "unat (quantity ord) \<le> unat (total_count l)" using lw(1) assms(4) by simp
      then have "unat (total_count l - quantity ord) = unat (total_count l) - unat (quantity ord)"
        by (rule unat_sub_u64)
      moreover have "order_ids l \<noteq> {?i}" using False lw(2) assms(4) by (simp add: word_le_nat_alt)
      ultimately have "level_ok qty ?l"
        using ok lw(3) assms(4) True by (auto simp: level_ok_def)
      moreover have "order_ids ?l \<inter> side_orders ls = {}" using apart by auto
      moreover have "remove_order_from_side (l # ls) ord = (?l # ls, True)" using True False by simp
      moreover have "side_orders (?l # ls) = side_orders (l # ls) - {?i}" using absent by auto
      moreover have "side_total (?l # ls) + unat (quantity ord) = side_total (l # ls)"
        using le unat_sub_u64 [OF le] by simp
      ultimately show ?thesis using rest by (simp add: side_orders_def)
    qed
  next
    case False
    with Cons obtain ls' where IH: "remove_order_from_side ls ord = (ls', True)" "side_ok qty ls'"
      "side_orders ls' = side_orders ls - {?i}" "side_total ls' + unat (quantity ord) = side_total ls"
      by auto
    with False ok apart show ?thesis by (auto simp: side_orders_def [symmetric])
  qed
qed

definition book_side :: "bool \<Rightarrow> Book \<Rightarrow> PriceLevel list" where
  "book_side bid b = (if bid then bids b else asks b)"

lemma erased_book:
  assumes "side_ok qty (book_side (is_bid ord) b)" "\<forall>j. 0 < qty j"
    and "unat (quantity ord) = qty (order_id ord)"
    and "erase_order b ord = (b', found)"
  shows "side_ok qty (book_side (is_bid ord) b') \<and>
    found = (order_id ord \<in> side_orders (book_side (is_bid ord) b)) \<and>
    side_orders (book_side (is_bid ord) b') = side_orders (book_side (is_bid ord) b) - {order_id ord} \<and>
    side_total (book_side (is_bid ord) b') + (if found then unat (quantity ord) else 0)
      = side_total (book_side (is_bid ord) b) \<and>
    book_side (\<not> is_bid ord) b' = book_side (\<not> is_bid ord) b \<and>
    (\<not> found \<longrightarrow> b' = b)"
proof (cases "order_id ord \<in> side_orders (book_side (is_bid ord) b)")
  case True
  from remove_present [OF assms(1) True assms(2,3)]
  obtain ls' where r: "remove_order_from_side (book_side (is_bid ord) b) ord = (ls', True)"
    and ls': "side_ok qty ls'" "side_orders ls' = side_orders (book_side (is_bid ord) b) - {order_id ord}"
    "side_total ls' + unat (quantity ord) = side_total (book_side (is_bid ord) b)" by blast
  have "found" "book_side (is_bid ord) b' = ls'"
    "book_side (\<not> is_bid ord) b' = book_side (\<not> is_bid ord) b"
    using r assms(4) by (cases "is_bid ord"; force simp: erase_order_def book_side_def)+
  with True ls' show ?thesis by simp
next
  case False
  then have "\<not> found" "b' = b"
    using remove_absent [OF False] assms(4)
    by (cases "is_bid ord"; force simp: erase_order_def book_side_def)+
  with False assms(1) show ?thesis by simp
qed

text \<open>
  C21. Cancelling keeps the books. On a side whose levels count their orders, erasing an order that
  carries its own quantity removes that order and no other, takes its quantity off the total,
  keeps the accounting of every level, and does not touch the other side; it reports whether the
  order was there, and an order that is not there leaves the book as it was. A level disappears
  exactly when its last order does, because the invariant is kept.
\<close>

theorem erase_order_keeps_accounting:
  assumes "side_ok qty (book_side (is_bid ord) b)" "\<forall>j. 0 < qty j"
    and "unat (quantity ord) = qty (order_id ord)"
    and "erase_order b ord = (b', found)"
  shows "side_ok qty (book_side (is_bid ord) b') \<and>
    found = (order_id ord \<in> side_orders (book_side (is_bid ord) b)) \<and>
    side_orders (book_side (is_bid ord) b') = side_orders (book_side (is_bid ord) b) - {order_id ord} \<and>
    side_total (book_side (is_bid ord) b') + (if found then unat (quantity ord) else 0)
      = side_total (book_side (is_bid ord) b) \<and>
    book_side (\<not> is_bid ord) b' = book_side (\<not> is_bid ord) b \<and>
    (\<not> found \<longrightarrow> b' = b)"
  using assms by (rule erased_book)

definition demo_book :: Book where
  "demo_book = \<lparr>bids = [\<lparr>price = 10, price_factor = 0, order_ids = {1, 2}, total_count = 12\<rparr>], asks = []\<rparr>"

definition demo_order :: ActiveOrder where
  "demo_order = \<lparr>order_product = 7, order_id = 1, unscaled_price = 10, scaling_factor = 0,
     quantity = 5, is_bid = True\<rparr>"

theorem erase_order_keeps_accounting_witness:
  "side_orders (bids (fst (erase_order demo_book demo_order))) = {2}"
proof -
  let ?qty = "\<lambda>i :: u64. if i = 1 then 5 else 7 :: nat"
  obtain b' found where "erase_order demo_book demo_order = (b', found)" by fastforce
  with erase_order_keeps_accounting [of ?qty demo_order demo_book b' found] show ?thesis
    by (auto simp: demo_book_def demo_order_def book_side_def level_ok_def)
qed

text \<open>
  An order built by the constructor does not carry its quantity. Whatever quantity it was made
  with, if the uninitialised member happens to hold a number as large as the level's total, erasing
  the order throws away the whole level: the other orders of that price are in no level any more.
\<close>

lemma unset_quantity_drops_level:
  assumes "oid \<in> order_ids l" "total_count l \<le> junk" "other \<in> order_ids l" "other \<noteq> oid"
    and "order_ids l \<inter> side_orders ls = {}"
    and "erase_order \<lparr>bids = l # ls, asks = bs\<rparr> (make_ActiveOrder junk p oid pr f qty True) = (b', found)"
  shows "found \<and> other \<notin> side_orders (bids b') \<and> bids b' = ls"
  using assms by (auto simp: erase_order_def make_ActiveOrder_def)

lemma unset_quantity_drops_level_witness:
  "bids (fst (erase_order demo_book (make_ActiveOrder 99 7 1 10 0 5 True))) = []"
  using unset_quantity_drops_level [of 1 "\<lparr>price = 10, price_factor = 0, order_ids = {1, 2}, total_count = 12\<rparr>"
      99 2 "[]" "[]" 7 10 0 5]
  by (cases "erase_order demo_book (make_ActiveOrder 99 7 1 10 0 5 True)") (simp add: demo_book_def)

text \<open>
  Nothing enters a book: \<open>add_order\<close> is a stub that reports failure and leaves the book alone,
  so a book that starts empty stays empty under any sequence of additions and erasures.
\<close>

lemma books_stay_empty:
  "let run = foldl (\<lambda>b (add, ord). fst (if add then add_order b ord else erase_order b ord)) in
   run (book (make_Product symbol)) ops = book (make_Product symbol)"
  unfolding Let_def
  by (induction ops)
    (auto simp: make_Product_def add_order_def add_order_to_side_def erase_order_def)

end
