(* ===== verification/Ledger.thy ===== *)
theory Ledger
  imports Order_Book Archive
begin

text \<open>
  The ledger service (ledger/Ledger.cpp): it reads order messages from a subscription and keeps
  products and active orders.

  The SBE accessors are generated from sbe_messages/public/sbe/order_entry.xml when the project is
  built, so they are a parameter; the template ids are those of the schema.
\<close>

section \<open>State\<close>

record Ledger =
  products :: "u64 \<rightharpoonup> Product"
  active_orders :: "u64 \<rightharpoonup> ActiveOrder"

text \<open>The constructor opens the database; \<open>r\<close> is what \<open>sqlite3_open\<close> answers.\<close>

definition make_ManagedDb :: "int \<Rightarrow> error + unit" where
  "make_ManagedDb r = (if r \<noteq> 0 then Inl Db_Open_Failed else Inr ())"

definition make_Ledger :: "int \<Rightarrow> error + Ledger" where
  "make_Ledger r =
     bindE (make_ManagedDb r) (\<lambda>_. Inr \<lparr>products = Map.empty, active_orders = Map.empty\<rparr>)"

text \<open>
  The code does not wrap a message in a flyweight, it takes the address of its bytes for that of one
  (\<open>reinterpret_cast\<close>). An accessor then finds its members in the bytes of the message, and in what
  follows them when the message is shorter than the object; among the members is the pointer to the
  buffer to decode, so the accessor reads from wherever the bytes point to. What it answers depends
  on the memory of the process at that moment, \<open>'w\<close>, and it may fault: \<open>None\<close>.
\<close>

record 'w SbeCodec =
  templateId :: "'w \<Rightarrow> u8 list \<Rightarrow> nat option"
  new_order_symbolId :: "'w \<Rightarrow> u8 list \<Rightarrow> u64 option"
  cancel_order_symbolId :: "'w \<Rightarrow> u8 list \<Rightarrow> u64 option"
  cancel_order_orderId :: "'w \<Rightarrow> u8 list \<Rightarrow> u64 option"
  replace_order_orderId :: "'w \<Rightarrow> u8 list \<Rightarrow> u64 option"

text \<open>What the memory holds at the first, second and later reads of a handler.\<close>

type_synonym 'w reads = "nat \<Rightarrow> 'w"

definition NewOrderSingle_templateId :: nat where "NewOrderSingle_templateId = 1"

definition CancelOrder_templateId :: nat where "CancelOrder_templateId = 2"

definition ReplaceOrder_templateId :: nat where "ReplaceOrder_templateId = 3"

definition AgentStartup_templateId :: nat where "AgentStartup_templateId = 103"

text \<open>What a handler logs tells its branches apart.\<close>

datatype LedgerLog =
    Unknown_Product u64
  | Unknown_Order u64
  | Cancelled_Order u64
  | Unsupported_Template nat
  | Unknown_Template nat

section \<open>Handlers\<close>

text \<open>A read that faults ends the process: \<open>None\<close>.\<close>

definition process_new_order ::
    "'w SbeCodec \<Rightarrow> 'w reads \<Rightarrow> u8 list \<Rightarrow> Ledger \<Rightarrow> (Ledger \<times> LedgerLog option) option" where
  "process_new_order sbe m bytes l =
     (case new_order_symbolId sbe (m 0) bytes of
        None \<Rightarrow> None
      | Some symbol_id \<Rightarrow>
          if products l symbol_id = None then Some (l, Some (Unknown_Product symbol_id))
          else Some (l, None))"

definition process_cancel_order ::
    "'w SbeCodec \<Rightarrow> 'w reads \<Rightarrow> u8 list \<Rightarrow> Ledger \<Rightarrow> (Ledger \<times> LedgerLog option) option" where
  "process_cancel_order sbe m bytes l =
     (case cancel_order_symbolId sbe (m 0) bytes of
        None \<Rightarrow> None
      | Some symbol_id \<Rightarrow>
          (case products l symbol_id of
             None \<Rightarrow> Some (l, Some (Unknown_Product symbol_id))
           | Some product \<Rightarrow>
               (case cancel_order_orderId sbe (m 1) bytes of
                  None \<Rightarrow> None
                | Some oid \<Rightarrow>
                    (case active_orders l oid of
                       None \<Rightarrow> Some (l, None)
                     | Some ord \<Rightarrow>
                         Some (l\<lparr>products := (products l)
                                (symbol_id \<mapsto> product\<lparr>book := fst (erase_order (book product) ord)\<rparr>),
                              active_orders := (active_orders l)(oid := None)\<rparr>,
                            Some (Cancelled_Order oid))))))"

definition process_replace_order ::
    "'w SbeCodec \<Rightarrow> 'w reads \<Rightarrow> u8 list \<Rightarrow> Ledger \<Rightarrow> (Ledger \<times> LedgerLog option) option" where
  "process_replace_order sbe m bytes l =
     (case replace_order_orderId sbe (m 0) bytes of
        None \<Rightarrow> None
      | Some oid \<Rightarrow> if active_orders l oid = None then Some (l, Some (Unknown_Order oid)) else Some (l, None))"

text \<open>The last two branches read the template id again, for the log.\<close>

definition on_fragment ::
    "'w SbeCodec \<Rightarrow> 'w reads \<Rightarrow> u8 list \<Rightarrow> Ledger \<Rightarrow>
     (FragmentAction \<times> Ledger \<times> LedgerLog option) option" where
  "on_fragment sbe m bytes l =
     (if bytes = [] then Some (CONTINUE, l, None)
      else
        case templateId sbe (m 0) bytes of
          None \<Rightarrow> None
        | Some t \<Rightarrow>
            map_option (Pair CONTINUE)
              (if t = NewOrderSingle_templateId then process_new_order sbe (m \<circ> Suc) bytes l
               else if t = CancelOrder_templateId then process_cancel_order sbe (m \<circ> Suc) bytes l
               else if t = ReplaceOrder_templateId then process_replace_order sbe (m \<circ> Suc) bytes l
               else map_option (\<lambda>t'. (l, Some (if t = AgentStartup_templateId then Unsupported_Template t'
                                               else Unknown_Template t')))
                      (templateId sbe (m 1) bytes)))"

text \<open>
  \<open>run\<close> polls the order entry subscription once, with \<open>on_fragment\<close> as its callback. The state of the
  callback is the ledger, or \<open>None\<close> after a fault; then the run has no other result than the fault,
  as nothing after it is executed.
\<close>

datatype LedgerStop = Memory_Fault | Stopped_By error

definition ledger_callback :: "'w SbeCodec \<Rightarrow> 'w reads \<Rightarrow> Ledger option callback" where
  "ledger_callback sbe m h bytes =
     (case h of
        None \<Rightarrow> (None, None)
      | Some l \<Rightarrow>
          (case on_fragment sbe m bytes l of
             None \<Rightarrow> (None, None)
           | Some (action, l', log) \<Rightarrow> (Some l', Some (fragment_action_value action))))"

definition ledger_run ::
    "nat \<Rightarrow> 'w SbeCodec \<Rightarrow> 'w reads \<Rightarrow> Ledger \<Rightarrow> IpcQueue \<Rightarrow> Segment \<Rightarrow>
     (LedgerStop + (Ledger \<times> IpcQueue \<times> Segment \<times> PollOutcome)) option" where
  "ledger_run fuel sbe m l q s =
     (case subscription_poll fuel (ledger_callback sbe m) (Some l) q s of
        None \<Rightarrow> None
      | Some (Inl e) \<Rightarrow> Some (Inl (Stopped_By e))
      | Some (Inr (None, q', s', outcome)) \<Rightarrow> Some (Inl Memory_Fault)
      | Some (Inr (Some l', q', s', outcome)) \<Rightarrow> Some (Inr (l', q', s', outcome)))"

section \<open>Starting\<close>

text \<open>The three configuration keys are all the empty string.\<close>

definition DEFAULT_QUEUE_SIZE :: u64 where "DEFAULT_QUEUE_SIZE = push_bit 16 1"

definition AGENT_NAME :: string where "AGENT_NAME = ''LEDGER''"

definition ORDER_ENTRY_QUEUE :: string where "ORDER_ENTRY_QUEUE = ''''"

definition ADMIN_IN_QUEUE :: string where "ADMIN_IN_QUEUE = ''''"

definition ADMIN_OUT_QUEUE :: string where "ADMIN_OUT_QUEUE = ''''"

definition ledger_queue_params :: "string \<Rightarrow> bool \<Rightarrow> IpcQueueParameters" where
  "ledger_queue_params name writer =
     \<lparr>param_file_name = name, param_queue_size = DEFAULT_QUEUE_SIZE,
      param_is_writer = writer, param_agent_name = AGENT_NAME\<rparr>"

definition ledger_start ::
    "(string \<Rightarrow> bool) \<Rightarrow> (string \<rightharpoonup> string) \<Rightarrow> Shm \<Rightarrow>
     error + (ArchiveSubscription \<times> ArchivePublication \<times> ArchiveSubscription \<times> Shm)" where
  "ledger_start may_open lookup h =
     bindE (config_lookup lookup ORDER_ENTRY_QUEUE) (\<lambda>order_entry_name.
     bindE (open_queue may_open h (ledger_queue_params order_entry_name False)) (\<lambda>(order_entry, h1).
     bindE (config_lookup lookup ADMIN_OUT_QUEUE) (\<lambda>admin_out_name.
     bindE (open_queue may_open h1 (ledger_queue_params admin_out_name True)) (\<lambda>(admin_out, h2).
     bindE (config_lookup lookup ADMIN_IN_QUEUE) (\<lambda>admin_in_name.
     bindE (open_queue may_open h2 (ledger_queue_params admin_in_name False)) (\<lambda>(admin_in, h3).
     Inr (\<lparr>sub_queue = Some order_entry\<rparr>, make_publication admin_out,
          \<lparr>sub_queue = Some admin_in\<rparr>, h3)))))))"

text \<open>
  Destroying a ledger destroys its members, the last declared first: the database, whose destructor
  only logs what \<open>sqlite3_close\<close> answers, then the publication and the two subscriptions, which
  close their queues. A destructor that throws ends the process.
\<close>

definition ManagedDb_close_logs :: "int \<Rightarrow> bool" where
  "ManagedDb_close_logs r \<longleftrightarrow> r \<noteq> 0"

definition ledger_destroy ::
    "nat \<Rightarrow> ArchiveSubscription \<Rightarrow> ArchivePublication \<Rightarrow> ArchiveSubscription \<Rightarrow> Shm \<Rightarrow> (error + Shm) option" where
  "ledger_destroy fuel order_entry admin_out admin_in h =
     (case pub_destroy fuel admin_out h of
        None \<Rightarrow> None
      | Some (Inl e) \<Rightarrow> Some (Inl e)
      | Some (Inr h1) \<Rightarrow>
          (case sub_destroy fuel admin_in h1 of
             None \<Rightarrow> None
           | Some (Inl e) \<Rightarrow> Some (Inl e)
           | Some (Inr (_, h2)) \<Rightarrow>
               map_option (\<lambda>r. bindE r (\<lambda>(_, h3). Inr h3)) (sub_destroy fuel order_entry h2)))"

text \<open>\<open>stop\<close> has no body.\<close>

definition ledger_stop :: "Ledger \<Rightarrow> Ledger" where
  "ledger_stop l = l"

section \<open>What the handlers do\<close>

lemmas handler_defs =
  process_new_order_def process_cancel_order_def process_replace_order_def

lemmas template_defs =
  NewOrderSingle_templateId_def CancelOrder_templateId_def ReplaceOrder_templateId_def
  AgentStartup_templateId_def

text \<open>
  Dispatch. Every fragment is acknowledged with \<open>CONTINUE\<close>. The ledger changes only for a
  cancel message whose product and order it knows; in every other case, known or unknown template,
  it stays as it was.
\<close>

lemma on_fragment_effects:
  assumes "on_fragment sbe m bytes l = Some (action, l', log)"
  shows "action = CONTINUE \<and>
    (l' = l \<or> bytes \<noteq> [] \<and> templateId sbe (m 0) bytes = Some CancelOrder_templateId \<and>
       (\<exists>symb\<in>dom (products l). cancel_order_symbolId sbe (m 1) bytes = Some symb) \<and>
       (\<exists>oid\<in>dom (active_orders l). cancel_order_orderId sbe (m 2) bytes = Some oid) \<and>
       process_cancel_order sbe (m \<circ> Suc) bytes l = Some (l', log))"
proof (cases "bytes = [] \<or> templateId sbe (m 0) bytes \<noteq> Some CancelOrder_templateId")
  case True
  with assms show ?thesis
    by (auto simp: on_fragment_def process_new_order_def process_replace_order_def
        split: option.splits if_splits)
next
  case False
  then have "on_fragment sbe m bytes l =
      map_option (Pair CONTINUE) (process_cancel_order sbe (m \<circ> Suc) bytes l)"
    by (simp add: on_fragment_def template_defs)
  with assms False have "action = CONTINUE" "process_cancel_order sbe (m \<circ> Suc) bytes l = Some (l', log)"
    by auto
  with False show ?thesis
    by (auto simp: process_cancel_order_def numeral_2_eq_2 split: option.splits)
qed

lemma on_fragment_stable:
  "on_fragment sbe m bytes l = Some (action, l', log) \<Longrightarrow> products l = Map.empty \<Longrightarrow> l' = l"
  using on_fragment_effects [of sbe m bytes l action l' log] by auto

text \<open>
  C22. Cancelling an order of the product the message names removes it from the active orders and
  from its side of the book, takes its quantity off, keeps the accounting, leaves every other
  product and order alone, and cancelling it a second time changes nothing.
\<close>

theorem cancel_removes_order:
  assumes "cancel_order_symbolId sbe (m 0) bytes = Some symb"
    and "cancel_order_orderId sbe (m 1) bytes = Some (order_id ord)"
    and p: "products l symb = Some product" and o: "active_orders l (order_id ord) = Some ord"
    and acc: "side_ok qty (book_side (is_bid ord) (book product))" "\<forall>j. 0 < qty j"
      "unat (quantity ord) = qty (order_id ord)"
    and step: "process_cancel_order sbe m bytes l = Some (l', log)"
  shows "\<exists>product'. log = Some (Cancelled_Order (order_id ord)) \<and>
    products l' = (products l)(symb \<mapsto> product') \<and>
    active_orders l' = (active_orders l)(order_id ord := None) \<and>
    side_ok qty (book_side (is_bid ord) (book product')) \<and>
    order_id ord \<notin> side_orders (book_side (is_bid ord) (book product')) \<and>
    book_side (\<not> is_bid ord) (book product') = book_side (\<not> is_bid ord) (book product) \<and>
    (\<forall>m' bytes'. cancel_order_symbolId sbe (m' 0) bytes' = Some symb \<and>
       cancel_order_orderId sbe (m' 1) bytes' = Some (order_id ord) \<longrightarrow>
       process_cancel_order sbe m' bytes' l' = Some (l', None))"
proof -
  obtain b' found where b': "erase_order (book product) ord = (b', found)" by fastforce
  note book = erased_book [OF acc b']
  have l': "l' = l\<lparr>products := (products l)(symb \<mapsto> product\<lparr>book := b'\<rparr>),
      active_orders := (active_orders l)(order_id ord := None)\<rparr>"
    and log: "log = Some (Cancelled_Order (order_id ord))"
    using step assms(1,2) p o b' by (simp_all add: process_cancel_order_def)
  have "process_cancel_order sbe m' bytes' l' = Some (l', None)"
    if "cancel_order_symbolId sbe (m' 0) bytes' = Some symb"
      "cancel_order_orderId sbe (m' 1) bytes' = Some (order_id ord)" for m' bytes'
    using that by (simp add: process_cancel_order_def l')
  with book l' log show ?thesis by (intro exI [of _ "product\<lparr>book := b'\<rparr>"]) simp
qed

text \<open>
  A codec and a ledger for the witnesses. The first byte of a message is taken for a pointer into a
  memory of bytes, which has a template id there and the ids behind it.
\<close>

definition demo_field :: "nat \<Rightarrow> u8 list \<Rightarrow> u8 list \<Rightarrow> u8 option" where
  "demo_field i w bs =
     (let p = unat (hd bs) + i in if p < length w then Some (w ! p) else None)"

definition demo_codec :: "u8 list SbeCodec" where
  "demo_codec =
     \<lparr>templateId = (\<lambda>w bs. map_option unat (demo_field 0 w bs)),
      new_order_symbolId = (\<lambda>w bs. map_option ucast (demo_field 1 w bs)),
      cancel_order_symbolId = (\<lambda>w bs. map_option ucast (demo_field 1 w bs)),
      cancel_order_orderId = (\<lambda>w bs. map_option ucast (demo_field 2 w bs)),
      replace_order_orderId = (\<lambda>w bs. map_option ucast (demo_field 1 w bs))\<rparr>"

definition demo_reads :: "u8 list reads" where
  "demo_reads i = [2, 7, 1]"

definition demo_ledger :: Ledger where
  "demo_ledger =
     \<lparr>products = [7 \<mapsto> \<lparr>exchange_symbol = ''AAPL'', book = demo_book\<rparr>,
                  8 \<mapsto> \<lparr>exchange_symbol = ''MSFT'', book = demo_book\<rparr>],
      active_orders = [1 \<mapsto> demo_order]\<rparr>"

theorem cancel_removes_order_witness:
  "\<exists>l' log. process_cancel_order demo_codec demo_reads [0] demo_ledger = Some (l', log) \<and>
     active_orders l' = Map.empty \<and> process_cancel_order demo_codec demo_reads [0] l' = Some (l', None)"
proof -
  let ?qty = "\<lambda>i :: u64. if i = 1 then 5 else 7 :: nat"
  have ids: "cancel_order_symbolId demo_codec (demo_reads 0) [0] = Some 7"
    "cancel_order_orderId demo_codec (demo_reads 1) [0] = Some (order_id demo_order)" "order_id demo_order = 1"
    by (simp_all add: demo_codec_def demo_order_def demo_reads_def demo_field_def)
  have led: "products demo_ledger 7 = Some \<lparr>exchange_symbol = ''AAPL'', book = demo_book\<rparr>"
    "active_orders demo_ledger (order_id demo_order) = Some demo_order"
    "(active_orders demo_ledger)(1 := None) = Map.empty"
    by (simp_all add: demo_ledger_def ids)
  obtain l' log where step: "process_cancel_order demo_codec demo_reads [0] demo_ledger = Some (l', log)"
    using ids(1,2) led(1,2) by (auto simp: process_cancel_order_def)
  have "side_ok ?qty (book_side (is_bid demo_order) (book \<lparr>exchange_symbol = ''AAPL'', book = demo_book\<rparr>))"
    "\<forall>j. 0 < ?qty j" "unat (quantity demo_order) = ?qty (order_id demo_order)"
    by (simp_all add: demo_book_def demo_order_def book_side_def level_ok_def)
  from cancel_removes_order [OF ids(1,2) led(1,2) this step] step led(3) ids show ?thesis by auto
qed

text \<open>
  A cancel message that names another product loses the order. The message's symbol chooses
  the book, not the order's product: the order leaves the active orders, but the book of its own
  product still lists it, and no later cancel message can remove it.
\<close>

lemma cancel_with_wrong_symbol:
  assumes "cancel_order_symbolId sbe (m 0) bytes = Some symb" "cancel_order_orderId sbe (m 1) bytes = Some oid"
    and "products l symb = Some product" "active_orders l oid = Some ord"
    and "order_product ord \<noteq> symb" "cancel_order_orderId sbe (later_reads 1) later = Some oid"
    and "process_cancel_order sbe m bytes l = Some (l', log)"
  shows "active_orders l' oid = None \<and>
    products l' (order_product ord) = products l (order_product ord) \<and>
    map_option fst (process_cancel_order sbe later_reads later l') \<in> {None, Some l'}"
  using assms by (auto simp: process_cancel_order_def split: option.splits)

text \<open>
  The ledger never holds anything. A new ledger has no product and no order, and no message
  adds one, so after any sequence of fragments it is still empty.
\<close>

fun handle_fragments :: "'w SbeCodec \<Rightarrow> ('w reads \<times> u8 list) list \<Rightarrow> Ledger \<Rightarrow> Ledger option" where
  "handle_fragments sbe [] l = Some l"
| "handle_fragments sbe ((m, bytes) # rest) l =
     (case on_fragment sbe m bytes l of
        None \<Rightarrow> None
      | Some (action, l', log) \<Rightarrow> handle_fragments sbe rest l')"

lemma make_Ledger_empty:
  "make_Ledger r = Inr l \<Longrightarrow> products l = Map.empty \<and> active_orders l = Map.empty"
  by (auto simp: make_Ledger_def make_ManagedDb_def split: if_splits)

lemma ledger_stays_empty:
  "handle_fragments sbe fragments l = Some l' \<Longrightarrow> products l = Map.empty \<Longrightarrow> l' = l"
proof (induction sbe fragments l rule: handle_fragments.induct)
  case (2 sbe m bytes rest l)
  then show ?case by (auto split: option.splits dest: on_fragment_stable)
qed simp

section \<open>Running and starting\<close>

text \<open>
  One run of the ledger. On a queue in any state its writers and readers can reach, while
  the ring is not full or no aborted message is unreleased, a run returns without an error, unless a
  read through the message faults. It either finds nothing and leaves the ledger alone, or takes
  exactly the next message from the queue and applies \<open>on_fragment\<close> to it, and the queue is left in a
  reachable state.
\<close>

lemma ledger_callback_run:
  "ledger_callback sbe m (Some l) bytes =
     (case on_fragment sbe m bytes l of
        None \<Rightarrow> (None, None) | Some (action, l', log) \<Rightarrow> (Some l', Some 0))"
  using on_fragment_effects [of sbe m bytes l] by (auto simp: ledger_callback_def split: option.splits)

lemma ledger_run_takes_one:
  assumes "reachable wq G \<sigma>" "open_readers \<sigma> r = Some q" "held \<sigma> r = None"
    and "no_lapped_abort wq \<sigma>" "seg_hi (seg \<sigma>) - reader_at q < 18 * n"
  shows "\<exists>q' \<sigma>'. reachable wq G \<sigma>' \<and> open_readers \<sigma>' r = Some q' \<and>
    ((ledger_run n sbe m l q (seg \<sigma>) = Some (Inr (l, q', seg \<sigma>', No_Data)) \<and> received \<sigma>' r = received \<sigma> r) \<or>
     (\<exists>bytes. received \<sigma>' r = received \<sigma> r @ [bytes] \<and> ledger_run n sbe m l q (seg \<sigma>) =
        (case on_fragment sbe m bytes l of
           None \<Rightarrow> Some (Inl Memory_Fault)
         | Some (action, l', log) \<Rightarrow> Some (Inr (l', q', seg \<sigma>', Handled bytes 0)))))"
proof -
  obtain h' q' outcome \<sigma>' where
    run: "subscription_poll n (ledger_callback sbe m) (Some l) q (seg \<sigma>) = Some (Inr (h', q', seg \<sigma>', outcome))"
    and reach: "reachable wq G \<sigma>'" "open_readers \<sigma>' r = Some q'"
    and what: "case outcome of
       No_Data \<Rightarrow> h' = Some l \<and> received \<sigma>' r = received \<sigma> r
     | Handled bytes code \<Rightarrow>
         ledger_callback sbe m (Some l) bytes = (h', Some code) \<and> received \<sigma>' r = received \<sigma> r @ [bytes]
     | Threw bytes \<Rightarrow>
         ledger_callback sbe m (Some l) bytes = (h', None) \<and> received \<sigma>' r = received \<sigma> r @ [bytes]"
    using subscription_run [OF assms, of "ledger_callback sbe m" "Some l"] by blast
  from run what have "(ledger_run n sbe m l q (seg \<sigma>) = Some (Inr (l, q', seg \<sigma>', No_Data)) \<and>
      received \<sigma>' r = received \<sigma> r) \<or>
     (\<exists>bytes. received \<sigma>' r = received \<sigma> r @ [bytes] \<and> ledger_run n sbe m l q (seg \<sigma>) =
        (case on_fragment sbe m bytes l of
           None \<Rightarrow> Some (Inl Memory_Fault)
         | Some (action, l', log) \<Rightarrow> Some (Inr (l', q', seg \<sigma>', Handled bytes 0))))"
    by (cases outcome) (auto simp: ledger_run_def ledger_callback_run split: option.splits)
  with reach show ?thesis by blast
qed

text \<open>
  The ledger's three queues are one. The keys of the order entry queue, the admin input and
  the admin output are the same string, so if the configuration answers it with
  a name that is not in use \<open>start\<close> opens a single
  shared queue three times: the ledger reads its own publication as orders and as admin input.
\<close>

lemma ledger_queues_coincide:
  assumes "lookup '''' = Some name" "may_open name" "names h name = None"
  shows "\<exists>order_entry admin_out admin_in h'.
    ledger_start may_open lookup h =
      Inr (\<lparr>sub_queue = Some order_entry\<rparr>, admin_out, \<lparr>sub_queue = Some admin_in\<rparr>, h') \<and>
    fd (pub_queue admin_out) = fd order_entry \<and> fd admin_in = fd order_entry \<and>
    seg_readers (mapped order_entry h') = 2"
proof -
  let ?k = "next_object h"
  have size: "is_power_of_two DEFAULT_QUEUE_SIZE" "\<not> DEFAULT_QUEUE_SIZE > MAX_QUEUE_SIZE_BYTES"
    by (simp_all add: is_power_of_two_def DEFAULT_QUEUE_SIZE_def MAX_QUEUE_SIZE_BYTES_def)
  let ?r = "ledger_queue_params name False" and ?w = "ledger_queue_params name True"
  obtain q1 h1 where one: "open_queue may_open h ?r = Inr (q1, h1)" "fd q1 = int ?k"
    "names h1 name = Some ?k" "magic (global_header (objects h1 ?k)) = MAGIC"
    "seg_readers (objects h1 ?k) = 1"
    using first_reader [of ?r may_open h] assms size by (auto simp: ledger_queue_params_def)
  obtain q2 h2 where two: "open_queue may_open h1 ?w = Inr (q2, h2)" "fd q2 = int ?k"
    "names h2 name = Some ?k" "magic (global_header (objects h2 ?k)) = MAGIC"
    "seg_readers (objects h2 ?k) = 1"
    using next_writer [of ?w may_open h1 ?k] one assms size by (auto simp: ledger_queue_params_def)
  obtain q3 h3 where three: "open_queue may_open h2 ?r = Inr (q3, h3)" "fd q3 = int ?k"
    "seg_readers (objects h3 ?k) = 2"
    using reader_joins [of ?r may_open h2 ?k] two assms size by (auto simp: ledger_queue_params_def)
  have "ledger_start may_open lookup h =
      Inr (\<lparr>sub_queue = Some q1\<rparr>, make_publication q2, \<lparr>sub_queue = Some q3\<rparr>, h3)"
    using one(1) two(1) three(1) assms(1)
    by (simp add: ledger_start_def config_lookup_def
        ORDER_ENTRY_QUEUE_def ADMIN_OUT_QUEUE_def ADMIN_IN_QUEUE_def)
  with one(2) two(2) three(2,3) show ?thesis
    by (simp add: make_publication_def mapped_def)
qed

lemma ledger_queues_coincide_witness:
  "\<exists>order_entry admin_out admin_in h'.
    ledger_start (\<lambda>_. True) (\<lambda>_. Some ''/orders'') demo_shm =
      Inr (\<lparr>sub_queue = Some order_entry\<rparr>, admin_out, \<lparr>sub_queue = Some admin_in\<rparr>, h') \<and>
    fd (pub_queue admin_out) = fd order_entry"
  using ledger_queues_coincide [of "\<lambda>_. Some ''/orders''" "''/orders''" "\<lambda>_. True" demo_shm]
  by (auto simp: demo_shm_def)

text \<open>
  Starting and destroying. Starting the ledger on a name that is not in use and destroying it leaves
  the names as they were and nobody registered in the object that was created. The name is gone as
  soon as the first subscription is closed, while the other one is still attached.
\<close>

lemmas ledger_opens =
  ledger_start_def config_lookup_def ORDER_ENTRY_QUEUE_def ADMIN_OUT_QUEUE_def ADMIN_IN_QUEUE_def
  open_queue_def ledger_queue_params_def IpcQueue_members_def is_power_of_two_def
  DEFAULT_QUEUE_SIZE_def MAX_QUEUE_SIZE_BYTES_def register_def init_new_file_def shm_create_def
  put_mapped_def validate_settings_def modify_readers_def return_add_reader_def unwrap_def
  repack_def set_packed_def packed_of_def make_publication_def sizeof_GlobalHeader_def
  writers_of_def set_writers_def

lemmas ledger_closes =
  pub_destroy_def sub_destroy_def sub_close_def destroy_queue_def close_queue_def mapped_def
  put_mapped_def remove_file_def writers_of_def set_writers_def packed_of_def unwrap_def
  modify_readers_def return_sub_reader_def repack_def set_packed_def shm_unlink_def
  hdr_commit_flag_def seg_readers_def

lemma ledger_start_destroy:
  assumes "lookup '''' = Some name" "may_open name" "names h name = None"
  shows "\<exists>order_entry admin_out admin_in h1 h2 h3.
    ledger_start may_open lookup h = Inr (order_entry, admin_out, admin_in, h1) \<and>
    pub_destroy 1 admin_out h1 = Some (Inr h2) \<and> names h2 name = Some (next_object h) \<and>
    (\<exists>sub h'. sub_destroy 1 admin_in h2 = Some (Inr (sub, h')) \<and> names h' name = None \<and>
      seg_readers (objects h' (next_object h)) = 1) \<and>
    ledger_destroy 1 order_entry admin_out admin_in h1 = Some (Inr h3) \<and> names h3 = names h \<and>
    seg_readers (objects h3 (next_object h)) = 0 \<and> writers_of (objects h3 (next_object h)) = 0"
  using assms
  by (simp add: ledger_opens Let_def case_prod_beta bindE_def)
    (auto simp: ledger_destroy_def ledger_closes Let_def case_prod_beta bindE_def fun_eq_iff)

lemma ledger_start_destroy_witness:
  "\<exists>order_entry admin_out admin_in h1 h3.
    ledger_start (\<lambda>_. True) (\<lambda>_. Some ''/orders'') demo_shm = Inr (order_entry, admin_out, admin_in, h1) \<and>
    ledger_destroy 1 order_entry admin_out admin_in h1 = Some (Inr h3) \<and> names h3 = names demo_shm"
  using ledger_start_destroy [of "\<lambda>_. Some ''/orders''" "''/orders''" "\<lambda>_. True" demo_shm]
  by (auto simp: demo_shm_def)

end
