(* ===== verification/Polling.thy ===== *)
theory Polling
  imports Prelude
begin

text \<open>
  The poll runner (polling/public/polling): the interface of a pollable, the runner that drives a
  list of them, its builder, the TCP pollable (polling/TcpPollable.cpp) and the pool of isolated
  cores (polling/CoreAffinity.cpp).

  A pollable is a value of some type \<open>'p\<close>; its three virtual functions are given as a record, so
  that a list of pollables may mix implementations. What lies outside of it, and what the pollables
  of a runner may share, is \<open>'w\<close>: every call gets it as the calls before have left it, so the order of
  the calls matters. The sockets of \<open>TcpPollable\<close> are the operating system's: its answers are
  parameters.
\<close>

section \<open>The interface\<close>

record ('p, 'w) IPollable =
  Initialize :: "'p \<Rightarrow> 'w \<Rightarrow> bool \<times> 'p \<times> 'w"
  PollOnce :: "'p \<Rightarrow> 'w \<Rightarrow> u64 \<times> 'p \<times> 'w"
  StopPolling :: "'p \<Rightarrow> 'w \<Rightarrow> 'p \<times> 'w"

text \<open>A pollable object: its functions and its state.\<close>

type_synonym ('p, 'w) pollable = "('p, 'w) IPollable \<times> 'p"

definition pollable_init :: "('p, 'w) pollable \<Rightarrow> 'w \<Rightarrow> bool \<times> ('p, 'w) pollable \<times> 'w" where
  "pollable_init x w = (let (ok, p, w') = Initialize (fst x) (snd x) w in (ok, (fst x, p), w'))"

definition pollable_poll :: "('p, 'w) pollable \<Rightarrow> 'w \<Rightarrow> u64 \<times> ('p, 'w) pollable \<times> 'w" where
  "pollable_poll x w = (let (n, p, w') = PollOnce (fst x) (snd x) w in (n, (fst x, p), w'))"

definition pollable_stop :: "('p, 'w) pollable \<Rightarrow> 'w \<Rightarrow> ('p, 'w) pollable \<times> 'w" where
  "pollable_stop x w = (let (p, w') = StopPolling (fst x) (snd x) w in ((fst x, p), w'))"

section \<open>The runner\<close>

record ('p, 'w) RuntimePollRunner =
  pollables :: "('p, 'w) pollable list"

text \<open>Each builder is a callable that makes a pollable; the runner calls all of them in order.\<close>

type_synonym ('p, 'w) PollableFactory = "'w \<Rightarrow> ('p, 'w) pollable \<times> 'w"

fun invoke_all :: "('p, 'w) PollableFactory list \<Rightarrow> 'w \<Rightarrow> ('p, 'w) pollable list \<times> 'w" where
  "invoke_all [] w = ([], w)"
| "invoke_all (b # bs) w = (let (p, w1) = b w; (ps, w2) = invoke_all bs w1 in (p # ps, w2))"

definition make_RuntimePollRunner ::
    "('p, 'w) PollableFactory list \<Rightarrow> 'w \<Rightarrow> ('p, 'w) RuntimePollRunner \<times> 'w" where
  "make_RuntimePollRunner builders w =
     (let (ps, w') = invoke_all builders w in (\<lparr>pollables = ps\<rparr>, w'))"

fun poll_all_from ::
    "u64 \<Rightarrow> ('p, 'w) pollable list \<Rightarrow> 'w \<Rightarrow> u64 \<times> ('p, 'w) pollable list \<times> 'w" where
  "poll_all_from work_done [] w = (work_done, [], w)"
| "poll_all_from work_done (p # ps) w =
     (let (n, p', w1) = pollable_poll p w;
          (total, ps', w2) = poll_all_from (work_done + n) ps w1
      in (total, p' # ps', w2))"

definition PollAll :: "('p, 'w) RuntimePollRunner \<Rightarrow> 'w \<Rightarrow> u64 \<times> ('p, 'w) RuntimePollRunner \<times> 'w" where
  "PollAll r w = (let (n, ps, w') = poll_all_from 0 (pollables r) w in (n, r\<lparr>pollables := ps\<rparr>, w'))"

text \<open>\<open>all_success &= pollable->Initialize()\<close> does not short-circuit.\<close>

fun start_from ::
    "bool \<Rightarrow> ('p, 'w) pollable list \<Rightarrow> 'w \<Rightarrow> bool \<times> ('p, 'w) pollable list \<times> 'w" where
  "start_from all_success [] w = (all_success, [], w)"
| "start_from all_success (p # ps) w =
     (let (ok, p', w1) = pollable_init p w;
          (total, ps', w2) = start_from (all_success \<and> ok) ps w1
      in (total, p' # ps', w2))"

definition StartPolling ::
    "('p, 'w) RuntimePollRunner \<Rightarrow> 'w \<Rightarrow> bool \<times> ('p, 'w) RuntimePollRunner \<times> 'w" where
  "StartPolling r w = (let (ok, ps, w') = start_from True (pollables r) w in (ok, r\<lparr>pollables := ps\<rparr>, w'))"

fun stop_from :: "('p, 'w) pollable list \<Rightarrow> 'w \<Rightarrow> ('p, 'w) pollable list \<times> 'w" where
  "stop_from [] w = ([], w)"
| "stop_from (p # ps) w = (let (p', w1) = pollable_stop p w; (ps', w2) = stop_from ps w1 in (p' # ps', w2))"

definition StopPollingAll :: "('p, 'w) RuntimePollRunner \<Rightarrow> 'w \<Rightarrow> ('p, 'w) RuntimePollRunner \<times> 'w" where
  "StopPollingAll r w = (let (ps, w') = stop_from (pollables r) w in (r\<lparr>pollables := ps\<rparr>, w'))"

section \<open>The builder\<close>

record ('p, 'w) RuntimePollRunnerBuilder =
  pollable_builders :: "('p, 'w) PollableFactory list"

definition new_builder :: "('p, 'w) RuntimePollRunnerBuilder" where
  "new_builder = \<lparr>pollable_builders = []\<rparr>"

definition add_pollable ::
    "('p, 'w) PollableFactory \<Rightarrow> ('p, 'w) RuntimePollRunnerBuilder \<Rightarrow> ('p, 'w) RuntimePollRunnerBuilder" where
  "add_pollable builder b = b\<lparr>pollable_builders := pollable_builders b @ [\<lambda>w. builder w]\<rparr>"

definition build_runner :: "('p, 'w) RuntimePollRunnerBuilder \<Rightarrow> 'w \<Rightarrow> ('p, 'w) RuntimePollRunner \<times> 'w" where
  "build_runner b w = make_RuntimePollRunner (pollable_builders b) w"

section \<open>The life of a runner\<close>

text \<open>A service adds its builders, builds the runner, starts it, lets it poll \<open>k\<close> rounds and stops it.\<close>

fun poll_rounds ::
    "nat \<Rightarrow> ('p, 'w) RuntimePollRunner \<Rightarrow> 'w \<Rightarrow> u64 list \<times> ('p, 'w) RuntimePollRunner \<times> 'w" where
  "poll_rounds 0 r w = ([], r, w)"
| "poll_rounds (Suc k) r w =
     (let (n, r1, w1) = PollAll r w; (ns, r2, w2) = poll_rounds k r1 w1 in (n # ns, r2, w2))"

definition runner_life :: "nat \<Rightarrow> ('p, 'w) PollableFactory list \<Rightarrow> 'w \<Rightarrow> bool \<times> u64 list \<times> 'w" where
  "runner_life k bs w =
     (let (r, w1) = build_runner (foldl (\<lambda>b x. add_pollable x b) new_builder bs) w;
          (ok, r1, w2) = StartPolling r w1;
          (ns, r2, w3) = poll_rounds k r1 w2;
          (r3, w4) = StopPollingAll r2 w3
      in (ok, ns, w4))"

text \<open>
  Pollables that write down every call, with its answer, in a log that they share, and otherwise do
  as the given ones.
\<close>

datatype Call = Built nat | Initialized nat bool | Polled nat u64 | Stopped nat

definition recorded :: "nat \<Rightarrow> ('p, 'w) IPollable \<Rightarrow> ('p, Call list \<times> 'w) IPollable" where
  "recorded i f =
     \<lparr>Initialize = (\<lambda>p (log, w). let (ok, p', w') = Initialize f p w in (ok, p', log @ [Initialized i ok], w')),
      PollOnce = (\<lambda>p (log, w). let (n, p', w') = PollOnce f p w in (n, p', log @ [Polled i n], w')),
      StopPolling = (\<lambda>p (log, w). let (p', w') = StopPolling f p w in (p', log @ [Stopped i], w'))\<rparr>"

fun recorded_builders ::
    "nat \<Rightarrow> ('p, 'w) PollableFactory list \<Rightarrow> ('p, Call list \<times> 'w) PollableFactory list" where
  "recorded_builders i [] = []"
| "recorded_builders i (b # bs) =
     (\<lambda>(log, w). let (x, w') = b w in ((recorded i (fst x), snd x), log @ [Built i], w')) #
     recorded_builders (Suc i) bs"

fun recorded_all :: "nat \<Rightarrow> ('p, 'w) pollable list \<Rightarrow> ('p, Call list \<times> 'w) pollable list" where
  "recorded_all i [] = []"
| "recorded_all i (x # xs) = (recorded i (fst x), snd x) # recorded_all (Suc i) xs"

lemma upt_step: "[i..<i + length (x # xs)] = i # [Suc i..<Suc (i + length xs)]"
  using upt_conv_Cons [of i "i + length (x # xs)"] by simp

lemma invoke_all_recorded:
  "invoke_all bs w = (ps, w') \<Longrightarrow> length ps = length bs \<and>
     invoke_all (recorded_builders i bs) (log, w) =
       (recorded_all i ps, log @ map Built [i..<i + length bs], w')"
proof (induction bs arbitrary: i log w ps)
  case (Cons b bs)
  then obtain x w1 ps1 where "b w = (x, w1)" "invoke_all bs w1 = (ps1, w')" "ps = x # ps1"
    by (auto simp: Let_def split: prod.splits)
  with Cons.IH [of w1 ps1 "Suc i" "log @ [Built i]"] show ?case
    unfolding upt_step by (simp del: upt_Suc)
qed simp

lemma start_from_recorded:
  "start_from a ps w = (ok, ps', w') \<Longrightarrow> \<exists>oks. length oks = length ps \<and> length ps' = length ps \<and>
     (ok \<longleftrightarrow> a \<and> (\<forall>b\<in>set oks. b)) \<and>
     start_from a (recorded_all i ps) (log, w) =
       (ok, recorded_all i ps', log @ map2 Initialized [i..<i + length ps] oks, w')"
proof (induction ps arbitrary: a i log w ps')
  case (Cons p ps)
  then obtain b p1 w1 ps1 where "Initialize (fst p) (snd p) w = (b, p1, w1)"
    "start_from (a \<and> b) ps w1 = (ok, ps1, w')" "ps' = (fst p, p1) # ps1"
    by (auto simp: Let_def pollable_init_def split: prod.splits)
  moreover from Cons.IH [OF this(2), of "Suc i" "log @ [Initialized i b]"] obtain oks where
    "length oks = length ps \<and> length ps1 = length ps \<and> (ok \<longleftrightarrow> (a \<and> b) \<and> (\<forall>b\<in>set oks. b)) \<and>
     start_from (a \<and> b) (recorded_all (Suc i) ps) (log @ [Initialized i b], w1) = (ok, recorded_all (Suc i) ps1,
       (log @ [Initialized i b]) @ map2 Initialized [Suc i..<Suc i + length ps] oks, w')" by blast
  ultimately show ?case
    unfolding upt_step
    by (intro exI [of _ "b # oks"]) (auto simp: pollable_init_def recorded_def add.assoc simp del: upt_Suc)
qed simp

lemma poll_all_from_recorded:
  "poll_all_from a ps w = (n, ps', w') \<Longrightarrow> \<exists>counts. length counts = length ps \<and> length ps' = length ps \<and>
     n = a + sum_list counts \<and>
     poll_all_from a (recorded_all i ps) (log, w) =
       (n, recorded_all i ps', log @ map2 Polled [i..<i + length ps] counts, w')"
proof (induction ps arbitrary: a i log w ps')
  case (Cons p ps)
  then obtain c p1 w1 ps1 where "PollOnce (fst p) (snd p) w = (c, p1, w1)"
    "poll_all_from (a + c) ps w1 = (n, ps1, w')" "ps' = (fst p, p1) # ps1"
    by (auto simp: Let_def pollable_poll_def split: prod.splits)
  moreover from Cons.IH [OF this(2), of "Suc i" "log @ [Polled i c]"] obtain counts where
    "length counts = length ps \<and> length ps1 = length ps \<and> n = a + c + sum_list counts \<and>
     poll_all_from (a + c) (recorded_all (Suc i) ps) (log @ [Polled i c], w1) = (n, recorded_all (Suc i) ps1,
       (log @ [Polled i c]) @ map2 Polled [Suc i..<Suc i + length ps] counts, w')" by blast
  ultimately show ?case
    unfolding upt_step
    by (intro exI [of _ "c # counts"]) (auto simp: pollable_poll_def recorded_def add.assoc simp del: upt_Suc)
qed simp

lemma stop_from_recorded:
  "stop_from ps w = (ps', w') \<Longrightarrow>
     stop_from (recorded_all i ps) (log, w) =
       (recorded_all i ps', log @ map Stopped [i..<i + length ps], w')"
proof (induction ps arbitrary: i log w ps')
  case (Cons p ps)
  then obtain p1 w1 ps1 where "StopPolling (fst p) (snd p) w = (p1, w1)" "stop_from ps w1 = (ps1, w')"
    "ps' = (fst p, p1) # ps1"
    by (auto simp: Let_def pollable_stop_def split: prod.splits)
  with Cons.IH [of w1 ps1 "Suc i" "log @ [Stopped i]"] show ?case
    unfolding upt_step by (simp add: pollable_stop_def recorded_def del: upt_Suc)
qed simp

lemma unat_sum_list_u64:
  "unat (sum_list xs :: u64) = sum_list (map unat xs) mod 2 ^ 64"
  by (induction xs) (simp_all add: unat_word_ariths mod_simps)

lemma poll_rounds_recorded:
  assumes "poll_rounds k \<lparr>pollables = ps\<rparr> w = (ns, r, w')"
  shows "\<exists>counts. length counts = k \<and> (\<forall>c\<in>set counts. length c = length ps) \<and>
     length (pollables r) = length ps \<and>
     map unat ns = map (\<lambda>c. sum_list (map unat c) mod 2 ^ 64) counts \<and>
     poll_rounds k \<lparr>pollables = recorded_all i ps\<rparr> (log, w) =
       (ns, \<lparr>pollables = recorded_all i (pollables r)\<rparr>,
        log @ concat (map (map2 Polled [i..<i + length ps]) counts), w')"
  using assms
proof (induction k arbitrary: ps w ns log)
  case (Suc k)
  then obtain n ps1 w1 ns1 where one: "poll_all_from 0 ps w = (n, ps1, w1)"
    and rest: "poll_rounds k \<lparr>pollables = ps1\<rparr> w1 = (ns1, r, w')" "ns = n # ns1"
    by (auto simp: Let_def PollAll_def split: prod.splits)
  from poll_all_from_recorded [OF one, of i log] obtain c where
    c: "length c = length ps" "length ps1 = length ps" "n = sum_list c"
      "poll_all_from 0 (recorded_all i ps) (log, w) =
         (n, recorded_all i ps1, log @ map2 Polled [i..<i + length ps] c, w1)" by auto
  from Suc.IH [OF rest(1), of "log @ map2 Polled [i..<i + length ps] c"] obtain counts where
    "length counts = k" "\<forall>c\<in>set counts. length c = length ps" "length (pollables r) = length ps"
    "map unat ns1 = map (\<lambda>c. sum_list (map unat c) mod 2 ^ 64) counts"
    "poll_rounds k \<lparr>pollables = recorded_all i ps1\<rparr> (log @ map2 Polled [i..<i + length ps] c, w1) =
       (ns1, \<lparr>pollables = recorded_all i (pollables r)\<rparr>, (log @ map2 Polled [i..<i + length ps] c) @
        concat (map (map2 Polled [i..<i + length ps]) counts), w')"
    unfolding c(2) by blast
  with c rest(2) show ?case
    by (intro exI [of _ "c # counts"]) (simp add: PollAll_def unat_sum_list_u64)
qed (auto simp: recorded_def)

lemma build_runner_eq:
  "build_runner (foldl (\<lambda>b x. add_pollable x b) new_builder bs) w =
     (\<lparr>pollables = fst (invoke_all bs w)\<rparr>, snd (invoke_all bs w))"
proof -
  have "pollable_builders (foldl (\<lambda>b x. add_pollable x b) new_builder bs) = bs"
    by (induction bs rule: rev_induct) (simp_all add: new_builder_def add_pollable_def)
  then show ?thesis by (simp add: build_runner_def make_RuntimePollRunner_def case_prod_beta)
qed

text \<open>
  C37. The life of a runner, call by call, for pollables of any kind that may act on each other. Every
  builder is called once, in the order in which they were added; then every pollable is initialised
  once, in that order and also after one of them failed; every round polls each of them once, in that
  order; and at the end each of them is stopped, in that order. \<open>StartPolling\<close> reports success exactly
  if all of them did, and \<open>PollAll\<close> returns the sum of the counts of its round modulo 2 to the power
  64. The calls are those that pollables which log them, and otherwise do the same, have logged.
\<close>

theorem poll_runner_life:
  "case runner_life k bs w of (ok, ns, w') \<Rightarrow> \<exists>oks counts.
     runner_life k (recorded_builders 0 bs) ([], w) = (ok, ns,
       map Built [0..<length bs] @ map2 Initialized [0..<length bs] oks @
       concat (map (map2 Polled [0..<length bs]) counts) @ map Stopped [0..<length bs], w') \<and>
     length oks = length bs \<and> ok = (False \<notin> set oks) \<and> map length counts = replicate k (length bs) \<and>
     map unat ns = map (\<lambda>c. sum_list (map unat c) mod 2 ^ 64) counts"
proof -
  obtain ps w1 where b: "invoke_all bs w = (ps, w1)" by fastforce
  obtain ok ps1 w2 where s: "start_from True ps w1 = (ok, ps1, w2)" by (metis prod_cases3)
  obtain ns r w3 where p: "poll_rounds k \<lparr>pollables = ps1\<rparr> w2 = (ns, r, w3)" by (metis prod_cases3)
  obtain ps3 w4 where e: "stop_from (pollables r) w3 = (ps3, w4)" by fastforce
  let ?n = "length bs"
  have built: "length ps = ?n" "invoke_all (recorded_builders 0 bs) ([], w) =
      (recorded_all 0 ps, map Built [0..<?n], w1)"
    using invoke_all_recorded [OF b, of 0 "[]"] by simp_all
  from start_from_recorded [OF s, of 0 "map Built [0..<?n]"] obtain oks where
    started: "length oks = ?n" "length ps1 = ?n" "ok = (\<forall>b\<in>set oks. b)"
      "start_from True (recorded_all 0 ps) (map Built [0..<?n], w1) =
        (ok, recorded_all 0 ps1, map Built [0..<?n] @ map2 Initialized [0..<?n] oks, w2)"
    unfolding built(1) by auto
  from poll_rounds_recorded [OF p, of 0 "map Built [0..<?n] @ map2 Initialized [0..<?n] oks"]
  obtain counts where
    polled: "length counts = k" "\<forall>c\<in>set counts. length c = ?n" "length (pollables r) = ?n"
      "map unat ns = map (\<lambda>c. sum_list (map unat c) mod 2 ^ 64) counts"
      "poll_rounds k \<lparr>pollables = recorded_all 0 ps1\<rparr> (map Built [0..<?n] @ map2 Initialized [0..<?n] oks, w2) =
        (ns, \<lparr>pollables = recorded_all 0 (pollables r)\<rparr>, (map Built [0..<?n] @ map2 Initialized [0..<?n] oks) @
         concat (map (map2 Polled [0..<?n]) counts), w3)"
    unfolding started(2) by auto
  note stopped = stop_from_recorded [OF e, of 0, unfolded polled(3)]
  have plain: "runner_life k bs w = (ok, ns, w4)"
    by (simp add: runner_life_def build_runner_eq b StartPolling_def s p StopPollingAll_def e)
  have "runner_life k (recorded_builders 0 bs) ([], w) = (ok, ns,
       map Built [0..<?n] @ map2 Initialized [0..<?n] oks @
       concat (map (map2 Polled [0..<?n]) counts) @ map Stopped [0..<?n], w4)"
    by (simp add: runner_life_def build_runner_eq built(2) StartPolling_def started(4) polled(5)
        StopPollingAll_def stopped)
  moreover have "map length counts = replicate k ?n" using polled(1,2) by (auto intro: replicate_eqI)
  moreover have "ok = (False \<notin> set oks)" using started(3) by auto
  ultimately show ?thesis
    using plain started(1) polled(4) by (simp only: prod.case) blast
qed

section \<open>The TCP pollable\<close>

text \<open>
  The socket calls answer with an \<open>int\<close>; \<open>tcp_os\<close> is what the operating system answers and does. \<open>bind\<close>'s
  failure is not looked at, and what \<open>accept\<close> returns is not used. The descriptors that the
  object opened and did not close are listed with it.
\<close>

record pollfd =
  pfd_fd :: int
  pfd_events :: u32
  pfd_revents :: u32

record 'w tcp_os =
  os_socket :: "'w \<Rightarrow> int \<times> 'w"
  os_bind :: "int \<Rightarrow> 'w \<Rightarrow> int \<times> 'w"
  os_listen :: "int \<Rightarrow> 'w \<Rightarrow> int \<times> 'w"
  os_set_nonblock :: "int \<Rightarrow> 'w \<Rightarrow> int \<times> 'w"
  os_accept :: "int \<Rightarrow> 'w \<Rightarrow> int \<times> 'w"
  os_poll :: "pollfd \<Rightarrow> 'w \<Rightarrow> int \<times> u32 \<times> 'w"
  os_close :: "int \<Rightarrow> 'w \<Rightarrow> 'w"

record TcpPollable =
  server_socket :: pollfd
  open_fds :: "int list"

definition POLLIN :: u32 where "POLLIN = 1"

definition POLLOUT :: u32 where "POLLOUT = 4"

text \<open>The constructor leaves \<open>server_socket\<close> indeterminate: \<open>junk\<close>.\<close>

definition make_TcpPollable :: "pollfd \<Rightarrow> TcpPollable" where
  "make_TcpPollable junk = \<lparr>server_socket = junk, open_fds = []\<rparr>"

definition TcpPollable_Initialize :: "'w tcp_os \<Rightarrow> TcpPollable \<Rightarrow> 'w \<Rightarrow> bool \<times> TcpPollable \<times> 'w" where
  "TcpPollable_Initialize os p w =
     (let (raw_socket, w1) = os_socket os w in
      if raw_socket < 0 then (False, p, w1)
      else
        let p1 = p\<lparr>open_fds := raw_socket # open_fds p\<rparr>;
            (bound, w2) = os_bind os raw_socket w1;
            (listening, w3) = os_listen os raw_socket w2 in
        if listening < 0 then (False, p1, w3)
        else
          let (flags_set, w4) = os_set_nonblock os raw_socket w3 in
          if flags_set < 0 then (False, p1, w4)
          else (True, p1\<lparr>server_socket :=
                  \<lparr>pfd_fd = raw_socket, pfd_events = POLLIN, pfd_revents = POLLOUT\<rparr>\<rparr>, w4))"

text \<open>\<open>return fd_read\<close> converts the \<open>int\<close> of \<open>poll\<close> to \<open>size_t\<close>.\<close>

definition TcpPollable_PollOnce :: "'w tcp_os \<Rightarrow> TcpPollable \<Rightarrow> 'w \<Rightarrow> u64 \<times> TcpPollable \<times> 'w" where
  "TcpPollable_PollOnce os p w =
     (let (new_fd, w1) = os_accept os (pfd_fd (server_socket p)) w;
          (fd_read, revents, w2) = os_poll os (server_socket p) w1
      in (word_of_int fd_read,
          p\<lparr>server_socket := (server_socket p)\<lparr>pfd_revents := revents\<rparr>,
            open_fds := (if new_fd < 0 then open_fds p else new_fd # open_fds p)\<rparr>, w2))"

definition TcpPollable_StopPolling :: "'w tcp_os \<Rightarrow> TcpPollable \<Rightarrow> 'w \<Rightarrow> TcpPollable \<times> 'w" where
  "TcpPollable_StopPolling os p w =
     (p\<lparr>open_fds := remove1 (pfd_fd (server_socket p)) (open_fds p)\<rparr>,
      os_close os (pfd_fd (server_socket p)) w)"

definition tcp_functions :: "'w tcp_os \<Rightarrow> (TcpPollable, 'w) IPollable" where
  "tcp_functions os =
     \<lparr>Initialize = TcpPollable_Initialize os, PollOnce = TcpPollable_PollOnce os,
      StopPolling = TcpPollable_StopPolling os\<rparr>"

text \<open>
  A failed poll is counted as work. A TCP pollable whose socket the operating system refuses to
  poll returns the largest \<open>size_t\<close>, and in the sum of \<open>PollAll\<close> it takes one away from what the
  pollables before it did: behind one with one event the runner has counted no work at all.
\<close>

lemma tcp_poll_error_is_work:
  assumes "os_poll os (server_socket p) (snd (os_accept os (pfd_fd (server_socket p)) w)) = (-1, revents, w2)"
  shows "unat (fst (pollable_poll (tcp_functions os, p) w)) = 2 ^ 64 - 1 \<and>
    fst (poll_all_from n ((tcp_functions os, p) # ps) w) = fst (poll_all_from (n - 1) ps w2)"
  using assms
  by (auto simp: pollable_poll_def tcp_functions_def TcpPollable_PollOnce_def case_prod_beta Let_def
      unsigned_minus_1_eq_mask mask_eq_exp_minus_1)

text \<open>
  Every connection that is accepted stays open: nothing keeps the descriptor, and stopping closes
  the listening socket only.
\<close>

fun polls :: "nat \<Rightarrow> 'w tcp_os \<Rightarrow> TcpPollable \<Rightarrow> 'w \<Rightarrow> TcpPollable \<times> 'w" where
  "polls 0 os p w = (p, w)"
| "polls (Suc n) os p w = (let (c, p', w') = TcpPollable_PollOnce os p w in polls n os p' w')"

text \<open>The descriptors that \<open>accept\<close> returns on the way, the last one first.\<close>

fun accepted :: "nat \<Rightarrow> 'w tcp_os \<Rightarrow> TcpPollable \<Rightarrow> 'w \<Rightarrow> int list" where
  "accepted 0 os p w = []"
| "accepted (Suc n) os p w =
     (let (c, p', w') = TcpPollable_PollOnce os p w;
          new_fd = fst (os_accept os (pfd_fd (server_socket p)) w)
      in accepted n os p' w' @ (if new_fd < 0 then [] else [new_fd]))"

lemma polls_open_fds:
  "pfd_fd (server_socket (fst (polls n os p w))) = pfd_fd (server_socket p) \<and>
   open_fds (fst (polls n os p w)) = accepted n os p w @ open_fds p"
proof (induction n arbitrary: p w)
  case (Suc n)
  obtain c p' w' where poll: "TcpPollable_PollOnce os p w = (c, p', w')" by (metis prod_cases3)
  then have "pfd_fd (server_socket p') = pfd_fd (server_socket p)"
    "open_fds p' = (if fst (os_accept os (pfd_fd (server_socket p)) w) < 0 then []
       else [fst (os_accept os (pfd_fd (server_socket p)) w)]) @ open_fds p"
    by (auto simp: TcpPollable_PollOnce_def case_prod_beta Let_def)
  with Suc [of p' w'] poll show ?case by simp
qed simp

lemma accepted_descriptors_leak:
  assumes "TcpPollable_Initialize os p w = (True, p', w')" "open_fds p = []"
    and "pfd_fd (server_socket p') \<notin> set (accepted n os p' w')" "polls n os p' w' = (p2, w2)"
  shows "open_fds (fst (TcpPollable_StopPolling os p2 w2)) = accepted n os p' w'"
proof -
  have "open_fds p' = [pfd_fd (server_socket p')]"
    using assms(1,2) by (auto simp: TcpPollable_Initialize_def Let_def split: if_splits prod.splits)
  with polls_open_fds [of n os p' w'] assms(3,4) show ?thesis
    by (simp add: TcpPollable_StopPolling_def remove1_append)
qed

section \<open>Isolated cores\<close>

record CoreAffinity =
  isolated_cores :: "int list"

text \<open>\<open>get_isolated_cores\<close> is a stub: the constructor leaves the queue empty.\<close>

definition get_isolated_cores :: "CoreAffinity \<Rightarrow> CoreAffinity" where
  "get_isolated_cores c = c"

definition make_CoreAffinity :: CoreAffinity where
  "make_CoreAffinity = get_isolated_cores \<lparr>isolated_cores = []\<rparr>"

definition try_get_isolated_core :: "CoreAffinity \<Rightarrow> int option \<times> CoreAffinity" where
  "try_get_isolated_core c =
     (case isolated_cores c of
        core # rest \<Rightarrow> (Some core, c\<lparr>isolated_cores := rest\<rparr>)
      | [] \<Rightarrow> (None, c))"

fun take_cores :: "nat \<Rightarrow> CoreAffinity \<Rightarrow> int option list" where
  "take_cores 0 c = []"
| "take_cores (Suc n) c = (let (x, c') = try_get_isolated_core c in x # take_cores n c')"

text \<open>
  Cores are handed out first in, first out, no core twice, and \<open>nullopt\<close> from then on; a pool
  as the constructor makes it, with its stub, never has one.
\<close>

lemma cores_handed_out_once:
  "take_cores n c = map Some (take n (isolated_cores c)) @
      replicate (n - length (isolated_cores c)) None \<and>
   take_cores n make_CoreAffinity = replicate n None"
proof -
  have "take_cores n c = map Some (take n (isolated_cores c)) @
      replicate (n - length (isolated_cores c)) None" for c
    by (induction n arbitrary: c)
      (auto simp: try_get_isolated_core_def Let_def split: list.splits)
  then show ?thesis by (simp add: make_CoreAffinity_def get_isolated_cores_def)
qed

end
