(* ===== verification/Ipc_Sessions.thy ===== *)
theory Ipc_Sessions
  imports Ipc_Lifecycle Ipc_Guarantees
begin

text \<open>
  Whole sessions of a reader: the constructor and \<open>close\<close> of \<open>Ipc_Lifecycle\<close>, which work on named
  shared memory objects, are steps of the system of \<open>Ipc_System\<close>, so its guarantees hold for
  readers that come and go through them.
\<close>

section \<open>What never changes in a file\<close>

text \<open>The magic number and the size, written when the file is created.\<close>

definition meta_of :: "Segment \<Rightarrow> u32 \<times> u64" where
  "meta_of s = (magic (global_header s), shm_queue_size_bytes (write_fields (global_header s)))"

lemma meta_of_setters [simp]:
  "meta_of (set_packed v s) = meta_of s" "meta_of (set_count c s) = meta_of s"
  "meta_of (set_writers w s) = meta_of s" "meta_of (set_read_offset r s) = meta_of s"
  "meta_of (set_last_cleared r s) = meta_of s" "meta_of (s\<lparr>ring := m\<rparr>) = meta_of s"
  by (simp_all add: meta_of_def set_packed_def set_count_def set_writers_def set_read_offset_def
      set_last_cleared_def)

lemma release_buffer_meta: "release_buffer q s a = Inr (q', s') \<Longrightarrow> meta_of s' = meta_of s"
  by (auto simp: release_buffer_eq after_last_release_def split: if_splits)

lemma place_claim_meta: "place_claim q s sz t = Inr (s', b) \<Longrightarrow> meta_of s' = meta_of s"
  by (auto simp: place_claim_def insert_skip_message_def commit_buffer_def Let_def bindE_eq_Inr
      split: if_splits)

lemma poll_once_meta:
  "poll_once q s = Inr (Poll_Return q' s' got) \<Longrightarrow> meta_of s' = meta_of s"
  "poll_once q s = Inr (Poll_Again q' s') \<Longrightarrow> meta_of s' = meta_of s"
  by (auto simp: poll_once_def Let_def bindE_eq_Inr dest: release_buffer_meta
      split: if_splits option.splits CommitFlag.splits)

lemma decrement_readers_meta:
  "decrement_readers_until n q s x = Some (Inr (q', s')) \<Longrightarrow> meta_of s' = meta_of s"
proof (induction n arbitrary: q s)
  case (Suc n)
  then show ?case
    by (auto simp: Let_def dest: release_buffer_meta split: if_splits sum.splits)
qed simp

lemma sys_step_meta:
  assumes "sys_step wq G \<sigma> \<sigma>'"
  shows "meta_of (seg \<sigma>') = meta_of (seg \<sigma>)"
  using assms
proof cases
  case (reserve w sz s' t)
  then show ?thesis by (auto simp: reserve_write_offset_def Let_def split: prod.splits)
next
  case (publish w b data s')
  then show ?thesis by (auto simp: write_to_buffer_def commit_buffer_def bindE_eq_Inr)
next
  case (join r s' wr q0)
  then show ?thesis by (auto simp: modify_readers_def split: prod.splits)
next
  case (release r q wr q' s' wr')
  then show ?thesis by (auto simp: wrapper_release_def bindE_eq_Inr dest: release_buffer_meta)
next
  case (leave r q s0 wr n q' s')
  then show ?thesis
    by (auto simp: modify_readers_def dest!: decrement_readers_meta split: prod.splits)
next
  case (abort w b)
  then show ?thesis by (simp add: wrapper_abort_def abort_buffer_def meta_of_def)
qed (auto dest: place_claim_meta poll_once_meta)

interpretation meta: invariant_machine "queue_init wq G" "sys_step wq G"
    "\<lambda>\<sigma>. meta_of (seg \<sigma>) = (MAGIC, queue_size_bytes wq)" for wq G
  by unfold_locales
    (simp add: queue_init_def sys_init_def init_new_file_def meta_of_def, simp add: sys_step_meta)

lemma reachable_meta:
  assumes "reachable wq G \<sigma>"
  shows "magic (global_header (seg \<sigma>)) = MAGIC"
    "shm_queue_size_bytes (write_fields (global_header (seg \<sigma>))) = queue_size_bytes wq"
proof -
  have "meta_of (seg \<sigma>) = (MAGIC, queue_size_bytes wq)"
    using assms meta.reachable_inv unfolding reachable_def by blast
  then show "magic (global_header (seg \<sigma>)) = MAGIC"
    "shm_queue_size_bytes (write_fields (global_header (seg \<sigma>))) = queue_size_bytes wq"
    by (simp_all add: meta_of_def)
qed

section \<open>Opening joins\<close>

lemma open_joins:
  assumes "reachable wq G \<sigma>" and size: "queue_size_bytes wq = available_queue_size_bytes wq + sizeof_GlobalHeader"
    and params: "\<not> param_queue_size params > MAX_QUEUE_SIZE_BYTES"
      "is_power_of_two (param_queue_size params)" "may_open (param_file_name params)"
      "\<not> param_is_writer params"
    and named: "names h (param_file_name params) = Some k" "objects h k = seg \<sigma>"
    and new: "open_readers \<sigma> r = None" "held \<sigma> r = None" "card (dom (open_readers \<sigma>)) < 255"
      "seg_hi (seg \<sigma>) \<le> seg_lo (seg \<sigma>) + q_cap wq"
  shows "\<exists>q h' \<sigma>'. open_queue may_open h params = Inr (q, h') \<and> mapped q h' = seg \<sigma>' \<and>
    reachable wq G \<sigma>' \<and> open_readers \<sigma>' = (open_readers \<sigma>)(r \<mapsto> q) \<and>
    fd q = int k \<and> reader_at q = seg_hi (seg \<sigma>) \<and>
    seg_hi (seg \<sigma>') = seg_hi (seg \<sigma>) \<and> seg_lo (seg \<sigma>') = seg_lo (seg \<sigma>) \<and>
    joined \<sigma>' r = seg_hi (seg \<sigma>) \<and> received \<sigma>' r = [] \<and>
    sent \<sigma>' = sent \<sigma> \<and> dropped \<sigma>' = dropped \<sigma> \<and> threads \<sigma>' = threads \<sigma> \<and> held \<sigma>' = held \<sigma>"
proof -
  let ?q = "(IpcQueue_members params)\<lparr>fd := int k\<rparr>"
  let ?p = "return_add_reader (unwrap (packed_of (seg \<sigma>)))"
  obtain q1 where q1: "validate_settings ?q (seg \<sigma>) = Inr q1"
    using reachable_meta(1) [OF assms(1)] by (simp add: validate_settings_def Let_def)
  have q1_fields: "\<not> is_writer q1" "fd q1 = int k"
    "available_queue_size_bytes q1 = available_queue_size_bytes wq"
    using q1 reachable_meta [OF assms(1)] params(4) size
    by (auto simp: validate_settings_def Let_def IpcQueue_members_def split: if_splits)
  let ?s = "set_packed (fst ?p) (seg \<sigma>)"
  let ?q' = "joined_reader wq q1 (snd ?p)"
  have q': "?q' = q1\<lparr>abs_read_offset := write_offset (snd ?p)\<rparr>"
    using q1_fields by (simp add: joined_reader_def)
  have join: "modify_readers True (seg \<sigma>) = (?s, snd ?p)"
    by (simp add: modify_readers_def case_prod_beta)
  have opened: "open_queue may_open h params = Inr (?q', put_mapped ?q' ?s h)"
    using open_queue_existing [of params may_open h k] params named q1 q1_fields(1)
    by (simp add: register_def join q')
  let ?\<sigma> = "\<sigma>\<lparr>seg := ?s, open_readers := (open_readers \<sigma>)(r \<mapsto> ?q'),
      received := (received \<sigma>)(r := []), joined := (joined \<sigma>)(r := seg_hi (seg \<sigma>))\<rparr>"
  have "sys_step wq G \<sigma> ?\<sigma>" by (rule sys_step.join [OF new join])
  then have "reachable wq G ?\<sigma>" by (rule reachable_step [OF assms(1)])
  moreover have "fd ?q' = int k" "reader_at ?q' = seg_hi (seg \<sigma>)" "seg_hi ?s = seg_hi (seg \<sigma>)"
    using q1_fields(2)
    by (simp_all add: q' reader_at_def seg_hi_def packed_frames) (simp add: return_add_reader_def)
  moreover have "seg_lo ?s = seg_lo (seg \<sigma>)" by (simp add: seg_lo_def)
  ultimately show ?thesis
    using opened
    by (intro exI [of _ ?q'] exI [of _ "put_mapped ?q' ?s h"] exI [of _ ?\<sigma>])
      (simp add: mapped_def put_mapped_def)
qed

text \<open>
  C25. Opening is joining. A reader that is constructed on the file of a running queue, within the
  bounds of the system, becomes one of its readers: the object that the constructor returns, with
  the size of the file and the write offset as its read offset, is the new reader's state, and the
  segment it leaves is a reachable state. So everything the queue guarantees to its readers holds
  for it from then on.
\<close>

theorem reader_open_joins:
  assumes "reachable wq G \<sigma>" and size: "queue_size_bytes wq = available_queue_size_bytes wq + sizeof_GlobalHeader"
    and params: "\<not> param_queue_size params > MAX_QUEUE_SIZE_BYTES"
      "is_power_of_two (param_queue_size params)" "may_open (param_file_name params)"
      "\<not> param_is_writer params"
    and named: "names h (param_file_name params) = Some k" "objects h k = seg \<sigma>"
    and new: "open_readers \<sigma> r = None" "held \<sigma> r = None" "card (dom (open_readers \<sigma>)) < 255"
      "seg_hi (seg \<sigma>) \<le> seg_lo (seg \<sigma>) + q_cap wq"
  shows "\<exists>q h' \<sigma>'. open_queue may_open h params = Inr (q, h') \<and> mapped q h' = seg \<sigma>' \<and>
    reachable wq G \<sigma>' \<and> open_readers \<sigma>' = (open_readers \<sigma>)(r \<mapsto> q) \<and>
    fd q = int k \<and> reader_at q = seg_hi (seg \<sigma>) \<and>
    seg_hi (seg \<sigma>') = seg_hi (seg \<sigma>) \<and> seg_lo (seg \<sigma>') = seg_lo (seg \<sigma>) \<and>
    joined \<sigma>' r = seg_hi (seg \<sigma>) \<and> received \<sigma>' r = [] \<and>
    sent \<sigma>' = sent \<sigma> \<and> dropped \<sigma>' = dropped \<sigma> \<and> threads \<sigma>' = threads \<sigma> \<and> held \<sigma>' = held \<sigma>"
  using assms by (rule open_joins)

text \<open>The run of \<open>Ipc_Guarantees\<close>, with its file under the name /q.\<close>

definition demo_machine :: "Segment \<Rightarrow> Shm" where
  "demo_machine s = \<lparr>names = [''/q'' \<mapsto> 0], objects = (\<lambda>_. s), next_object = 1\<rparr>"

lemma demo_writer_size:
  "queue_size_bytes (demo_writer n) = available_queue_size_bytes (demo_writer n) + sizeof_GlobalHeader"
  by (simp add: demo_writer_def IpcQueue_members_def)

theorem reader_open_joins_witness:
  "\<exists>q h' \<sigma>'. open_queue (\<lambda>_. True) (demo_machine demo_published) (demo_params 64 False) = Inr (q, h') \<and>
    mapped q h' = seg \<sigma>' \<and> reachable (demo_writer 128) (grid 46) \<sigma>' \<and>
    open_readers \<sigma>' 1 = Some q \<and> joined \<sigma>' 1 = 46"
proof -
  have "open_readers demo_system 1 = None" "held demo_system 1 = None"
    "card (dom (open_readers demo_system)) < 255" "seg demo_system = demo_published"
    by (simp_all add: demo_system_def)
  with reader_open_joins [OF demo_system_reachable demo_writer_size, of "demo_params 64 False" "\<lambda>_. True"
      "demo_machine demo_published" 0 1] demo_published_packed(2) demo_power
  show ?thesis
    by (fastforce simp: demo_params_def demo_machine_def MAX_QUEUE_SIZE_BYTES_def)
qed

section \<open>Closing leaves\<close>

lemma decrement_readers_fields:
  assumes "decrement_readers_until n q s x = Some (Inr (q', s'))"
  shows "fd q' = fd q" "file_name q' = file_name q" "is_writer q' = is_writer q"
  using assms
  by (induction n arbitrary: q s)
    (auto simp: Let_def release_buffer_eq after_release_def split: if_splits)

text \<open>
  C26. Closing is leaving. When no writer is at work, the ring is not full and no aborted message
  is unread, a reader that holds no message closes its queue without an error and within one round
  of its loop per 18 unread bytes: it takes itself off the reader count, releases everything it has not read, and leaves the
  segment in a reachable state in which it is not a reader and every other reader is where it was
  and finds what it would have found. The name of the file goes with the last writer.
\<close>

theorem reader_close_leaves:
  assumes "reachable wq G \<sigma>" "open_readers \<sigma> r = Some q" "held \<sigma> r = None"
    and "threads \<sigma> = Map.empty" "seg_hi (seg \<sigma>) < seg_lo (seg \<sigma>) + q_cap wq"
    and "\<forall>x\<in>dropped \<sigma>. x < reader_at q"
    and "seg_hi (seg \<sigma>) - reader_at q < 18 * n" "fd q = int k" "objects h k = seg \<sigma>"
  shows "\<exists>q' h' \<sigma>'. close_queue n q h = Some (Inr (q', h')) \<and> fd q' = -1 \<and>
    objects h' k = seg \<sigma>' \<and> reachable wq G \<sigma>' \<and>
    open_readers \<sigma>' = (open_readers \<sigma>)(r := None) \<and> sent \<sigma>' = sent \<sigma> \<and> dropped \<sigma>' = dropped \<sigma> \<and>
    received \<sigma>' = received \<sigma> \<and> held \<sigma>' = held \<sigma> \<and>
    names h' = (if writers_of (seg \<sigma>') = 0 then (names h)(file_name q := None) else names h)"
proof -
  obtain A where R: "refines wq G \<sigma> A" using reachable_refines [OF assms(1)] .
  have reader: "\<not> is_writer q" by (rule reader_facts(2) [OF R assms(2)])
  obtain s0 wr where mod: "modify_readers False (seg \<sigma>) = (s0, wr)" by fastforce
  from refines_leave [OF R assms(2-6) mod, of n] assms(7) obtain q1 s'
    where drain: "decrement_readers_until n q s0 (write_offset wr) = Some (Inr (q1, s'))" by blast
  let ?\<sigma> = "\<sigma>\<lparr>seg := s', open_readers := (open_readers \<sigma>)(r := None)\<rparr>"
  have reach: "reachable wq G ?\<sigma>"
    by (rule reachable_step [OF assms(1) sys_step.leave [OF assms(2-6) mod drain]])
  note same = decrement_readers_fields [OF drain]
  have "close_queue n q h = Some (Inr (q1\<lparr>fd := -1\<rparr>,
      if writers_of s' = 0 then shm_unlink (file_name q) (put_mapped q1 s' h) else put_mapped q1 s' h))"
    using reader assms(8,9) mod drain same
    by (simp add: close_queue_def mapped_def remove_file_def Let_def put_mapped_def)
  with reach assms(8) same show ?thesis
    by (intro exI [of _ "q1\<lparr>fd := -1\<rparr>"] exI [of _ ?\<sigma>] exI conjI) (assumption, simp_all)
qed

theorem reader_close_leaves_witness:
  "\<exists>q h q' h'. open_queue (\<lambda>_. True) (demo_machine (seg demo_final)) (demo_params 64 False) = Inr (q, h) \<and>
    close_queue 1 q h = Some (Inr (q', h')) \<and> fd q' = -1"
proof -
  have fields: "open_readers demo_final 1 = None" "held demo_final 1 = None"
    "card (dom (open_readers demo_final)) < 255" "threads demo_final = Map.empty"
    "seg_hi (seg demo_final) = 46" "seg_lo (seg demo_final) = 46" "dropped demo_final = {}"
    using demo_published_packed(2) demo_header(2)
    by (simp_all add: demo_final_def demo_system_def after_last_release_def seg_hi_def seg_lo_def
        msg_total_def sizeof_MessageHeader_def demo_published_def commit_buffer_def demo_placed_def
        demo_reserved_def)
  then obtain q h \<sigma> where opened:
    "open_queue (\<lambda>_. True) (demo_machine (seg demo_final)) (demo_params 64 False) = Inr (q, h)"
    "mapped q h = seg \<sigma>" "reachable (demo_writer 128) (grid 46) \<sigma>" "open_readers \<sigma> 1 = Some q"
    "fd q = int 0" "reader_at q = 46" "seg_hi (seg \<sigma>) = 46" "seg_lo (seg \<sigma>) = 46"
    "threads \<sigma> = Map.empty" "held \<sigma> 1 = None" "dropped \<sigma> = {}"
    using open_joins [OF demo_final_reachable demo_writer_size, of "demo_params 64 False" "\<lambda>_. True"
        "demo_machine (seg demo_final)" 0 1] demo_power
    by (fastforce simp: demo_params_def demo_machine_def MAX_QUEUE_SIZE_BYTES_def)
  with reader_close_leaves [OF opened(3,4,10,9), of 1 0 h] show ?thesis
    by (auto simp: mapped_def)
qed

end
