(* ===== verification/Ipc_Processes.thy ===== *)
theory Ipc_Processes
  imports Ipc_Sessions
begin

text \<open>
  The constructor and \<open>close\<close> of message_transport/ipc_queue.cpp as the steps of processes that
  interleave: every call of the system, every store of \<open>init_new_file\<close> and every load that decides
  something is a step. \<open>Ipc_Lifecycle\<close> has the same functions as one step each.

  Any number of processes use any names. Each has one queue object, which it constructs and later
  closes; a process that opens a queue again is another process here. What the processes do with
  the queue in between is any change that leaves alone the magic number, the size, the number of
  writers and the number of readers; the operations of \<open>Ipc_System\<close> are of this kind. \<open>ftruncate\<close> and
  \<open>mmap\<close> succeed, as the code takes for granted.
\<close>

section \<open>Initialising a file, store by store\<close>

datatype InitStore =
    Zero_Ring u64
  | Init_Readers_And_Offset
  | Init_Queue_Size u64
  | Init_Message_Count
  | Init_Num_Writers
  | Init_Read_Offset
  | Init_Magic

primrec init_store :: "InitStore \<Rightarrow> Segment \<Rightarrow> Segment" where
  "init_store (Zero_Ring n) s = s\<lparr>ring := mem_set (ring s) 0 0 (unat n)\<rparr>"
| "init_store Init_Readers_And_Offset s = set_packed 0 s"
| "init_store (Init_Queue_Size n) s = s\<lparr>global_header := (global_header s)
     \<lparr>write_fields := (write_fields (global_header s))\<lparr>shm_queue_size_bytes := n\<rparr>\<rparr>\<rparr>"
| "init_store Init_Message_Count s = set_count 0 s"
| "init_store Init_Num_Writers s = set_writers 0 s"
| "init_store Init_Read_Offset s = set_read_offset 0 s"
| "init_store Init_Magic s = s\<lparr>global_header := (global_header s)\<lparr>magic := MAGIC\<rparr>\<rparr>"

definition init_stores :: "IpcQueue \<Rightarrow> InitStore list" where
  "init_stores q =
     [Zero_Ring (available_queue_size_bytes q), Init_Readers_And_Offset,
      Init_Queue_Size (queue_size_bytes q), Init_Message_Count, Init_Num_Writers, Init_Read_Offset,
      Init_Magic]"

text \<open>A new object, and what \<open>ftruncate\<close> adds to it, holds zeros.\<close>

definition zero_segment :: Segment where
  "zero_segment =
     \<lparr>global_header =
        \<lparr>magic = 0,
         write_fields = \<lparr>readers_and_write_offset = 0, message_count = 0,
           shm_queue_size_bytes = 0, num_writers = 0\<rparr>,
         read_fields = \<lparr>read_offset = 0, last_cleared_abs_offset = 0\<rparr>\<rparr>,
      ring = (\<lambda>_. 0)\<rparr>"

lemma init_stores_fill_a_new_file: "fold init_store (init_stores q) zero_segment = init_new_file q"
  by (simp add: init_stores_def zero_segment_def init_new_file_def mem_set_def set_packed_def
      set_count_def set_writers_def set_read_offset_def)

section \<open>The steps of a process\<close>

text \<open>An object also has a size, which is zero until its creator has called \<open>ftruncate\<close>.\<close>

record Machine =
  shm :: Shm
  file_size :: "nat \<Rightarrow> u64"

datatype ProcessPhase =
    Before_Open
  | Creating                                            \<comment> \<open>the first \<open>shm_open\<close> failed\<close>
  | Truncating IpcQueue
  | Initialising IpcQueue "InitStore list"              \<comment> \<open>the stores that are left\<close>
  | Checking_Magic IpcQueue
  | Checking_Size IpcQueue
  | Registering IpcQueue
  | Attached IpcQueue                                   \<comment> \<open>the constructor has returned\<close>
  | Writer_Leaving IpcQueue UnpackedReadersAndWriterOffset
  | Draining IpcQueue UnpackedReadersAndWriterOffset
  | Counting_Writers IpcQueue UnpackedReadersAndWriterOffset
  | Unlinking IpcQueue
  | Detached IpcQueue
  | Thrown error
  | Bus_Error                                           \<comment> \<open>an access behind the end of the object\<close>

definition segment_of :: "IpcQueue \<Rightarrow> Machine \<Rightarrow> Segment" where
  "segment_of q m = mapped q (shm m)"

definition put_segment :: "IpcQueue \<Rightarrow> Segment \<Rightarrow> Machine \<Rightarrow> Machine" where
  "put_segment q s m = m\<lparr>shm := put_mapped q s (shm m)\<rparr>"

text \<open>The second half of \<open>validate_settings\<close>, after the check of the magic number.\<close>

definition adopt_size :: "IpcQueue \<Rightarrow> Segment \<Rightarrow> IpcQueue" where
  "adopt_size q s =
     (let actual = shm_queue_size_bytes (write_fields (global_header s)) in
      if actual \<noteq> queue_size_bytes q
      then q\<lparr>queue_size_bytes := actual, available_queue_size_bytes := actual - sizeof_GlobalHeader\<rparr>
      else q)"

lemma validate_settings_steps:
  "validate_settings q s =
     (if magic (global_header s) \<noteq> MAGIC then Inl Queue_Uninitialized else Inr (adopt_size q s))"
  by (simp add: validate_settings_def adopt_size_def Let_def)

text \<open>
  The next step of a process, from the state of the machine and from where the process is. A file
  that cannot be opened cannot be created either. Access to an object of size zero is a bus error; a
  page is larger than the header, so any other size is enough for it.
\<close>

fun process_step ::
    "(string \<Rightarrow> bool) \<Rightarrow> IpcQueueParameters \<Rightarrow> Machine \<Rightarrow> ProcessPhase \<Rightarrow> (Machine \<times> ProcessPhase) option" where
  "process_step may_open params m Before_Open =
     (let q = IpcQueue_members params; name = param_file_name params in
      if param_queue_size params > MAX_QUEUE_SIZE_BYTES then Some (m, Thrown Queue_Too_Large)
      else if \<not> is_power_of_two (available_queue_size_bytes q) then Some (m, Thrown Not_Power_Of_Two)
      else case names (shm m) name of
        Some k \<Rightarrow> if may_open name then Some (m, Checking_Magic (q\<lparr>fd := int k\<rparr>)) else Some (m, Creating)
      | None \<Rightarrow> Some (m, Creating))"
| "process_step may_open params m Creating =
     (let q = IpcQueue_members params; name = param_file_name params; k = next_object (shm m) in
      if names (shm m) name \<noteq> None \<or> \<not> may_open name then Some (m, Thrown Shm_Open_Failed)
      else Some (m\<lparr>shm := shm_create name zero_segment (shm m), file_size := (file_size m)(k := 0)\<rparr>,
        Truncating (q\<lparr>fd := int k\<rparr>)))"
| "process_step may_open params m (Truncating q) =
     Some (m\<lparr>file_size := (file_size m)(nat (fd q) := queue_size_bytes q)\<rparr>, Initialising q (init_stores q))"
| "process_step may_open params m (Initialising q []) = Some (m, Registering q)"
| "process_step may_open params m (Initialising q (st # sts)) =
     Some (put_segment q (init_store st (segment_of q m)) m, Initialising q sts)"
| "process_step may_open params m (Checking_Magic q) =
     (if file_size m (nat (fd q)) = 0 then Some (m, Bus_Error)
      else if magic (global_header (segment_of q m)) \<noteq> MAGIC then Some (m, Thrown Queue_Uninitialized)
      else Some (m, Checking_Size q))"
| "process_step may_open params m (Checking_Size q) =
     Some (m, Registering (adopt_size q (segment_of q m)))"
| "process_step may_open params m (Registering q) =
     (let (q', s) = register q (segment_of q m) in Some (put_segment q' s m, Attached q'))"
| "process_step may_open params m (Attached q) =
     (if \<not> is_writer q then
        let (s, wrapper) = modify_readers False (segment_of q m)
        in Some (put_segment q s m, Draining q wrapper)
      else Some (m, Writer_Leaving q (unwrap (packed_of (segment_of q m)))))"
| "process_step may_open params m (Writer_Leaving q wrapper) =
     (let s = segment_of q m
      in Some (put_segment q (set_writers (writers_of s - 1) s) m, Counting_Writers q wrapper))"
| "process_step may_open params m (Draining q wrapper) =
     (if abs_read_offset q \<le> write_offset wrapper then
        let s = segment_of q m; a = unat (abs_read_offset q mod available_queue_size_bytes q) in
        if commit_flag_of_byte (hdr_commit_flag (ring s) a) \<noteq> Some READY_FOR_CONSUMER then
          Some (m, Counting_Writers q wrapper)
        else (case release_buffer q s a of
                Inl e \<Rightarrow> Some (m, Thrown e)
              | Inr (q', s') \<Rightarrow> Some (put_segment q s' m, Draining q' wrapper))
      else Some (m, Counting_Writers q wrapper))"
| "process_step may_open params m (Counting_Writers q wrapper) =
     Some (m, if remove_file q (writers_of (segment_of q m)) wrapper then Unlinking q
              else Detached (q\<lparr>fd := -1\<rparr>))"
| "process_step may_open params m (Unlinking q) =
     Some (m\<lparr>shm := shm_unlink (file_name q) (shm m)\<rparr>, Detached (q\<lparr>fd := -1\<rparr>))"
| "process_step may_open params m (Detached q) = None"
| "process_step may_open params m (Thrown e) = None"
| "process_step may_open params m Bus_Error = None"

section \<open>The system\<close>

record Processes =
  machine :: Machine
  phase_of :: "nat \<Rightarrow> ProcessPhase"

text \<open>What the operations on an open queue keep.\<close>

definition same_counts :: "Segment \<Rightarrow> Segment \<Rightarrow> bool" where
  "same_counts s s' \<longleftrightarrow>
     magic (global_header s') = magic (global_header s) \<and>
     shm_queue_size_bytes (write_fields (global_header s')) =
       shm_queue_size_bytes (write_fields (global_header s)) \<and>
     writers_of s' = writers_of s \<and>
     num_readers (unwrap (packed_of s')) = num_readers (unwrap (packed_of s))"

definition same_queue :: "IpcQueue \<Rightarrow> IpcQueue \<Rightarrow> bool" where
  "same_queue q q' \<longleftrightarrow>
     (\<exists>x n. q' = q\<lparr>abs_read_offset := x, read_message_cnt := n\<rparr>)"

inductive lifecycle_step ::
    "(string \<Rightarrow> bool) \<Rightarrow> (nat \<Rightarrow> IpcQueueParameters) \<Rightarrow> Processes \<Rightarrow> Processes \<Rightarrow> bool"
  for may_open :: "string \<Rightarrow> bool" and params :: "nat \<Rightarrow> IpcQueueParameters" where
  act:
    "process_step may_open (params i) (machine \<pi>) (phase_of \<pi> i) = Some (m', ph') \<Longrightarrow>
     lifecycle_step may_open params \<pi> (\<pi>\<lparr>machine := m', phase_of := (phase_of \<pi>)(i := ph')\<rparr>)"
| traffic:
    "phase_of \<pi> i = Attached q \<Longrightarrow> same_counts (segment_of q (machine \<pi>)) s' \<Longrightarrow> same_queue q q' \<Longrightarrow>
     lifecycle_step may_open params \<pi>
       (\<pi>\<lparr>machine := put_segment q s' (machine \<pi>), phase_of := (phase_of \<pi>)(i := Attached q')\<rparr>)"

definition lifecycle_init :: "Processes \<Rightarrow> bool" where
  "lifecycle_init \<pi> \<longleftrightarrow> names (shm (machine \<pi>)) = Map.empty \<and> next_object (shm (machine \<pi>)) = 0 \<and>
     phase_of \<pi> = (\<lambda>_. Before_Open)"

definition lifecycle_reachable ::
    "(string \<Rightarrow> bool) \<Rightarrow> (nat \<Rightarrow> IpcQueueParameters) \<Rightarrow> Processes \<Rightarrow> bool" where
  "lifecycle_reachable may_open params \<pi> \<longleftrightarrow>
     (\<exists>\<pi>0. lifecycle_init \<pi>0 \<and> (lifecycle_step may_open params)\<^sup>*\<^sup>* \<pi>0 \<pi>)"

section \<open>What holds of the machine and of each process\<close>

definition size_at :: "Machine \<Rightarrow> nat \<Rightarrow> u64" where
  "size_at m k = shm_queue_size_bytes (write_fields (global_header (objects (shm m) k)))"

definition initialised :: "Machine \<Rightarrow> nat \<Rightarrow> bool" where
  "initialised m k \<longleftrightarrow> k < next_object (shm m) \<and> magic (global_header (objects (shm m) k)) = MAGIC"

text \<open>The counts of an object; they count nothing while the object is not initialised.\<close>

definition readers_at :: "Machine \<Rightarrow> nat \<Rightarrow> u8" where
  "readers_at m k =
     (if initialised m k then ucast (num_readers (unwrap (packed_of (objects (shm m) k)))) else 0)"

definition writers_at :: "Machine \<Rightarrow> nat \<Rightarrow> u32" where
  "writers_at m k = (if initialised m k then writers_of (objects (shm m) k) else 0)"

definition sized :: "u64 \<Rightarrow> bool" where
  "sized z \<longleftrightarrow> (\<exists>n. is_power_of_two n \<and> n \<le> MAX_QUEUE_SIZE_BYTES \<and> z = n + sizeof_GlobalHeader)"

definition machine_ok :: "Machine \<Rightarrow> bool" where
  "machine_ok m \<longleftrightarrow>
     (\<forall>k. initialised m k \<longrightarrow> file_size m k = size_at m k \<and> sized (size_at m k)) \<and>
     (\<forall>n k. names (shm m) n = Some k \<longrightarrow> k < next_object (shm m))"

definition usable :: "IpcQueueParameters \<Rightarrow> bool" where
  "usable p \<longleftrightarrow> param_queue_size p \<le> MAX_QUEUE_SIZE_BYTES \<and> is_power_of_two (param_queue_size p)"

text \<open>A queue object before it has looked at the file, and after.\<close>

definition opened :: "IpcQueueParameters \<Rightarrow> nat \<Rightarrow> IpcQueue" where
  "opened p k = (IpcQueue_members p)\<lparr>fd := int k\<rparr>"

definition validated :: "IpcQueueParameters \<Rightarrow> Machine \<Rightarrow> nat \<Rightarrow> IpcQueue" where
  "validated p m k = adopt_size (opened p k) (objects (shm m) k)"

definition attached_to :: "IpcQueueParameters \<Rightarrow> Machine \<Rightarrow> IpcQueue \<Rightarrow> nat \<Rightarrow> bool" where
  "attached_to p m q k \<longleftrightarrow> initialised m k \<and> same_queue (validated p m k) q"

primrec phase_ok :: "IpcQueueParameters \<Rightarrow> Machine \<Rightarrow> ProcessPhase \<Rightarrow> bool" where
  "phase_ok p m Before_Open \<longleftrightarrow> True"
| "phase_ok p m Creating \<longleftrightarrow> usable p"
| "phase_ok p m (Truncating q) \<longleftrightarrow> usable p \<and>
     (\<exists>k < next_object (shm m). q = opened p k \<and> objects (shm m) k = zero_segment)"
| "phase_ok p m (Initialising q sts) \<longleftrightarrow> usable p \<and>
     (\<exists>k < next_object (shm m). q = opened p k \<and>
        (if sts = [] then initialised m k \<and> size_at m k = queue_size_bytes q
         else file_size m k = queue_size_bytes q \<and>
           (\<exists>done. init_stores q = done @ sts \<and> objects (shm m) k = fold init_store done zero_segment)))"
| "phase_ok p m (Checking_Magic q) \<longleftrightarrow> usable p \<and> (\<exists>k < next_object (shm m). q = opened p k)"
| "phase_ok p m (Checking_Size q) \<longleftrightarrow> usable p \<and> (\<exists>k. initialised m k \<and> q = opened p k)"
| "phase_ok p m (Registering q) \<longleftrightarrow> usable p \<and> (\<exists>k. initialised m k \<and> q = validated p m k)"
| "phase_ok p m (Attached q) \<longleftrightarrow> (\<exists>k. attached_to p m q k)"
| "phase_ok p m (Writer_Leaving q w) \<longleftrightarrow> is_writer q \<and> (\<exists>k. attached_to p m q k)"
| "phase_ok p m (Draining q w) \<longleftrightarrow> (\<exists>k. attached_to p m q k)"
| "phase_ok p m (Counting_Writers q w) \<longleftrightarrow> (\<exists>k. attached_to p m q k)"
| "phase_ok p m (Unlinking q) \<longleftrightarrow> (\<exists>k. attached_to p m q k)"
| "phase_ok p m (Detached q) \<longleftrightarrow> True"
| "phase_ok p m (Thrown e) \<longleftrightarrow> True"
| "phase_ok p m Bus_Error \<longleftrightarrow> True"

text \<open>The process that is making an object.\<close>

primrec building :: "ProcessPhase \<Rightarrow> nat option" where
  "building (Truncating q) = Some (nat (fd q))"
| "building (Initialising q sts) = (if sts = [] then None else Some (nat (fd q)))"
| "building Before_Open = None"
| "building Creating = None"
| "building (Checking_Magic q) = None"
| "building (Checking_Size q) = None"
| "building (Registering q) = None"
| "building (Attached q) = None"
| "building (Writer_Leaving q w) = None"
| "building (Draining q w) = None"
| "building (Counting_Writers q w) = None"
| "building (Unlinking q) = None"
| "building (Detached q) = None"
| "building (Thrown e) = None"
| "building Bus_Error = None"

text \<open>The object a process is counted in, and whether as a writer.\<close>

primrec registered :: "ProcessPhase \<Rightarrow> (nat \<times> bool) option" where
  "registered (Attached q) = Some (nat (fd q), is_writer q)"
| "registered (Writer_Leaving q w) = Some (nat (fd q), True)"
| "registered (Truncating q) = None"
| "registered (Initialising q sts) = None"
| "registered Before_Open = None"
| "registered Creating = None"
| "registered (Checking_Magic q) = None"
| "registered (Checking_Size q) = None"
| "registered (Registering q) = None"
| "registered (Draining q w) = None"
| "registered (Counting_Writers q w) = None"
| "registered (Unlinking q) = None"
| "registered (Detached q) = None"
| "registered (Thrown e) = None"
| "registered Bus_Error = None"

definition members :: "Processes \<Rightarrow> nat \<Rightarrow> bool \<Rightarrow> nat set" where
  "members \<pi> k w = {i. registered (phase_of \<pi> i) = Some (k, w)}"

definition lifecycle_inv :: "(nat \<Rightarrow> IpcQueueParameters) \<Rightarrow> Processes \<Rightarrow> bool" where
  "lifecycle_inv params \<pi> \<longleftrightarrow> machine_ok (machine \<pi>) \<and>
     (\<forall>i. phase_ok (params i) (machine \<pi>) (phase_of \<pi> i)) \<and>
     (\<forall>i j k. building (phase_of \<pi> i) = Some k \<longrightarrow> building (phase_of \<pi> j) = Some k \<longrightarrow> i = j) \<and>
     (\<forall>k w. finite (members \<pi> k w)) \<and>
     (\<forall>k. readers_at (machine \<pi>) k = of_nat (card (members \<pi> k False)) \<and>
       writers_at (machine \<pi>) k = of_nat (card (members \<pi> k True)))"

section \<open>A step of one process\<close>

text \<open>
  What a step may do: it keeps the objects that are initialised, it writes to no other object but
  one that the process is making, and it changes a count with the place the process has in it.
\<close>

definition keeps :: "Machine \<Rightarrow> Machine \<Rightarrow> bool" where
  "keeps m m' \<longleftrightarrow> next_object (shm m) \<le> next_object (shm m') \<and>
     (\<forall>k. initialised m k \<longrightarrow> initialised m' k \<and> size_at m' k = size_at m k)"

definition local_step ::
    "IpcQueueParameters \<Rightarrow> Machine \<Rightarrow> ProcessPhase \<Rightarrow> Machine \<Rightarrow> ProcessPhase \<Rightarrow> bool" where
  "local_step p m ph m' ph' \<longleftrightarrow> keeps m m' \<and> machine_ok m' \<and> phase_ok p m' ph' \<and>
     (\<forall>k < next_object (shm m). building ph \<noteq> Some k \<longrightarrow> \<not> initialised m k \<longrightarrow>
        objects (shm m') k = objects (shm m) k \<and> file_size m' k = file_size m k) \<and>
     (\<forall>k. building ph' = Some k \<longrightarrow> building ph = Some k \<or> next_object (shm m) \<le> k) \<and>
     (\<forall>k. readers_at m' k + of_bool (registered ph = Some (k, False)) =
        readers_at m k + of_bool (registered ph' = Some (k, False))) \<and>
     (\<forall>k. writers_at m' k + of_bool (registered ph = Some (k, True)) =
        writers_at m k + of_bool (registered ph' = Some (k, True)))"

lemma opened_simps [simp]:
  "fd (opened p k) = int k" "is_writer (opened p k) = param_is_writer p"
  "file_name (opened p k) = param_file_name p"
  "queue_size_bytes (opened p k) = param_queue_size p + sizeof_GlobalHeader"
  "available_queue_size_bytes (opened p k) = param_queue_size p"
  by (simp_all add: opened_def IpcQueue_members_def)

lemma validated_simps [simp]:
  "fd (validated p m k) = int k" "is_writer (validated p m k) = param_is_writer p"
  "file_name (validated p m k) = param_file_name p"
  "queue_size_bytes (validated p m k) = size_at m k"
  "available_queue_size_bytes (validated p m k) = size_at m k - sizeof_GlobalHeader"
  by (simp_all add: validated_def adopt_size_def Let_def size_at_def)

lemma same_queue_simps:
  "same_queue q q' \<Longrightarrow> fd q' = fd q" "same_queue q q' \<Longrightarrow> is_writer q' = is_writer q"
  "same_queue q q' \<Longrightarrow> file_name q' = file_name q"
  "same_queue q q' \<Longrightarrow> queue_size_bytes q' = queue_size_bytes q"
  "same_queue q q' \<Longrightarrow> available_queue_size_bytes q' = available_queue_size_bytes q"
  by (auto simp: same_queue_def)

lemma same_queue_refl [simp]: "same_queue q q"
  unfolding same_queue_def by (intro exI [of _ "abs_read_offset q"] exI [of _ "read_message_cnt q"]) simp

lemma same_queue_trans:
  assumes "same_queue q q'" "same_queue q' q''"
  shows "same_queue q q''"
proof -
  from assms obtain x n where "q'' = q\<lparr>abs_read_offset := x, read_message_cnt := n\<rparr>"
    by (auto simp: same_queue_def)
  then show ?thesis unfolding same_queue_def by blast
qed

lemma keeps_refl [simp]: "keeps m m" by (simp add: keeps_def)

lemma validated_keeps: "keeps m m' \<Longrightarrow> initialised m k \<Longrightarrow> validated p m' k = validated p m k"
  by (simp add: validated_def adopt_size_def keeps_def size_at_def [symmetric] Let_def)

lemma attached_to_keeps: "keeps m m' \<Longrightarrow> attached_to p m q k \<Longrightarrow> attached_to p m' q k"
  by (auto simp: attached_to_def validated_keeps) (auto simp: keeps_def)

lemma phase_ok_keeps:
  assumes "phase_ok p m ph" "keeps m m'"
    and "\<And>k. building ph = Some k \<Longrightarrow> objects (shm m') k = objects (shm m) k \<and> file_size m' k = file_size m k"
  shows "phase_ok p m' ph"
proof -
  have grows: "k < next_object (shm m')" if "k < next_object (shm m)" for k
    using assms(2) that by (simp add: keeps_def)
  have init: "initialised m' k" "size_at m' k = size_at m k" if "initialised m k" for k
    using assms(2) that by (simp_all add: keeps_def)
  show ?thesis
    using assms(1,3)
    by (cases ph) (force intro: grows init attached_to_keeps [OF assms(2)] simp: init validated_keeps [OF assms(2)]
        split: if_splits)+
qed

lemma put_segment_simps [simp]:
  "next_object (shm (put_segment q s m)) = next_object (shm m)"
  "names (shm (put_segment q s m)) = names (shm m)"
  "file_size (put_segment q s m) = file_size m"
  "fd q = int k \<Longrightarrow> objects (shm (put_segment q s m)) j = (if j = k then s else objects (shm m) j)"
  by (simp_all add: put_segment_def put_mapped_def)

lemma segment_of_simp: "fd q = int k \<Longrightarrow> segment_of q m = objects (shm m) k"
  by (simp add: segment_of_def mapped_def)

text \<open>A step that changes nothing but where the process is.\<close>

lemma local_step_idle:
  assumes "machine_ok m" "phase_ok p m ph'" "building ph' = None" "registered ph' = registered ph"
  shows "local_step p m ph m ph'"
  using assms by (simp add: local_step_def)

text \<open>A step that writes to an object that is initialised.\<close>

lemma put_segment_keeps:
  assumes "machine_ok m" "initialised m k" "fd q = int k"
    and "magic (global_header s) = MAGIC"
    and "shm_queue_size_bytes (write_fields (global_header s)) = size_at m k"
  shows "keeps m (put_segment q s m)" "machine_ok (put_segment q s m)"
    "readers_at (put_segment q s m) j =
       (if j = k then ucast (num_readers (unwrap (packed_of s))) else readers_at m j)"
    "writers_at (put_segment q s m) j = (if j = k then writers_of s else writers_at m j)"
proof -
  have init: "initialised (put_segment q s m) i = initialised m i" for i
    using assms(2-4) by (simp add: initialised_def)
  moreover have size: "size_at (put_segment q s m) i = size_at m i" for i
    using assms(3,5) by (simp add: size_at_def)
  ultimately show "keeps m (put_segment q s m)" "machine_ok (put_segment q s m)"
    using assms(1) by (simp_all add: keeps_def machine_ok_def)
  show "readers_at (put_segment q s m) j =
       (if j = k then ucast (num_readers (unwrap (packed_of s))) else readers_at m j)"
    "writers_at (put_segment q s m) j = (if j = k then writers_of s else writers_at m j)"
    using assms(2,3) by (simp_all add: readers_at_def writers_at_def init)
qed

lemma local_step_update:
  assumes "machine_ok m" "initialised m k" "fd q = int k"
    and "magic (global_header s) = MAGIC"
    and "shm_queue_size_bytes (write_fields (global_header s)) = size_at m k"
    and "phase_ok p (put_segment q s m) ph'" "building ph' = None"
    and reg: "registered ph = None \<or> fst (the (registered ph)) = k" "registered ph' = None \<or> fst (the (registered ph')) = k"
    and "ucast (num_readers (unwrap (packed_of s))) + of_bool (registered ph = Some (k, False)) =
      readers_at m k + of_bool (registered ph' = Some (k, False))"
    and "writers_of s + of_bool (registered ph = Some (k, True)) =
      writers_at m k + of_bool (registered ph' = Some (k, True))"
  shows "local_step p m ph (put_segment q s m) ph'"
proof -
  note put = put_segment_keeps [OF assms(1-5)]
  have "objects (shm (put_segment q s m)) j = objects (shm m) j" if "\<not> initialised m j" for j
    using assms(2,3) that by auto
  moreover have "registered ph \<noteq> Some (j, b)" "registered ph' \<noteq> Some (j, b)" if "j \<noteq> k" for j b
    using reg that by auto
  ultimately show ?thesis
    using put assms by (auto simp: local_step_def)
qed

text \<open>The two counts as they are added to and taken from.\<close>

lemma u8_of_u64: "(ucast (x :: u64) :: u8) = word_of_nat (unat x)"
  by (simp add: word_unat_eq_iff unsigned_ucast_eq take_bit_nat_def)

lemma readers_after_join:
  "(ucast (num_readers (unwrap (fst (return_add_reader (unwrap v))))) :: u8) =
     ucast (num_readers (unwrap v)) + 1"
  unfolding u8_of_u64 packed_readers_add
  by (simp add: word_unat_eq_iff unat_word_ariths unsigned_of_nat unsigned_ucast_eq take_bit_nat_def mod_Suc_eq)

lemma readers_after_leave:
  "(ucast (num_readers (unwrap (fst (return_sub_reader (unwrap v))))) :: u8) + 1 =
     ucast (num_readers (unwrap v))"
  unfolding u8_of_u64 packed_readers_sub
  by (simp add: word_unat_eq_iff unat_word_ariths unsigned_of_nat unsigned_ucast_eq take_bit_nat_def mod_Suc_eq)

text \<open>The steps of a process that makes an object.\<close>

lemma local_step_create:
  assumes "machine_ok m" "usable p"
  shows "local_step p m Creating
    (m\<lparr>shm := shm_create name zero_segment (shm m), file_size := (file_size m)(next_object (shm m) := 0)\<rparr>)
    (Truncating (opened p (next_object (shm m))))" (is "local_step p m _ ?m' _")
proof -
  have init: "initialised ?m' = initialised m"
    by (auto simp: fun_eq_iff initialised_def shm_create_def zero_segment_def MAGIC_def)
  moreover have "size_at ?m' k = size_at m k" if "initialised m k" for k
    using that by (simp add: size_at_def shm_create_def initialised_def)
  ultimately have "keeps m ?m'" "machine_ok ?m'"
    using assms(1) by (auto simp: keeps_def machine_ok_def shm_create_def initialised_def less_Suc_eq)
  then show ?thesis
    using assms(2) by (simp add: local_step_def readers_at_def writers_at_def init)
      (auto simp: shm_create_def initialised_def)
qed

lemma local_step_truncate:
  assumes "machine_ok m" "usable p" "k < next_object (shm m)" "objects (shm m) k = zero_segment"
    and "queue_size_bytes (opened p k) = z"
  shows "local_step p m (Truncating (opened p k)) (m\<lparr>file_size := (file_size m)(k := z)\<rparr>)
    (Initialising (opened p k) (init_stores (opened p k)))" (is "local_step p m _ ?m' _")
proof -
  have init: "initialised ?m' = initialised m" "size_at ?m' = size_at m"
    by (simp_all add: fun_eq_iff initialised_def size_at_def)
  have "\<not> initialised m k" using assms(4) by (simp add: initialised_def zero_segment_def MAGIC_def)
  then have "keeps m ?m'" "machine_ok ?m'"
    using assms(1) by (auto simp: keeps_def machine_ok_def init)
  then show ?thesis
    using assms(2-5) by (auto simp: local_step_def readers_at_def writers_at_def init init_stores_def)
qed

text \<open>The magic number is the last store.\<close>

lemma before_magic:
  assumes "init_stores q = done @ st # sts"
  shows "magic (global_header (fold init_store done zero_segment)) \<noteq> MAGIC"
    and "sts \<noteq> [] \<Longrightarrow> magic (global_header (init_store st (fold init_store done zero_segment))) \<noteq> MAGIC"
proof -
  have keep: "magic (global_header (fold init_store xs s)) = magic (global_header s)"
    if "Init_Magic \<notin> set xs" for xs s
    using that
  proof (induction xs arbitrary: s)
    case (Cons x xs)
    then show ?case
      by (cases x) (simp_all add: set_packed_def set_count_def set_writers_def set_read_offset_def)
  qed simp
  have butlast: "Init_Magic \<notin> set (butlast (init_stores q))" by (simp add: init_stores_def)
  have "set done \<subseteq> set (butlast (init_stores q))" by (auto simp: assms butlast_append)
  with butlast have "Init_Magic \<notin> set done" by blast
  from keep [OF this, of zero_segment] show "magic (global_header (fold init_store done zero_segment)) \<noteq> MAGIC"
    by (simp add: zero_segment_def MAGIC_def)
  assume "sts \<noteq> []"
  then have "set (done @ [st]) \<subseteq> set (butlast (init_stores q))" by (auto simp: assms butlast_append)
  with butlast have "Init_Magic \<notin> set (done @ [st])" by blast
  from keep [OF this, of zero_segment]
  show "magic (global_header (init_store st (fold init_store done zero_segment))) \<noteq> MAGIC"
    by (simp add: zero_segment_def MAGIC_def)
qed

lemma local_step_init_store:
  assumes "machine_ok m" "usable p" "k < next_object (shm m)" "q = opened p k"
    and "file_size m k = queue_size_bytes q" "init_stores q = done @ st # sts"
    and "objects (shm m) k = fold init_store done zero_segment"
  shows "local_step p m (Initialising q (st # sts)) (put_segment q (init_store st (segment_of q m)) m)
    (Initialising q sts)"
proof -
  let ?s = "init_store st (segment_of q m)" and ?m' = "put_segment q (init_store st (segment_of q m)) m"
  have fd: "fd q = int k" using assms(4) by simp
  have s: "?s = fold init_store (done @ [st]) zero_segment"
    using assms(7) fd by (simp add: segment_of_simp)
  have old: "\<not> initialised m k"
    using before_magic(1) [OF assms(6)] assms(7) by (simp add: initialised_def)
  have other: "initialised ?m' i = initialised m i" "size_at ?m' i = size_at m i" if "i \<noteq> k" for i
    using fd that by (simp_all add: initialised_def size_at_def)
  show ?thesis
  proof (cases "sts = []")
    case True
    then have new: "?s = init_new_file q"
      using s assms(6) init_stores_fill_a_new_file [of q] by simp
    have here: "initialised ?m' k" "size_at ?m' k = queue_size_bytes q"
      using fd assms(3) new by (simp_all add: initialised_def size_at_def init_new_file_def)
    have sized: "sized (queue_size_bytes q)"
      using assms(2,4) by (auto simp: sized_def usable_def)
    have counts: "readers_at ?m' j = readers_at m j" "writers_at ?m' j = writers_at m j" for j
      using fd new old here(1) other(1) [of j] by (cases "j = k"; simp add: readers_at_def writers_at_def init_new_file_def
        packed_of_def writers_of_def unwrap_def)+
    have keep: "keeps m ?m'"
      unfolding keeps_def
    proof (intro conjI allI impI)
      fix j assume "initialised m j"
      moreover from this old have "j \<noteq> k" by blast
      ultimately show "initialised ?m' j" "size_at ?m' j = size_at m j" using other by simp_all
    qed simp
    have ok: "machine_ok ?m'"
      unfolding machine_ok_def
    proof (intro conjI allI impI)
      fix j assume j: "initialised ?m' j"
      show "file_size ?m' j = size_at ?m' j"
        using j here(2) other [of j] assms(1,5) by (cases "j = k") (simp_all add: machine_ok_def)
      show "sized (size_at ?m' j)"
        using j here(2) sized other [of j] assms(1) by (cases "j = k") (simp_all add: machine_ok_def)
    next
      fix n j assume "names (shm ?m') n = Some j"
      then show "j < next_object (shm ?m')" using assms(1) by (simp add: machine_ok_def)
    qed
    have "phase_ok p ?m' (Initialising q sts)"
      using True here assms(2-4) by (simp add: exI [of _ k])
    with keep ok counts fd True show ?thesis
      by (simp add: local_step_def)
  next
    case False
    then have new: "\<not> initialised ?m' k"
      using before_magic(2) [OF assms(6)] assms(7) fd by (simp add: initialised_def segment_of_simp)
    have same: "initialised ?m' j = initialised m j" for j
      using new old other(1) [of j] by (cases "j = k") simp_all
    have size: "size_at ?m' j = size_at m j" if "initialised m j" for j
      using that old other(2) [of j] by (cases "j = k") simp_all
    have part: "init_stores q = (done @ [st]) @ sts \<and> objects (shm ?m') k = fold init_store (done @ [st]) zero_segment"
      using s assms(6) fd by simp
    have counts: "readers_at ?m' j = readers_at m j" "writers_at ?m' j = writers_at m j" for j
      using fd old same [of j] by (cases "j = k"; simp add: readers_at_def writers_at_def)+
    have "keeps m ?m'" "machine_ok ?m'"
      using assms(1) by (simp_all add: keeps_def machine_ok_def same size)
    moreover have "phase_ok p ?m' (Initialising q sts)"
      using False part assms(2-5) by (auto intro!: exI [of _ k])
    ultimately show ?thesis
      using counts fd False by (simp add: local_step_def)
  qed
qed

text \<open>The operations on an open queue keep the counts.\<close>

lemma release_buffer_keeps:
  assumes "release_buffer q s a = Inr (q', s')"
  shows "same_counts s s'" "same_queue q q'"
proof -
  from assms show "same_counts s s'"
    by (auto simp: release_buffer_def Let_def bindE_eq_Inr same_counts_def set_read_offset_def
        set_last_cleared_def packed_of_def writers_of_def split: if_splits)
  from assms have "q' = q\<lparr>abs_read_offset := abs_read_offset q', read_message_cnt := read_message_cnt q\<rparr>"
    by (auto simp: release_buffer_def Let_def bindE_eq_Inr split: if_splits)
  then show "same_queue q q'" unfolding same_queue_def by blast
qed

lemma attached_to_simps:
  assumes "attached_to p m q k"
  shows "initialised m k" "fd q = int k" "is_writer q = param_is_writer p"
    "magic (global_header (segment_of q m)) = MAGIC"
    "shm_queue_size_bytes (write_fields (global_header (segment_of q m))) = size_at m k"
    "(ucast (num_readers (unwrap (packed_of (segment_of q m)))) :: u8) = readers_at m k"
    "writers_of (segment_of q m) = writers_at m k"
proof -
  show fd: "initialised m k" "fd q = int k" "is_writer q = param_is_writer p"
    using assms same_queue_simps [of "validated p m k" q] by (auto simp: attached_to_def)
  then show "magic (global_header (segment_of q m)) = MAGIC"
    "shm_queue_size_bytes (write_fields (global_header (segment_of q m))) = size_at m k"
    "(ucast (num_readers (unwrap (packed_of (segment_of q m)))) :: u8) = readers_at m k"
    "writers_of (segment_of q m) = writers_at m k"
    by (simp_all add: segment_of_simp initialised_def size_at_def readers_at_def writers_at_def)
qed

lemma attached_to_same_queue: "attached_to p m q k \<Longrightarrow> same_queue q q' \<Longrightarrow> attached_to p m q' k"
  by (auto simp: attached_to_def intro: same_queue_trans)

text \<open>What a process does to the object it is attached to, with its own queue object changed.\<close>

lemma put_segment_same_queue: "same_queue q q' \<Longrightarrow> put_segment q' s m = put_segment q s m"
  by (simp add: put_segment_def put_mapped_def same_queue_simps)

lemma local_step_traffic:
  assumes "machine_ok m" "attached_to p m q k" "same_counts (segment_of q m) s" "same_queue q q'"
    and "ph' = Attached q' \<and> ph = Attached q \<or> ph' = Draining q' w \<and> ph = Draining q w"
  shows "local_step p m ph (put_segment q s m) ph'"
proof -
  note q = attached_to_simps [OF assms(2)]
  have s: "magic (global_header s) = MAGIC"
    "shm_queue_size_bytes (write_fields (global_header s)) = size_at m k"
    "(ucast (num_readers (unwrap (packed_of s))) :: u8) = readers_at m k" "writers_of s = writers_at m k"
    using assms(3) q(4-7) by (simp_all add: same_counts_def)
  have "attached_to p (put_segment q s m) q' k"
    using attached_to_keeps [OF put_segment_keeps(1) [OF assms(1) q(1,2) s(1,2)]]
      attached_to_same_queue [OF assms(2,4)] by blast
  then show ?thesis
    by (intro local_step_update [OF assms(1) q(1,2) s(1,2)])
      (use assms(5) q s same_queue_simps [OF assms(4)] in auto)
qed

lemma local_step_register:
  assumes "machine_ok m" "initialised m k" "register (validated p m k) (segment_of (validated p m k) m) = (q', s)"
  shows "local_step p m (Registering (validated p m k)) (put_segment q' s m) (Attached q')"
proof -
  let ?q = "validated p m k"
  have at: "attached_to p m ?q k" using assms(2) by (simp add: attached_to_def)
  note q = attached_to_simps [OF at]
  have same: "same_queue ?q q'"
  proof (cases "is_writer ?q")
    case True
    then show ?thesis using assms(3) by (simp add: register_def)
  next
    case False
    then have "q' = ?q\<lparr>abs_read_offset := abs_read_offset q', read_message_cnt := read_message_cnt ?q\<rparr>"
      using assms(3) by (auto simp: register_def split: prod.splits)
    then show ?thesis unfolding same_queue_def by blast
  qed
  have s: "magic (global_header s) = MAGIC"
    "shm_queue_size_bytes (write_fields (global_header s)) = size_at m k"
    "(ucast (num_readers (unwrap (packed_of s))) :: u8) = readers_at m k + of_bool (\<not> is_writer ?q)"
    "writers_of s = writers_at m k + of_bool (is_writer ?q)"
    using assms(3) q(4-7)
    by (auto simp: register_def modify_readers_def readers_after_join case_prod_beta set_packed_def
        set_writers_def writers_of_def packed_of_def split: if_splits)
  have "attached_to p (put_segment q' s m) q' k"
    using attached_to_keeps [OF put_segment_keeps(1) [OF assms(1) q(1,2) s(1,2)]]
      attached_to_same_queue [OF at same] put_segment_same_queue [OF same] by metis
  then have "local_step p m (Registering ?q) (put_segment ?q s m) (Attached q')"
    by (intro local_step_update [OF assms(1) q(1,2) s(1,2)])
      (use q s same_queue_simps [OF same] put_segment_same_queue [OF same, of s m] in auto)
  then show ?thesis by (simp add: put_segment_same_queue [OF same])
qed

lemma local_step_leave:
  assumes "machine_ok m" "attached_to p m q k" "\<not> is_writer q"
    and "modify_readers False (segment_of q m) = (s, w)"
  shows "local_step p m (Attached q) (put_segment q s m) (Draining q w)"
proof -
  note q = attached_to_simps [OF assms(2)]
  have s: "magic (global_header s) = MAGIC"
    "shm_queue_size_bytes (write_fields (global_header s)) = size_at m k"
    "(ucast (num_readers (unwrap (packed_of s))) :: u8) + 1 = readers_at m k" "writers_of s = writers_at m k"
    using assms(4) q(4-7) readers_after_leave
    by (auto simp: modify_readers_def case_prod_beta set_packed_def writers_of_def packed_of_def)
  have "attached_to p (put_segment q s m) q k"
    using attached_to_keeps [OF put_segment_keeps(1) [OF assms(1) q(1,2) s(1,2)]] assms(2) by blast
  then show ?thesis
    by (intro local_step_update [OF assms(1) q(1,2) s(1,2)]) (use q s assms(3) in auto)
qed

lemma local_step_writer_leaves:
  assumes "machine_ok m" "attached_to p m q k"
  shows "local_step p m (Writer_Leaving q w)
    (put_segment q (set_writers (writers_of (segment_of q m) - 1) (segment_of q m)) m) (Counting_Writers q w)"
proof -
  note q = attached_to_simps [OF assms(2)]
  let ?s = "set_writers (writers_of (segment_of q m) - 1) (segment_of q m)"
  have s: "magic (global_header ?s) = MAGIC"
    "shm_queue_size_bytes (write_fields (global_header ?s)) = size_at m k"
    using q(4,5) by (simp_all add: set_writers_def)
  have "attached_to p (put_segment q ?s m) q k"
    using attached_to_keeps [OF put_segment_keeps(1) [OF assms(1) q(1,2) s]] assms(2) by blast
  then show ?thesis
    by (intro local_step_update [OF assms(1) q(1,2) s]) (use q in auto)
qed

lemma local_step_unlink:
  assumes "machine_ok m"
  shows "local_step p m (Unlinking q) (m\<lparr>shm := shm_unlink n (shm m)\<rparr>) (Detached q')"
proof -
  let ?m' = "m\<lparr>shm := shm_unlink n (shm m)\<rparr>"
  have "next_object (shm ?m') = next_object (shm m)" by (simp add: shm_unlink_def)
  moreover have "initialised ?m' = initialised m" "size_at ?m' = size_at m"
    by (simp_all add: fun_eq_iff initialised_def size_at_def shm_unlink_def)
  ultimately show ?thesis
    using assms by (auto simp: local_step_def keeps_def machine_ok_def readers_at_def writers_at_def)
qed

text \<open>Every step of a process is one of these.\<close>

lemma process_step_local:
  assumes "process_step may_open p m ph = Some (m', ph')" "phase_ok p m ph" "machine_ok m"
  shows "local_step p m ph m' ph'"
proof (cases ph)
  case Before_Open
  then show ?thesis
    using assms by (auto simp: Let_def usable_def IpcQueue_members_def opened_def machine_ok_def
        split: if_splits option.splits intro!: local_step_idle)
next
  case Creating
  then show ?thesis
    using assms local_step_create [of m p "param_file_name p"]
    by (auto simp: Let_def opened_def split: if_splits intro!: local_step_idle)
next
  case (Truncating q)
  then show ?thesis using assms local_step_truncate [OF _ _ _ _ refl] by auto
next
  case (Initialising q sts)
  show ?thesis
  proof (cases sts)
    case Nil
    with Initialising assms obtain k where k: "m' = m" "ph' = Registering q" "q = opened p k"
      "initialised m k" "size_at m k = queue_size_bytes q" by auto
    then have "q = validated p m k" by (simp add: validated_def adopt_size_def Let_def size_at_def)
    with k(4) assms(2) Initialising have "phase_ok p m (Registering q)" by auto
    with k(1,2) Initialising Nil show ?thesis by (auto intro!: local_step_idle assms(3))
  next
    case (Cons st rest)
    with Initialising assms show ?thesis by (auto intro!: local_step_init_store)
  qed
next
  case (Checking_Magic q)
  then show ?thesis
    using assms by (auto simp: initialised_def segment_of_simp split: if_splits intro!: local_step_idle)
next
  case (Checking_Size q)
  then show ?thesis
    using assms by (auto simp: validated_def segment_of_simp intro!: local_step_idle)
next
  case (Registering q)
  then show ?thesis
    using assms by (auto simp: case_prod_beta intro!: local_step_register)
next
  case (Attached q)
  with assms(2) obtain k where k: "attached_to p m q k" by auto
  show ?thesis
  proof (cases "is_writer q")
    case True
    with Attached assms k show ?thesis by (auto intro!: local_step_idle)
  next
    case False
    with Attached assms k show ?thesis by (auto simp: case_prod_beta intro!: local_step_leave)
  qed
next
  case (Writer_Leaving q w)
  then show ?thesis using assms local_step_writer_leaves by (auto simp: Let_def)
next
  case (Draining q w)
  with assms(2) obtain k where k: "attached_to p m q k" by auto
  show ?thesis
    using Draining assms k
    by (auto simp: Let_def split: if_splits sum.splits
        intro!: local_step_idle local_step_traffic [OF _ _ release_buffer_keeps]
        simp del: put_segment_simps)
next
  case (Counting_Writers q w)
  then show ?thesis using assms by (auto intro!: local_step_idle)
next
  case (Unlinking q)
  then show ?thesis using assms local_step_unlink by auto
qed (use assms in simp_all)

section \<open>The invariant\<close>

lemma building_not_initialised:
  assumes "phase_ok p m ph" "building ph = Some k"
  shows "k < next_object (shm m)" "\<not> initialised m k"
proof -
  from assms show "k < next_object (shm m)" by (cases ph) (auto split: if_splits)
  show "\<not> initialised m k"
  proof (cases ph)
    case (Truncating q)
    then show ?thesis using assms by (auto simp: initialised_def zero_segment_def MAGIC_def)
  next
    case (Initialising q sts)
    with assms obtain done' st rest where "init_stores q = done' @ st # rest"
      "objects (shm m) k = fold init_store done' zero_segment"
      by (cases sts) (auto split: if_splits)
    then show ?thesis using before_magic(1) by (simp add: initialised_def)
  qed (use assms in simp_all)
qed

lemma members_update:
  "members (\<pi>\<lparr>machine := m', phase_of := (phase_of \<pi>)(i := ph')\<rparr>) k w =
     (if registered ph' = Some (k, w) then insert i (members \<pi> k w) else members \<pi> k w - {i})"
  by (auto simp: members_def)

lemma count_member:
  assumes "finite (members \<pi> k w)"
  shows "(of_nat (card (members (\<pi>\<lparr>machine := m', phase_of := (phase_of \<pi>)(i := ph')\<rparr>) k w)) :: 'a :: len word) +
      of_bool (registered (phase_of \<pi> i) = Some (k, w)) =
    of_nat (card (members \<pi> k w)) + of_bool (registered ph' = Some (k, w))"
proof (cases "registered (phase_of \<pi> i) = Some (k, w)")
  case True
  then have "i \<in> members \<pi> k w" by (simp add: members_def)
  with assms True show ?thesis
    by (simp add: members_update insert_absorb card_Suc_Diff1 [symmetric] del: card_Diff_insert)
next
  case False
  then have "i \<notin> members \<pi> k w" by (simp add: members_def)
  with assms False show ?thesis by (simp add: members_update)
qed

lemma lifecycle_inv_local:
  assumes "lifecycle_inv params \<pi>" "local_step (params i) (machine \<pi>) (phase_of \<pi> i) m' ph'"
  shows "lifecycle_inv params (\<pi>\<lparr>machine := m', phase_of := (phase_of \<pi>)(i := ph')\<rparr>)"
    (is "lifecycle_inv params ?\<pi>'")
proof -
  let ?m = "machine \<pi>"
  have ok: "phase_ok (params j) ?m (phase_of \<pi> j)" for j using assms(1) by (simp add: lifecycle_inv_def)
  have alone: "j = l" if "building (phase_of \<pi> j) = Some k" "building (phase_of \<pi> l) = Some k" for j l k
    using assms(1) that unfolding lifecycle_inv_def by blast
  have keeps: "keeps ?m m'" and ok': "machine_ok m'" "phase_ok (params i) m' ph'"
    and others: "\<And>k. k < next_object (shm ?m) \<Longrightarrow> building (phase_of \<pi> i) \<noteq> Some k \<Longrightarrow>
      \<not> initialised ?m k \<Longrightarrow> objects (shm m') k = objects (shm ?m) k \<and> file_size m' k = file_size ?m k"
    and build: "\<And>k. building ph' = Some k \<Longrightarrow> building (phase_of \<pi> i) = Some k \<or> next_object (shm ?m) \<le> k"
    and counts: "\<And>k. readers_at m' k + of_bool (registered (phase_of \<pi> i) = Some (k, False)) =
        readers_at ?m k + of_bool (registered ph' = Some (k, False))"
      "\<And>k. writers_at m' k + of_bool (registered (phase_of \<pi> i) = Some (k, True)) =
        writers_at ?m k + of_bool (registered ph' = Some (k, True))"
    using assms(2) by (simp_all add: local_step_def)
  have inv: "finite (members \<pi> k w)" "readers_at ?m k = of_nat (card (members \<pi> k False))"
    "writers_at ?m k = of_nat (card (members \<pi> k True))" for k w
    using assms(1) by (simp_all add: lifecycle_inv_def)
  have ph: "phase_ok (params j) m' (phase_of ?\<pi>' j)" for j
  proof (cases "j = i")
    case False
    have "phase_ok (params j) m' (phase_of \<pi> j)"
    proof (rule phase_ok_keeps [OF ok keeps])
      fix k assume k: "building (phase_of \<pi> j) = Some k"
      with alone False have "building (phase_of \<pi> i) \<noteq> Some k" by blast
      with building_not_initialised [OF ok k] others
      show "objects (shm m') k = objects (shm ?m) k \<and> file_size m' k = file_size ?m k" by blast
    qed
    with False show ?thesis by simp
  qed (use ok' in simp)
  have other: "building ph' \<noteq> Some k" if "l \<noteq> i" "building (phase_of \<pi> l) = Some k" for l k
    using that alone build building_not_initialised(1) [OF ok that(2)] by (meson not_le)
  have one: "j = l" if "building (phase_of ?\<pi>' j) = Some k" "building (phase_of ?\<pi>' l) = Some k" for j l k
    using that other alone by (auto split: if_splits)
  have fin: "finite (members ?\<pi>' k w)" for k w
    using inv(1) by (simp add: members_update)
  have readers: "readers_at m' k = of_nat (card (members ?\<pi>' k False))" for k
    by (rule add_right_imp_eq [OF trans [OF counts(1) [of k, unfolded inv(2)]
        count_member [where 'a = 8, OF inv(1) [of k False], of i ph' m', symmetric]]])
  have writers: "writers_at m' k = of_nat (card (members ?\<pi>' k True))" for k
    by (rule add_right_imp_eq [OF trans [OF counts(2) [of k, unfolded inv(3)]
        count_member [where 'a = 32, OF inv(1) [of k True], of i ph' m', symmetric]]])
  show ?thesis
    unfolding lifecycle_inv_def
  proof (intro conjI allI impI)
    show "machine_ok (machine ?\<pi>')" using ok'(1) by simp
    show "phase_ok (params j) (machine ?\<pi>') (phase_of ?\<pi>' j)" for j using ph [of j] by simp
    show "readers_at (machine ?\<pi>') k = of_nat (card (members ?\<pi>' k False))"
      "writers_at (machine ?\<pi>') k = of_nat (card (members ?\<pi>' k True))" for k
      using readers [of k] writers [of k] by simp_all
  qed (fact one fin)+
qed

lemma lifecycle_init_inv: "lifecycle_init \<pi> \<Longrightarrow> lifecycle_inv params \<pi>"
  by (simp add: lifecycle_init_def lifecycle_inv_def machine_ok_def initialised_def members_def
      readers_at_def writers_at_def)

lemma lifecycle_step_inv:
  assumes "lifecycle_inv params \<pi>" "lifecycle_step may_open params \<pi> \<pi>'"
  shows "lifecycle_inv params \<pi>'"
proof -
  have ok: "machine_ok (machine \<pi>)" "phase_ok (params i) (machine \<pi>) (phase_of \<pi> i)" for i
    using assms(1) by (simp_all add: lifecycle_inv_def)
  from assms(2) show ?thesis
  proof cases
    case (act i m' ph')
    with process_step_local [OF act(2) ok(2,1)] show ?thesis
      using lifecycle_inv_local [OF assms(1)] by simp
  next
    case (traffic i q s' q')
    from ok(2) [of i] traffic(2) obtain k where "attached_to (params i) (machine \<pi>) q k" by auto
    from local_step_traffic [OF ok(1) this traffic(3,4)] traffic(1,2) show ?thesis
      using lifecycle_inv_local [OF assms(1)] by simp
  qed
qed

interpretation lifecycle: invariant_machine lifecycle_init "lifecycle_step may_open params" "lifecycle_inv params"
  for may_open :: "string \<Rightarrow> bool" and params :: "nat \<Rightarrow> IpcQueueParameters"
  by unfold_locales (auto intro: lifecycle_init_inv lifecycle_step_inv)

lemma lifecycle_reachable_inv:
  "lifecycle_reachable may_open params \<pi> \<Longrightarrow> lifecycle_inv params \<pi>"
  unfolding lifecycle_reachable_def using lifecycle.reachable_inv by blast

text \<open>So each step of a queue in use is a step \<open>traffic\<close>.\<close>

lemma same_counts_frames:
  "same_counts s (s\<lparr>ring := m\<rparr>)" "same_counts s (set_count c (s\<lparr>ring := m\<rparr>))"
  "num_readers (unwrap v) = num_readers (unwrap (packed_of s)) \<Longrightarrow> same_counts s (set_packed v s)"
  by (simp_all add: same_counts_def writers_of_def packed_of_def set_count_def set_packed_def)

lemma operations_keep_counts:
  "reserve_write_offset q s n = (s', t) \<Longrightarrow> same_counts s s'"
  "place_claim q s sz t = Inr (s', b) \<Longrightarrow> same_counts s s'"
  "write_to_buffer s w bs = Inr s' \<Longrightarrow> same_counts s s'"
  "same_counts s (wrapper_abort s w)"
  "poll_once q s = Inr (Poll_Return q' s' got) \<Longrightarrow> same_counts s s' \<and> same_queue q q'"
  "poll_once q s = Inr (Poll_Again q' s') \<Longrightarrow> same_counts s s' \<and> same_queue q q'"
  "wrapper_release q s r = Inr (q', s', r') \<Longrightarrow> same_counts s s' \<and> same_queue q q'"
proof -
  have counted: "same_queue q (q\<lparr>read_message_cnt := n\<rparr>)" for n
    unfolding same_queue_def by (intro exI [of _ "abs_read_offset q"] exI [of _ n]) simp
  show "reserve_write_offset q s n = (s', t) \<Longrightarrow> same_counts s s'"
    by (auto simp: reserve_write_offset_def Let_def case_prod_beta packed_frames intro!: same_counts_frames)
  show "place_claim q s sz t = Inr (s', b) \<Longrightarrow> same_counts s s'"
    by (auto simp: place_claim_def insert_skip_message_def commit_buffer_def Let_def bindE_eq_Inr
        intro!: same_counts_frames split: if_splits)
  show "write_to_buffer s w bs = Inr s' \<Longrightarrow> same_counts s s'"
    by (auto simp: write_to_buffer_def commit_buffer_def bindE_eq_Inr intro!: same_counts_frames)
  show "same_counts s (wrapper_abort s w)"
    by (simp add: wrapper_abort_def abort_buffer_def Let_def same_counts_frames)
  show "poll_once q s = Inr (Poll_Return q' s' got) \<Longrightarrow> same_counts s s' \<and> same_queue q q'"
    "poll_once q s = Inr (Poll_Again q' s') \<Longrightarrow> same_counts s s' \<and> same_queue q q'"
    by (auto simp: poll_once_def Let_def bindE_eq_Inr counted same_counts_def dest: release_buffer_keeps
        split: if_splits option.splits CommitFlag.splits)
  show "wrapper_release q s r = Inr (q', s', r') \<Longrightarrow> same_counts s s' \<and> same_queue q q'"
    by (auto simp: wrapper_release_def bindE_eq_Inr dest: release_buffer_keeps)
qed

section \<open>Who is counted\<close>

text \<open>
  C23. Whatever the interleaving of constructors and closings, no registration is lost and nobody is
  registered in a file that is not ready. A process whose constructor has returned is attached to an
  object whose magic number is set and that no process is making any more; the size in its header,
  the size of the file and the size the process works with are the same, whatever it asked for, so
  all processes of the object agree on the ring; the capacity is a power of two of at most one
  gigabyte; and the two counts in the header are the numbers of readers and writers that are
  attached, each at its width.
\<close>

theorem registrations_are_exact:
  assumes "lifecycle_reachable may_open params \<pi>" "phase_of \<pi> i = Attached q"
  shows "\<exists>k s. fd q = int k \<and> s = objects (shm (machine \<pi>)) k \<and>
    magic (global_header s) = MAGIC \<and> (\<forall>j. building (phase_of \<pi> j) \<noteq> Some k) \<and>
    shm_queue_size_bytes (write_fields (global_header s)) = queue_size_bytes q \<and>
    file_size (machine \<pi>) k = queue_size_bytes q \<and>
    queue_size_bytes q = available_queue_size_bytes q + sizeof_GlobalHeader \<and>
    is_power_of_two (available_queue_size_bytes q) \<and> available_queue_size_bytes q \<le> MAX_QUEUE_SIZE_BYTES \<and>
    unat (num_readers (unwrap (packed_of s))) = card (members \<pi> k False) mod 256 \<and>
    writers_of s = of_nat (card (members \<pi> k True))"
proof -
  have inv: "lifecycle_inv params \<pi>" by (rule lifecycle_reachable_inv [OF assms(1)])
  let ?m = "machine \<pi>"
  have ok: "phase_ok (params j) ?m (phase_of \<pi> j)" for j using inv by (simp add: lifecycle_inv_def)
  from ok [of i] assms(2) obtain k where at: "attached_to (params i) ?m q k" by auto
  note q = attached_to_simps [OF at]
  let ?s = "objects (shm ?m) k"
  have size: "queue_size_bytes q = size_at ?m k" "available_queue_size_bytes q = size_at ?m k - sizeof_GlobalHeader"
    using at same_queue_simps [of "validated (params i) ?m k" q] by (simp_all add: attached_to_def)
  have sizes: "file_size ?m k = size_at ?m k" "sized (size_at ?m k)"
    using inv q(1) by (simp_all add: lifecycle_inv_def machine_ok_def)
  have counts: "readers_at ?m k = of_nat (card (members \<pi> k False))"
    "writers_at ?m k = of_nat (card (members \<pi> k True))"
    using inv by (simp_all add: lifecycle_inv_def)
  have "unat (num_readers (unwrap (packed_of ?s))) < 256" by (simp add: unat_num_readers_unwrap)
  then have "unat (num_readers (unwrap (packed_of ?s))) = unat (readers_at ?m k)"
    using q(1) by (simp add: readers_at_def unsigned_ucast_eq take_bit_nat_def)
  then have "unat (num_readers (unwrap (packed_of ?s))) = card (members \<pi> k False) mod 256"
    by (simp add: counts(1) unsigned_of_nat take_bit_nat_def)
  moreover have "building (phase_of \<pi> j) \<noteq> Some k" for j
    using building_not_initialised(2) [OF ok] q(1) by blast
  ultimately show ?thesis
    using q size sizes counts(2) by (auto simp: segment_of_simp writers_at_def size_at_def sized_def)
qed

section \<open>Where the constructor takes effect\<close>

text \<open>
  C24. The constructor is as good as atomic. When a process is about to register, the atomic
  constructor of \<open>Ipc_Lifecycle\<close>, called now, would succeed, give it the queue object it is about to
  have, and leave the shared memory as its next step leaves it; this holds for the process that
  made the file and for the others. Only a name that was removed in between makes a difference.
\<close>

theorem constructor_takes_effect_at_once:
  assumes "lifecycle_reachable may_open params \<pi>" "phase_of \<pi> i = Registering q"
    and "names (shm (machine \<pi>)) (param_file_name (params i)) = Some (nat (fd q))"
    and "may_open (param_file_name (params i))"
  shows "\<exists>q' h. open_queue may_open (shm (machine \<pi>)) (params i) = Inr (q', h) \<and>
    process_step may_open (params i) (machine \<pi>) (phase_of \<pi> i) =
      Some ((machine \<pi>)\<lparr>shm := h\<rparr>, Attached q')"
proof -
  let ?m = "machine \<pi>" and ?p = "params i"
  have "phase_ok ?p ?m (phase_of \<pi> i)"
    using lifecycle_reachable_inv [OF assms(1)] by (simp add: lifecycle_inv_def)
  then obtain k where k: "usable ?p" "initialised ?m k" "q = validated ?p ?m k"
    using assms(2) by auto
  then have seg: "segment_of q ?m = objects (shm ?m) k" by (simp add: segment_of_simp)
  have "validate_settings ((IpcQueue_members ?p)\<lparr>fd := int k\<rparr>) (objects (shm ?m) k) = Inr q"
    using k by (simp add: validate_settings_steps initialised_def validated_def opened_def)
  then have "open_queue may_open (shm ?m) ?p =
      (let (q', s) = register q (segment_of q ?m) in Inr (q', put_mapped q' s (shm ?m)))"
    using open_queue_existing [of ?p may_open "shm ?m" k] k assms(3,4)
    using seg by (simp add: usable_def not_less)
  then show ?thesis
    using assms(2) by (simp add: case_prod_beta put_segment_def)
qed

section \<open>A process on its own\<close>

definition solo ::
    "(string \<Rightarrow> bool) \<Rightarrow> IpcQueueParameters \<Rightarrow> Machine \<times> ProcessPhase \<Rightarrow> Machine \<times> ProcessPhase \<Rightarrow> bool" where
  "solo may_open p x y \<longleftrightarrow> process_step may_open p (fst x) (snd x) = Some y"

lemma solo_first: "process_step may_open p m ph = Some x \<Longrightarrow> (solo may_open p)\<^sup>*\<^sup>* x y \<Longrightarrow>
    (solo may_open p)\<^sup>*\<^sup>* (m, ph) y"
  by (rule converse_rtranclp_into_rtranclp) (simp_all add: solo_def)

lemma segment_put:
  "segment_of q (put_segment q s m) = s"
  "put_segment q s' (put_segment q s m) = put_segment q s' m"
  "put_segment q (segment_of q m) m = m"
  by (simp_all add: segment_of_def put_segment_def mapped_def put_mapped_def)

lemma solo_initialise:
  "(solo may_open p)\<^sup>*\<^sup>* (m, Initialising q sts)
     (put_segment q (fold init_store sts (segment_of q m)) m, Initialising q [])"
proof (induction sts arbitrary: m)
  case Nil
  then show ?case by (simp add: segment_put)
next
  case (Cons st sts)
  let ?m = "put_segment q (init_store st (segment_of q m)) m"
  have "process_step may_open p m (Initialising q (st # sts)) = Some (?m, Initialising q sts)" by simp
  from solo_first [OF this Cons.IH] show ?case by (simp add: segment_put)
qed

lemma solo_register:
  "register q (segment_of q m) = (q', s) \<Longrightarrow>
   (solo may_open p)\<^sup>*\<^sup>* (m, Registering q) (put_segment q' s m, Attached q')"
  by (rule solo_first [OF _ rtranclp.rtrancl_refl]) simp

lemma solo_validate:
  assumes "file_size m (nat (fd q)) \<noteq> 0"
  shows "case validate_settings q (segment_of q m) of
      Inl e \<Rightarrow> (solo may_open p)\<^sup>*\<^sup>* (m, Checking_Magic q) (m, Thrown e)
    | Inr q1 \<Rightarrow> (solo may_open p)\<^sup>*\<^sup>* (m, Checking_Magic q) (m, Registering q1)"
proof (cases "magic (global_header (segment_of q m)) = MAGIC")
  case True
  have "(solo may_open p)\<^sup>*\<^sup>* (m, Checking_Magic q) (m, Registering (adopt_size q (segment_of q m)))"
    by (rule solo_first [of _ _ _ _ "(m, Checking_Size q)"], use assms True in simp)
      (rule solo_first [OF _ rtranclp.rtrancl_refl], simp)
  with True show ?thesis by (simp add: validate_settings_steps)
next
  case False
  have "(solo may_open p)\<^sup>*\<^sup>* (m, Checking_Magic q) (m, Thrown Queue_Uninitialized)"
    by (rule solo_first [OF _ rtranclp.rtrancl_refl]) (use assms False in simp)
  with False show ?thesis by (simp add: validate_settings_steps)
qed

lemma solo_create:
  assumes "usable p" "may_open (param_file_name p)" "names (shm m) (param_file_name p) = None"
    and "register (opened p k) (init_new_file (opened p k)) = (q', s)" "k = next_object (shm m)"
  shows "\<exists>m'. (solo may_open p)\<^sup>*\<^sup>* (m, Creating) (m', Attached q') \<and>
    shm m' = shm_create (param_file_name p) s (shm m)"
proof -
  let ?q = "opened p k"
  let ?m1 = "m\<lparr>shm := shm_create (param_file_name p) zero_segment (shm m), file_size := (file_size m)(k := 0)\<rparr>"
  let ?m2 = "?m1\<lparr>file_size := (file_size ?m1)(nat (fd ?q) := queue_size_bytes ?q)\<rparr>"
  let ?m3 = "put_segment ?q (init_new_file ?q) ?m2"
  have "segment_of ?q ?m2 = zero_segment"
    using assms(5) by (simp add: segment_of_simp shm_create_def)
  then have "(solo may_open p)\<^sup>*\<^sup>* (?m2, Initialising ?q (init_stores ?q)) (?m3, Initialising ?q [])"
    using solo_initialise [of may_open p ?m2 ?q "init_stores ?q"] by (simp add: init_stores_fill_a_new_file)
  moreover have "register ?q (segment_of ?q ?m3) = (q', s)" by (simp only: segment_put assms(4))
  then have "(solo may_open p)\<^sup>*\<^sup>* (?m3, Initialising ?q []) (put_segment q' s ?m3, Attached q')"
    by (rule solo_first [OF _ solo_register, rotated]) simp
  ultimately have "(solo may_open p)\<^sup>*\<^sup>* (?m2, Initialising ?q (init_stores ?q)) (put_segment q' s ?m3, Attached q')"
    by (rule rtranclp_trans)
  from solo_first [OF _ this, of ?m1 "Truncating ?q"]
  have "(solo may_open p)\<^sup>*\<^sup>* (?m1, Truncating ?q) (put_segment q' s ?m3, Attached q')" by simp
  from solo_first [OF _ this, of m Creating] assms(2,3,5)
  have "(solo may_open p)\<^sup>*\<^sup>* (m, Creating) (put_segment q' s ?m3, Attached q')"
    by (simp add: opened_def Let_def)
  moreover have "fd q' = int k"
    using assms(4) by (auto simp: register_def split: if_splits prod.splits)
  then have "shm (put_segment q' s ?m3) = shm_create (param_file_name p) s (shm m)"
    using assms(5) by (simp add: put_segment_def put_mapped_def shm_create_def)
  ultimately show ?thesis by blast
qed

lemma solo_open_existing:
  assumes "usable p" "may_open (param_file_name p)" "names (shm m) (param_file_name p) = Some k"
    and "file_size m k \<noteq> 0"
  shows "\<exists>m' ph'. (solo may_open p)\<^sup>*\<^sup>* (m, Before_Open) (m', ph') \<and>
    (case open_queue may_open (shm m) p of
       Inl e \<Rightarrow> m' = m \<and> ph' = Thrown e
     | Inr (q, h) \<Rightarrow> shm m' = h \<and> ph' = Attached q)"
proof -
  have size: "\<not> param_queue_size p > MAX_QUEUE_SIZE_BYTES" "is_power_of_two (param_queue_size p)"
    using assms(1) by (simp_all add: usable_def not_less)
  let ?q = "opened p k"
  have seg: "segment_of ?q m = objects (shm m) k" by (simp add: segment_of_simp)
  have first: "process_step may_open p m Before_Open = Some (m, Checking_Magic ?q)"
    using size assms(2,3) by (simp add: Let_def IpcQueue_members_def opened_def)
  have "file_size m (nat (fd ?q)) \<noteq> 0" using assms(4) by simp
  note validate = solo_validate [OF this, of may_open p]
  have whole: "open_queue may_open (shm m) p = bindE (validate_settings ?q (segment_of ?q m)) (\<lambda>q1.
      let (q2, s) = register q1 (segment_of ?q m) in Inr (q2, put_mapped q2 s (shm m)))"
    using open_queue_existing [of p may_open "shm m" k, OF size assms(2,3)] unfolding seg by (simp only: opened_def)
  show ?thesis
  proof (cases "validate_settings ?q (segment_of ?q m)")
    case (Inl e)
    with validate whole solo_first [OF first] show ?thesis by auto
  next
    case (Inr q1)
    then have "segment_of q1 m = segment_of ?q m"
      by (auto simp: validate_settings_steps adopt_size_def Let_def segment_of_def mapped_def split: if_splits)
    then have "(solo may_open p)\<^sup>*\<^sup>* (m, Registering q1)
      (put_segment (fst (register q1 (segment_of ?q m))) (snd (register q1 (segment_of ?q m))) m,
       Attached (fst (register q1 (segment_of ?q m))))"
      by (intro solo_register) simp
    with validate Inr solo_first [OF first] have "(solo may_open p)\<^sup>*\<^sup>* (m, Before_Open)
      (put_segment (fst (register q1 (segment_of ?q m))) (snd (register q1 (segment_of ?q m))) m,
       Attached (fst (register q1 (segment_of ?q m))))"
      by (metis rtranclp_trans sum.case(2))
    then show ?thesis
      using whole Inr
      by (intro exI [of _ "put_segment (fst (register q1 (segment_of ?q m))) (snd (register q1 (segment_of ?q m))) m"]
          exI [of _ "Attached (fst (register q1 (segment_of ?q m)))"])
        (simp add: case_prod_beta put_segment_def)
  qed
qed

lemma solo_open:
  assumes "\<And>k. names (shm m) (param_file_name p) = Some k \<Longrightarrow> file_size m k \<noteq> 0"
  shows "\<exists>m' ph'. (solo may_open p)\<^sup>*\<^sup>* (m, Before_Open) (m', ph') \<and>
    (case open_queue may_open (shm m) p of
       Inl e \<Rightarrow> m' = m \<and> ph' = Thrown e
     | Inr (q, h) \<Rightarrow> shm m' = h \<and> ph' = Attached q)"
proof (cases "usable p")
  case False
  let ?e = "if param_queue_size p > MAX_QUEUE_SIZE_BYTES then Queue_Too_Large else Not_Power_Of_Two"
  have "process_step may_open p m Before_Open = Some (m, Thrown ?e)" "open_queue may_open (shm m) p = Inl ?e"
    using False by (auto simp: usable_def open_queue_def IpcQueue_members_def)
  then show ?thesis by (intro exI [of _ m] exI [of _ "Thrown ?e"]) (simp add: solo_first)
next
  case True
  then have size: "\<not> param_queue_size p > MAX_QUEUE_SIZE_BYTES" "is_power_of_two (param_queue_size p)"
    by (simp_all add: usable_def not_less)
  show ?thesis
  proof (cases "may_open (param_file_name p)")
    case False
    have "(solo may_open p)\<^sup>*\<^sup>* (m, Before_Open) (m, Thrown Shm_Open_Failed)"
      by (rule solo_first [of _ _ _ _ "(m, Creating)"],
          use size False in \<open>simp add: Let_def IpcQueue_members_def split: option.splits\<close>)
        (rule solo_first [OF _ rtranclp.rtrancl_refl], use False in simp)
    moreover have "open_queue may_open (shm m) p = Inl Shm_Open_Failed"
      using size False by (simp add: open_queue_def IpcQueue_members_def)
    ultimately show ?thesis by auto
  next
    case may: True
    show ?thesis
    proof (cases "names (shm m) (param_file_name p)")
      case None
      let ?k = "next_object (shm m)"
      let ?r = "register (opened p ?k) (init_new_file (opened p ?k))"
      obtain q' s where r: "?r = (q', s)" by (cases ?r)
      from solo_create [of p may_open m ?k q' s, OF True may None r refl] obtain m' where
        m': "(solo may_open p)\<^sup>*\<^sup>* (m, Creating) (m', Attached q')"
          "shm m' = shm_create (param_file_name p) s (shm m)" by blast
      have "process_step may_open p m Before_Open = Some (m, Creating)"
        using size None by (simp add: Let_def IpcQueue_members_def)
      from solo_first [OF this m'(1)] m'(2) show ?thesis
        using size may None r by (auto simp: open_queue_def IpcQueue_members_def opened_def Let_def)
    next
      case (Some k)
      then show ?thesis using solo_open_existing [of p may_open m k, OF True may] assms by blast
    qed
  qed
qed

text \<open>The drain, one message at a time.\<close>

lemma solo_drain:
  assumes "decrement_readers_until fuel q (segment_of q m) (write_offset w) = Some r"
  shows "case r of
      Inl e \<Rightarrow> \<exists>m'. (solo may_open p)\<^sup>*\<^sup>* (m, Draining q w) (m', Thrown e)
    | Inr (q', s') \<Rightarrow> same_queue q q' \<and>
        (solo may_open p)\<^sup>*\<^sup>* (m, Draining q w) (put_segment q s' m, Counting_Writers q' w)"
  using assms
proof (induction fuel arbitrary: q m)
  case (Suc fuel)
  let ?s = "segment_of q m" and ?a = "unat (abs_read_offset q mod available_queue_size_bytes q)"
  show ?case
  proof (cases "abs_read_offset q \<le> write_offset w \<and>
      commit_flag_of_byte (hdr_commit_flag (ring ?s) ?a) = Some READY_FOR_CONSUMER")
    case False
    then have "process_step may_open p m (Draining q w) = Some (m, Counting_Writers q w)" "r = Inr (q, ?s)"
      using Suc.prems by (auto simp: Let_def split: if_splits)
    then show ?thesis by (simp add: segment_put solo_first)
  next
    case True
    show ?thesis
    proof (cases "release_buffer q ?s ?a")
      case (Inl e)
      with True Suc.prems have "process_step may_open p m (Draining q w) = Some (m, Thrown e)" "r = Inl e"
        by (auto simp: Let_def)
      with solo_first [OF this(1) rtranclp.rtrancl_refl] show ?thesis by auto
    next
      case (Inr qs)
      obtain q1 s1 where qs: "qs = (q1, s1)" by (cases qs)
      have step: "process_step may_open p m (Draining q w) = Some (put_segment q s1 m, Draining q1 w)"
        using True Inr qs by (simp add: Let_def)
      have same: "same_queue q q1" using release_buffer_keeps(2) Inr qs by blast
      then have seg: "segment_of q1 (put_segment q s1 m) = s1"
        using put_segment_same_queue [OF same, of s1 m] segment_put(1) [of q1 s1 m] by simp
      have "decrement_readers_until fuel q1 (segment_of q1 (put_segment q s1 m)) (write_offset w) = Some r"
        using Suc.prems True Inr qs by (simp add: Let_def seg)
      from Suc.IH [OF this] show ?thesis
        using solo_first [OF step] same_queue_trans [OF same] put_segment_same_queue [OF same]
        by (auto simp: segment_put split: sum.splits)
    qed
  qed
qed simp

lemma solo_finish:
  "\<exists>m'. (solo may_open p)\<^sup>*\<^sup>* (m, Counting_Writers q w) (m', Detached (q\<lparr>fd := -1\<rparr>)) \<and>
     shm m' = (if remove_file q (writers_of (segment_of q m)) w then shm_unlink (file_name q) (shm m) else shm m)"
proof (cases "remove_file q (writers_of (segment_of q m)) w")
  case True
  have "(solo may_open p)\<^sup>*\<^sup>* (m, Counting_Writers q w)
    (m\<lparr>shm := shm_unlink (file_name q) (shm m)\<rparr>, Detached (q\<lparr>fd := -1\<rparr>))"
    by (rule solo_first [of _ _ _ _ "(m, Unlinking q)"], use True in simp)
      (rule solo_first [OF _ rtranclp.rtrancl_refl], simp)
  with True show ?thesis by auto
next
  case False
  have "(solo may_open p)\<^sup>*\<^sup>* (m, Counting_Writers q w) (m, Detached (q\<lparr>fd := -1\<rparr>))"
    by (rule solo_first [OF _ rtranclp.rtrancl_refl]) (use False in simp)
  with False show ?thesis by auto
qed

lemma solo_close:
  assumes "fd q = int k" "close_queue fuel q (shm m) = Some r"
  shows "\<exists>m' ph'. (solo may_open p)\<^sup>*\<^sup>* (m, Attached q) (m', ph') \<and>
    (case r of Inl e \<Rightarrow> ph' = Thrown e | Inr (q', h') \<Rightarrow> shm m' = h' \<and> ph' = Detached q')"
proof (cases "is_writer q")
  case True
  let ?s = "segment_of q m" and ?w = "unwrap (packed_of (segment_of q m))"
  let ?m1 = "put_segment q (set_writers (writers_of ?s - 1) ?s) m"
  obtain m' where m': "(solo may_open p)\<^sup>*\<^sup>* (?m1, Counting_Writers q ?w) (m', Detached (q\<lparr>fd := -1\<rparr>))"
    "shm m' = (if remove_file q (writers_of ?s - 1) ?w then shm_unlink (file_name q) (shm ?m1) else shm ?m1)"
    using solo_finish [of may_open p ?m1 q ?w] by (auto simp: segment_put)
  have "(solo may_open p)\<^sup>*\<^sup>* (m, Attached q) (m', Detached (q\<lparr>fd := -1\<rparr>))"
    by (rule solo_first [of _ _ _ _ "(m, Writer_Leaving q ?w)"], use True in simp)
      (rule solo_first [OF _ m'(1)], simp add: Let_def)
  moreover have "close_queue fuel q (shm m) = Some (Inr (q\<lparr>fd := -1\<rparr>, shm m'))"
    using assms(1) True m'(2) by (simp add: close_queue_def segment_of_def put_segment_def Let_def)
  then have "r = Inr (q\<lparr>fd := -1\<rparr>, shm m')" using assms(2) by simp
  ultimately show ?thesis by auto
next
  case False
  obtain s0 w where leave: "modify_readers False (segment_of q m) = (s0, w)"
    by (cases "modify_readers False (segment_of q m)")
  let ?m0 = "put_segment q s0 m"
  have first: "process_step may_open p m (Attached q) = Some (?m0, Draining q w)"
    using False leave by simp
  obtain d where d: "decrement_readers_until fuel q s0 (write_offset w) = Some d"
    using assms False leave by (auto simp: close_queue_def segment_of_def Let_def split: option.splits)
  then have "decrement_readers_until fuel q (segment_of q ?m0) (write_offset w) = Some d"
    by (simp add: segment_put)
  note drain = solo_drain [OF this, of may_open p]
  show ?thesis
  proof (cases d)
    case (Inl e)
    then have "r = Inl e" using assms False leave d by (auto simp: close_queue_def segment_of_def Let_def)
    with drain Inl solo_first [OF first] show ?thesis by auto
  next
    case (Inr qs)
    obtain q1 s1 where qs: "qs = (q1, s1)" by (cases qs)
    let ?m1 = "put_segment q s1 m"
    have same: "same_queue q q1"
      and run: "(solo may_open p)\<^sup>*\<^sup>* (?m0, Draining q w) (?m1, Counting_Writers q1 w)"
      using drain Inr qs by (simp_all add: segment_put)
    have seg: "segment_of q1 ?m1 = s1"
      using put_segment_same_queue [OF same, of s1 m] segment_put(1) [of q1 s1 m] by simp
    have "remove_file q1 n w = remove_file q n w" for n
      using same_queue_simps [OF same] by (simp add: remove_file_def)
    then obtain m' where m': "(solo may_open p)\<^sup>*\<^sup>* (?m1, Counting_Writers q1 w) (m', Detached (q1\<lparr>fd := -1\<rparr>))"
      "shm m' = (if remove_file q (writers_of s1) w then shm_unlink (file_name q) (shm ?m1) else shm ?m1)"
      using solo_finish [of may_open p ?m1 q1 w] seg same_queue_simps [OF same] by auto
    have "(solo may_open p)\<^sup>*\<^sup>* (m, Attached q) (m', Detached (q1\<lparr>fd := -1\<rparr>))"
      by (rule solo_first [OF first]) (rule rtranclp_trans [OF run m'(1)])
    moreover have "close_queue fuel q (shm m) = Some (Inr (q1\<lparr>fd := -1\<rparr>, shm m'))"
      using assms(1) False leave d Inr qs m'(2)
      by (simp add: close_queue_def segment_of_def put_segment_def Let_def)
    then have "r = Inr (q1\<lparr>fd := -1\<rparr>, shm m')" using assms(2) by simp
    ultimately show ?thesis by auto
  qed
qed

section \<open>Histories\<close>

text \<open>Runs that a list of process numbers determines: who takes the next step.\<close>

fun run_schedule ::
    "(string \<Rightarrow> bool) \<Rightarrow> (nat \<Rightarrow> IpcQueueParameters) \<Rightarrow> nat list \<Rightarrow> Processes \<Rightarrow> Processes option" where
  "run_schedule may_open params [] \<pi> = Some \<pi>"
| "run_schedule may_open params (i # is) \<pi> =
     (case process_step may_open (params i) (machine \<pi>) (phase_of \<pi> i) of
        None \<Rightarrow> None
      | Some (m', ph') \<Rightarrow>
          run_schedule may_open params is (\<pi>\<lparr>machine := m', phase_of := (phase_of \<pi>)(i := ph')\<rparr>))"

lemma run_schedule_reachable:
  "run_schedule may_open params is \<pi> = Some \<pi>' \<Longrightarrow> lifecycle_reachable may_open params \<pi> \<Longrightarrow>
   lifecycle_reachable may_open params \<pi>'"
proof (induction "is" arbitrary: \<pi>)
  case (Cons i "is")
  then obtain m' ph' where step: "process_step may_open (params i) (machine \<pi>) (phase_of \<pi> i) = Some (m', ph')"
    and rest: "run_schedule may_open params is (\<pi>\<lparr>machine := m', phase_of := (phase_of \<pi>)(i := ph')\<rparr>) = Some \<pi>'"
    by (auto split: option.splits)
  have "lifecycle_reachable may_open params (\<pi>\<lparr>machine := m', phase_of := (phase_of \<pi>)(i := ph')\<rparr>)"
    using Cons.prems(2) lifecycle_step.act [of may_open params i \<pi>, OF step]
    unfolding lifecycle_reachable_def by (meson rtranclp.rtrancl_into_rtrancl)
  from Cons.IH [OF rest this] show ?case .
qed simp

text \<open>An empty machine, with readers for even numbers and writers for odd ones.\<close>

definition fresh_start :: Processes where
  "fresh_start =
     \<lparr>machine = \<lparr>shm = \<lparr>names = Map.empty, objects = (\<lambda>_. zero_segment), next_object = 0\<rparr>, file_size = (\<lambda>_. 0)\<rparr>,
      phase_of = (\<lambda>_. Before_Open)\<rparr>"

definition agents :: "nat \<Rightarrow> IpcQueueParameters" where
  "agents i = demo_params 64 (odd i)"

lemma fresh_start_reachable: "lifecycle_reachable may_open params fresh_start"
  unfolding lifecycle_reachable_def by (intro exI [of _ fresh_start]) (simp add: lifecycle_init_def fresh_start_def)

lemma agents_usable: "usable (agents i)"
  by (simp add: agents_def usable_def demo_params_def demo_power MAX_QUEUE_SIZE_BYTES_def)

lemmas run_simps =
  fresh_start_def agents_def demo_params_def IpcQueue_members_def demo_power MAX_QUEUE_SIZE_BYTES_def
  Let_def shm_create_def shm_unlink_def remove_file_def segment_of_def mapped_def zero_segment_def MAGIC_def
  sizeof_GlobalHeader_def init_stores_def put_segment_def put_mapped_def adopt_size_def register_def
  modify_readers_def set_packed_def set_count_def set_writers_def writers_of_def set_read_offset_def
  packed_of_def return_add_reader_def return_sub_reader_def unwrap_def repack_def mem_set_def
  hdr_commit_flag_def

text \<open>Reader 0 makes the file, in twelve steps, and writer 1 opens it.\<close>

definition alone_0 :: "nat list" where
  "alone_0 = [0, 0, 0, 0, 0, 0, 0, 0, 0, 0, 0, 0]"

lemma both_attached:
  "\<exists>\<pi> q. run_schedule (\<lambda>_. True) agents (alone_0 @ [1, 1, 1, 1]) fresh_start = Some \<pi> \<and>
     phase_of \<pi> 0 = Attached q \<and> fd q = 0 \<and> members \<pi> 0 False = {0} \<and> members \<pi> 0 True = {1}"
  by (simp add: alone_0_def members_def run_simps) auto

theorem registrations_are_exact_witness:
  "\<exists>\<pi> s. lifecycle_reachable (\<lambda>_. True) agents \<pi> \<and> s = objects (shm (machine \<pi>)) 0 \<and>
     num_readers (unwrap (packed_of s)) = 1 \<and> writers_of s = 1 \<and> magic (global_header s) = MAGIC"
proof -
  obtain \<pi> q where run: "run_schedule (\<lambda>_. True) agents (alone_0 @ [1, 1, 1, 1]) fresh_start = Some \<pi>"
    and at: "phase_of \<pi> 0 = Attached q"
    and who: "fd q = 0" "members \<pi> 0 False = {0}" "members \<pi> 0 True = {1}"
    using both_attached by blast
  have reach: "lifecycle_reachable (\<lambda>_. True) agents \<pi>"
    by (rule run_schedule_reachable [OF run fresh_start_reachable])
  with registrations_are_exact [OF reach at] who show ?thesis
    by (auto simp: word_unat_eq_iff)
qed

theorem constructor_takes_effect_at_once_witness:
  "\<exists>\<pi> q q' h. lifecycle_reachable (\<lambda>_. True) agents \<pi> \<and> phase_of \<pi> 1 = Registering q \<and>
     open_queue (\<lambda>_. True) (shm (machine \<pi>)) (agents 1) = Inr (q', h) \<and>
     process_step (\<lambda>_. True) (agents 1) (machine \<pi>) (Registering q) = Some ((machine \<pi>)\<lparr>shm := h\<rparr>, Attached q')"
proof -
  obtain \<pi> q where run: "run_schedule (\<lambda>_. True) agents (alone_0 @ [1, 1, 1]) fresh_start = Some \<pi>"
    and at: "phase_of \<pi> 1 = Registering q" "names (shm (machine \<pi>)) (param_file_name (agents 1)) = Some (nat (fd q))"
    by (simp add: alone_0_def run_simps)
  have reach: "lifecycle_reachable (\<lambda>_. True) agents \<pi>"
    by (rule run_schedule_reachable [OF run fresh_start_reachable])
  with constructor_takes_effect_at_once [OF reach at] at(1) show ?thesis by auto
qed

text \<open>
  C29. What goes wrong when constructors and closings overlap. Of two processes that find no file,
  the second to create it throws, though the file is there. A process that finds the file before its
  maker has set the magic number throws, and one that finds it before the maker has given it a size
  is killed by a bus error. A process that has opened the file while the last one to use it removes the
  name is attached to a file without a name, and the next one makes another, so the two never meet
  though they asked for the same name. And when the last writer and the last reader close together,
  the reader because it sees a writer and the writer because it loaded the number of readers before
  it left, neither removes the name, and the file stays although nobody uses it.
\<close>

theorem lifecycle_races:
  "(\<exists>\<pi>. lifecycle_reachable (\<lambda>_. True) agents \<pi> \<and> phase_of \<pi> 1 = Thrown Shm_Open_Failed \<and>
      names (shm (machine \<pi>)) ''/q'' = Some 0) \<and>
   (\<exists>\<pi>. lifecycle_reachable (\<lambda>_. True) agents \<pi> \<and> phase_of \<pi> 1 = Thrown Queue_Uninitialized \<and>
      building (phase_of \<pi> 0) = Some 0) \<and>
   (\<exists>\<pi>. lifecycle_reachable (\<lambda>_. True) agents \<pi> \<and> phase_of \<pi> 1 = Bus_Error) \<and>
   (\<exists>\<pi> q q'. lifecycle_reachable (\<lambda>_. True) agents \<pi> \<and> phase_of \<pi> 2 = Attached q \<and> phase_of \<pi> 1 = Attached q' \<and>
      file_name q = file_name q' \<and> fd q \<noteq> fd q') \<and>
   (\<exists>\<pi> q q'. lifecycle_reachable (\<lambda>_. True) agents \<pi> \<and> phase_of \<pi> 0 = Detached q \<and> phase_of \<pi> 1 = Detached q' \<and>
      (\<forall>k w. members \<pi> k w = {}) \<and> names (shm (machine \<pi>)) ''/q'' = Some 0)"
proof -
  have reach: "lifecycle_reachable (\<lambda>_. True) agents \<pi>"
    if "run_schedule (\<lambda>_. True) agents is fresh_start = Some \<pi>" for "is" \<pi>
    by (rule run_schedule_reachable [OF that fresh_start_reachable])
  have "\<exists>\<pi>. run_schedule (\<lambda>_. True) agents [0, 1, 0, 1] fresh_start = Some \<pi> \<and>
      phase_of \<pi> 1 = Thrown Shm_Open_Failed \<and> names (shm (machine \<pi>)) ''/q'' = Some 0"
    by (simp add: run_simps)
  moreover have "\<exists>\<pi>. run_schedule (\<lambda>_. True) agents [0, 0, 0, 1, 1] fresh_start = Some \<pi> \<and>
      phase_of \<pi> 1 = Thrown Queue_Uninitialized \<and> building (phase_of \<pi> 0) = Some 0"
    by (simp add: run_simps)
  moreover have "\<exists>\<pi>. run_schedule (\<lambda>_. True) agents [0, 0, 1, 1] fresh_start = Some \<pi> \<and>
      phase_of \<pi> 1 = Bus_Error"
    by (simp add: run_simps)
  moreover have "\<exists>\<pi> q q'. run_schedule (\<lambda>_. True) agents
        (alone_0 @ [2, 0, 0, 0, 0, 2, 2, 2, 1, 1, 1, 1, 1, 1, 1, 1, 1, 1, 1, 1]) fresh_start = Some \<pi> \<and>
      phase_of \<pi> 2 = Attached q \<and> phase_of \<pi> 1 = Attached q' \<and> file_name q = file_name q' \<and> fd q \<noteq> fd q'"
    by (simp add: alone_0_def run_simps)
  moreover have "\<exists>\<pi> q q'. run_schedule (\<lambda>_. True) agents (alone_0 @ [1, 1, 1, 1, 1, 0, 0, 0, 1, 1]) fresh_start = Some \<pi> \<and>
      phase_of \<pi> 0 = Detached q \<and> phase_of \<pi> 1 = Detached q' \<and>
      (\<forall>k w. members \<pi> k w = {}) \<and> names (shm (machine \<pi>)) ''/q'' = Some 0"
    by (simp add: alone_0_def members_def run_simps)
  ultimately show ?thesis using reach by (intro conjI) blast+
qed

end
