(* ===== verification/Ipc_Stores.thy ===== *)
theory Ipc_Stores
  imports Ipc_Read
begin

text \<open>
  The operations of the queue, store by store. Placing a header, padding the ring, publishing a
  payload and releasing a message are sequences of stores to shared memory, and other agents act
  between them; \<open>memset\<close> and \<open>memcpy\<close> count as one store per byte. This theory lists the stores
  of each operation in the order of the code and shows that executing them one after the other is
  the operation of \<open>Ipc_Queue\<close>. \<open>Ipc_Fine_Grained\<close> interleaves them.
\<close>

section \<open>Stores\<close>

datatype Store =
    Store_Abs_Offset nat u64
  | Store_Size nat u32
  | Store_Type nat MessageType
  | Store_Readers nat u8
  | Store_Flag nat CommitFlag
  | Store_Byte nat u8
  | Store_Last_Cleared nat        \<comment> \<open>from the \<open>abs_offset\<close> of the header at this place\<close>
  | Count_Message                 \<comment> \<open>\<open>message_count.fetch_add(1)\<close>\<close>
  | Bump_Read_Offset u64          \<comment> \<open>\<open>read_offset.fetch_add\<close>\<close>

text \<open>The bytes of the ring a store writes: first byte and length.\<close>

primrec store_at :: "Store \<Rightarrow> nat \<times> nat" where
  "store_at (Store_Abs_Offset a v) = (a, 8)"
| "store_at (Store_Size a v) = (a + 8, 4)"
| "store_at (Store_Type a t) = (a + 12, 4)"
| "store_at (Store_Readers a n) = (a + 16, 1)"
| "store_at (Store_Flag a f) = (a + 17, 1)"
| "store_at (Store_Byte i b) = (i, 1)"
| "store_at (Store_Last_Cleared a) = (0, 0)"
| "store_at Count_Message = (0, 0)"
| "store_at (Bump_Read_Offset n) = (0, 0)"

definition writes :: "Store \<Rightarrow> nat \<Rightarrow> bool" where
  "writes st i \<longleftrightarrow> fst (store_at st) \<le> i \<and> i < fst (store_at st) + snd (store_at st)"

primrec store_mem :: "Store \<Rightarrow> mem \<Rightarrow> mem" where
  "store_mem (Store_Abs_Offset a v) m = set_abs_offset a v m"
| "store_mem (Store_Size a v) m = set_message_size a v m"
| "store_mem (Store_Type a t) m = set_type a t m"
| "store_mem (Store_Readers a n) m = set_num_readers a n m"
| "store_mem (Store_Flag a f) m = set_commit_flag a f m"
| "store_mem (Store_Byte i b) m = m(i := b)"
| "store_mem (Store_Last_Cleared a) m = m"
| "store_mem Count_Message m = m"
| "store_mem (Bump_Read_Offset n) m = m"

fun exec_store :: "Store \<Rightarrow> Segment \<Rightarrow> Segment" where
  "exec_store (Store_Last_Cleared a) s = set_last_cleared (hdr_abs_offset (ring s) a) s"
| "exec_store Count_Message s = set_count (count_of s + 1) s"
| "exec_store (Bump_Read_Offset n) s = set_read_offset (read_offset_of s + n) s"
| "exec_store st s = s\<lparr>ring := store_mem st (ring s)\<rparr>"

definition exec_stores :: "Store list \<Rightarrow> Segment \<Rightarrow> Segment" where
  "exec_stores sts s = fold exec_store sts s"

lemma exec_stores_simps [simp]:
  "exec_stores [] s = s"
  "exec_stores (st # sts) s = exec_stores sts (exec_store st s)"
  "exec_stores (sts @ sts') s = exec_stores sts' (exec_stores sts s)"
  by (simp_all add: exec_stores_def)

lemma ring_exec_store [simp]: "ring (exec_store st s) = store_mem st (ring s)"
  by (cases st) simp_all

lemma packed_exec_store [simp]: "packed_of (exec_store st s) = packed_of s"
  by (cases st) simp_all

text \<open>A store is a constant on the bytes it writes and leaves the others alone.\<close>

lemma store_bytes_cong:
  "m i = m' i \<Longrightarrow> store32 m a v i = store32 m' a v i"
  "m i = m' i \<Longrightarrow> store64 m a w i = store64 m' a w i"
  by (simp_all add: store32_def store64_def write_bytes_def)

lemma store_mem_out: "\<not> writes st i \<Longrightarrow> store_mem st m i = m i"
  by (cases st) (auto simp: writes_def hdr_set_defs store32_out store64_out not_le not_less
      disj_commute de_Morgan_conj)

lemma store_mem_byte: "m i = m' i \<Longrightarrow> store_mem st m i = store_mem st m' i"
  by (cases st) (simp_all add: hdr_set_defs, (erule store_bytes_cong)+)

definition stores_mem :: "Store list \<Rightarrow> mem \<Rightarrow> mem" where
  "stores_mem sts m = fold store_mem sts m"

lemma stores_mem_simps [simp]:
  "stores_mem [] m = m"
  "stores_mem (st # sts) m = stores_mem sts (store_mem st m)"
  "stores_mem (sts @ sts') m = stores_mem sts' (stores_mem sts m)"
  by (simp_all add: stores_mem_def)

lemma ring_exec_stores [simp]: "ring (exec_stores sts s) = stores_mem sts (ring s)"
  by (induction sts arbitrary: s) simp_all

lemma stores_mem_out: "\<forall>st\<in>set sts. \<not> writes st i \<Longrightarrow> stores_mem sts m i = m i"
  by (induction sts arbitrary: m) (simp_all add: store_mem_out)

lemma stores_mem_byte: "m i = m' i \<Longrightarrow> stores_mem sts m i = stores_mem sts m' i"
proof (induction sts arbitrary: m m')
  case (Cons st sts)
  then show ?case unfolding stores_mem_simps by (intro Cons.IH store_mem_byte)
qed simp

section \<open>The operations as lists of stores\<close>

definition fill_stores :: "nat \<Rightarrow> u8 \<Rightarrow> nat \<Rightarrow> Store list" where
  "fill_stores a b n = map (\<lambda>i. Store_Byte i b) [a..<a + n]"

fun copy_stores :: "nat \<Rightarrow> u8 list \<Rightarrow> Store list" where
  "copy_stores a [] = []"
| "copy_stores a (b # bs) = Store_Byte a b # copy_stores (a + 1) bs"

definition header_stores :: "nat \<Rightarrow> u64 \<Rightarrow> u64 \<Rightarrow> MessageType \<Rightarrow> u64 \<Rightarrow> Store list" where
  "header_stores a off sz ty n =
     [Store_Abs_Offset a off, Store_Size a (ucast sz), Store_Type a ty, Store_Readers a (ucast n)]"

definition place_stores :: "nat \<Rightarrow> u64 \<Rightarrow> u64 \<Rightarrow> u64 \<Rightarrow> Store list" where
  "place_stores a off sz n = header_stores a off sz NORMAL n @ [Count_Message]"

definition skip_stores :: "nat \<Rightarrow> u64 \<Rightarrow> u64 \<Rightarrow> u64 \<Rightarrow> Store list" where
  "skip_stores a off pad n =
     header_stores a off pad PADDING n @ fill_stores (skip_payload a) 0 (unat pad) @
     [Store_Flag a READY_FOR_CONSUMER]"

definition publish_stores :: "nat \<Rightarrow> u8 list \<Rightarrow> Store list" where
  "publish_stores a data = copy_stores (a + 18) data @ [Store_Flag a READY_FOR_CONSUMER]"

definition abort_stores :: "nat \<Rightarrow> nat \<Rightarrow> Store list" where
  "abort_stores a len = fill_stores (a + 18) 0 len @ [Store_Flag a ABORTED]"

definition clear_stores :: "nat \<Rightarrow> nat \<Rightarrow> u64 \<Rightarrow> Store list" where
  "clear_stores a len total_len =
     fill_stores (a + 18) 0 len @
     [Store_Last_Cleared a, Store_Size a 0, Store_Type a NORMAL, Store_Flag a NOT_READY,
      Bump_Read_Offset total_len]"

text \<open>
  The stores of a writer that leaves the wait loop, and the buffer it will hand out; for a skip
  message there is none.
\<close>

definition place_start ::
    "IpcQueue \<Rightarrow> u64 \<Rightarrow> Ticket \<Rightarrow> error + (RaiiWrapper option \<times> Store list)" where
  "place_start q sz t =
     (let wrapper = claimed_word t;
          avail = available_queue_size_bytes q;
          total_message_len = sz + sizeof_MessageHeader;
          off = write_offset wrapper mod avail in
      if total_message_len + sizeof_MessageHeader > avail - off then
        bindE (assertE ''skip_offset + sizeof(MessageHeader) <= available_queue_size_bytes''
                 (off + sizeof_MessageHeader \<le> avail)) (\<lambda>_.
        Inr (None, skip_stores (unat off) (write_offset wrapper) (avail - off - sizeof_MessageHeader)
               (num_readers wrapper)))
      else Inr (Some \<lparr>wrapper_data = unat off, wrapper_size = total_message_len\<rparr>,
             place_stores (unat off) (write_offset wrapper) sz (num_readers wrapper)))"

text \<open>
  \<open>release_buffer\<close> up to and with its \<open>fetch_sub\<close>; the list is what the last reader has still to
  store, and is empty for the others.
\<close>

definition release_start ::
    "IpcQueue \<Rightarrow> Segment \<Rightarrow> nat \<Rightarrow> error + (IpcQueue \<times> Segment \<times> Store list)" where
  "release_start q s a =
     (let message_len = hdr_message_size (ring s) a;
          total_message_len = ucast message_len + sizeof_MessageHeader :: u64 in
      bindE (assertE ''abs_read_offset % available_queue_size_bytes == distance''
               (unat (abs_read_offset q mod available_queue_size_bytes q) = a)) (\<lambda>_.
      bindE (assertE ''total_message_len <= available_queue_size_bytes''
               (total_message_len \<le> available_queue_size_bytes q)) (\<lambda>_.
      let prev_count = hdr_num_readers (ring s) a in
      Inr (q\<lparr>abs_read_offset := abs_read_offset q + total_message_len\<rparr>,
           exec_store (Store_Readers a (prev_count - 1)) s,
           if prev_count > 1 then [] else clear_stores a (unat message_len) total_message_len))))"

text \<open>The assertion behind the last store.\<close>

definition release_finish ::
    "IpcQueue \<Rightarrow> Segment \<Rightarrow> Store list \<Rightarrow> error + (IpcQueue \<times> Segment)" where
  "release_finish q s sts =
     (if sts = [] then Inr (q, s)
      else bindE (assertE ''prev_read_low_watermark + total_message_len == abs_read_offset''
                    (read_offset_of (exec_stores sts s) = abs_read_offset q)) (\<lambda>_.
           Inr (q, exec_stores sts s)))"

subsection \<open>Executing the lists\<close>

lemma exec_fill_stores:
  "exec_stores (fill_stores a b n) s = s\<lparr>ring := mem_set (ring s) a b n\<rparr>"
proof (induction n)
  case 0
  have "mem_set (ring s) a b 0 = ring s" by (rule ext, rule mem_set_out) arith
  then show ?case by (simp add: fill_stores_def)
next
  case (Suc n)
  have "(mem_set (ring s) a b n)(a + n := b) = mem_set (ring s) a b (Suc n)"
    by (auto simp: mem_set_def fun_eq_iff)
  with Suc show ?case by (simp add: fill_stores_def)
qed

lemma exec_copy_stores:
  "exec_stores (copy_stores a bs) s = s\<lparr>ring := write_bytes (ring s) a bs\<rparr>"
proof (induction bs arbitrary: a s)
  case Nil
  have "write_bytes (ring s) a [] = ring s" by (rule ext, rule write_bytes_out) auto
  then show ?case by simp
next
  case (Cons b bs)
  have "write_bytes ((ring s)(a := b)) (a + 1) bs = write_bytes (ring s) a (b # bs)"
    by (auto simp: write_bytes_def fun_eq_iff nth_Cons diff_Suc split: nat.splits)
  then show ?case unfolding copy_stores.simps exec_stores_simps Cons.IH by (simp del: fun_upd_apply)
qed

lemma exec_header_stores:
  "exec_stores (header_stores a off sz ty n) s = s\<lparr>ring :=
     set_num_readers a (ucast n) (set_type a ty
       (set_message_size a (ucast sz) (set_abs_offset a off (ring s))))\<rparr>"
  by (simp add: header_stores_def)

lemma exec_place_stores:
  "exec_stores (place_stores a off sz n) s =
     set_count (count_of s + 1) (s\<lparr>ring := header_ring a off sz n (ring s)\<rparr>)"
  by (simp add: place_stores_def exec_header_stores header_ring_def)

lemma exec_skip_stores:
  "exec_stores (skip_stores a off pad n) s = s\<lparr>ring := skip_ring a off pad n (ring s)\<rparr>"
  by (simp add: skip_stores_def exec_header_stores exec_fill_stores skip_ring_def skip_payload_def)

lemma exec_publish_stores:
  "exec_stores (publish_stores a data) s = commit_buffer (s\<lparr>ring := write_bytes (ring s) (a + 18) data\<rparr>) a"
  by (simp add: publish_stores_def exec_copy_stores commit_buffer_def)

lemma abort_by_stores:
  "wrapper_abort s b =
     exec_stores (abort_stores (wrapper_data b) (unat (hdr_message_size (ring s) (wrapper_data b)))) s"
  by (simp add: abort_stores_def exec_fill_stores wrapper_abort_def abort_buffer_def)

lemma place_by_stores:
  "place_claim q s sz t = bindE (place_start q sz t) (\<lambda>(b, sts). Inr (exec_stores sts s, b))"
  by (simp add: place_claim_def insert_skip_message_def place_start_def header_ring_def
      skip_ring_def skip_payload_def commit_buffer_def exec_place_stores exec_skip_stores assertE_def
      Let_def)

lemma write_by_stores:
  "write_to_buffer s b data =
     bindE (assertE ''size + sizeof(MessageHeader) <= wrapper.size_bytes()''
              (length data + unat sizeof_MessageHeader \<le> unat (wrapper_size b))) (\<lambda>_.
     Inr (exec_stores (publish_stores (wrapper_data b) data) s))"
  by (simp add: write_to_buffer_def exec_publish_stores)

lemma release_by_stores:
  "release_buffer q s a = bindE (release_start q s a) (\<lambda>(q1, s1, sts). release_finish q1 s1 sts)"
  by (simp add: release_buffer_def release_start_def release_finish_def clear_stores_def
      exec_fill_stores assertE_def Let_def)

section \<open>A poll in two parts\<close>

text \<open>\<open>poll_buffer\<close> loads the flag, and after that the other fields of the header.\<close>

definition read_place :: "IpcQueue \<Rightarrow> nat" where
  "read_place q = unat (abs_read_offset q mod available_queue_size_bytes q)"

definition poll_flag :: "IpcQueue \<Rightarrow> Segment \<Rightarrow> CommitFlag option" where
  "poll_flag q s = commit_flag_of_byte (hdr_commit_flag (ring s) (read_place q))"

datatype ReadyPoll = Ready_Stale | Ready_Padding | Ready_Message ReaderWrapper

definition poll_ready :: "IpcQueue \<Rightarrow> Segment \<Rightarrow> error + ReadyPoll" where
  "poll_ready q s =
     (let a = read_place q in
      if abs_read_offset q \<noteq> hdr_abs_offset (ring s) a then Inr Ready_Stale
      else
        let total_message_len = ucast (hdr_message_size (ring s) a) + sizeof_MessageHeader in
        bindE (assertE ''total_message_len <= available_queue_size_bytes''
                 (total_message_len \<le> available_queue_size_bytes q)) (\<lambda>_.
        Inr (if hdr_type (ring s) a = message_type_value PADDING then Ready_Padding
             else Ready_Message (mk_reader_wrapper a total_message_len))))"

lemma poll_once_by_parts:
  "poll_once q s =
     (if is_writer q then Inl Producer_Cannot_Poll
      else case poll_flag q s of
        Some READY_FOR_CONSUMER \<Rightarrow>
          bindE (poll_ready q s) (\<lambda>p. case p of
            Ready_Stale \<Rightarrow> Inr (Poll_Return q s None)
          | Ready_Padding \<Rightarrow>
              bindE (release_buffer q s (read_place q)) (\<lambda>(q', s'). Inr (Poll_Again q' s'))
          | Ready_Message wr \<Rightarrow>
              Inr (Poll_Return (q\<lparr>read_message_cnt := read_message_cnt q + 1\<rparr>) s (Some wr)))
      | Some ABORTED \<Rightarrow>
          bindE (release_buffer q s (read_place q)) (\<lambda>(q', s'). Inr (Poll_Again q' s'))
      | _ \<Rightarrow> Inr (Poll_Return q s None))"
  by (auto simp: poll_once_def poll_flag_def poll_ready_def read_place_def Let_def assertE_def
      split: option.split CommitFlag.split)

end
