(* ===== verification/Ipc_Fine_Grained.thy ===== *)
theory Ipc_Fine_Grained
  imports Ipc_Stores Ipc_Guarantees
begin

text \<open>
  The agents of \<open>Ipc_System\<close> at the grain of the machine: placing a header, padding the ring,
  publishing, aborting and releasing take one step per store, a poll loads the flag in one step and the rest
  of the header in another, and any other agent may act in between. Every run of this machine is
  shown to have the effect of a run of \<open>Ipc_System\<close>, in which the operations are atomic: an
  operation takes effect with its last store, and a release that is not the last with its
  \<open>fetch_sub\<close>.

  The conditions of \<open>Ipc_System\<close> stay; a reader leaves while no operation is in progress. One more
  concerns the poll: it may be split only when the reader is less than one ring's size ahead of the
  slowest reader. The code does not check it, and \<open>Ipc_Hazards\<close> shows what happens without it.
\<close>

section \<open>The machine\<close>

datatype Agent = Writer nat | Reader nat

text \<open>
  An operation in progress: what it has still to store, and what its local variables say about
  its result; a poll that has loaded a flag, of a committed or of an aborted message. The payload of a release is recorded for \<open>received\<close>; it is not in the program.
\<close>

datatype Pending =
    Placing "RaiiWrapper option" "Store list"
  | Publishing "u8 list" "Store list"
  | Aborting "Store list"
  | Releasing IpcQueue "u8 list list" "Store list"
  | Flag_Loaded
  | Abort_Loaded

primrec todo :: "Pending \<Rightarrow> Store list" where
  "todo (Placing b sts) = sts"
| "todo (Publishing data sts) = sts"
| "todo (Aborting sts) = sts"
| "todo (Releasing q vs sts) = sts"
| "todo Flag_Loaded = []"
| "todo Abort_Loaded = []"

primrec with_todo :: "Store list \<Rightarrow> Pending \<Rightarrow> Pending" where
  "with_todo sts (Placing b sts') = Placing b sts"
| "with_todo sts (Publishing data sts') = Publishing data sts"
| "with_todo sts (Aborting sts') = Aborting sts"
| "with_todo sts (Releasing q vs sts') = Releasing q vs sts"
| "with_todo sts Flag_Loaded = Flag_Loaded"
| "with_todo sts Abort_Loaded = Abort_Loaded"

primrec polling :: "Pending \<Rightarrow> bool" where
  "polling (Placing b sts) \<longleftrightarrow> False"
| "polling (Publishing data sts) \<longleftrightarrow> False"
| "polling (Aborting sts) \<longleftrightarrow> False"
| "polling (Releasing q vs sts) \<longleftrightarrow> False"
| "polling Flag_Loaded \<longleftrightarrow> True"
| "polling Abort_Loaded \<longleftrightarrow> True"

record Fine = Sys +
  pending :: "Agent \<rightharpoonup> Pending"

text \<open>
  A reader is about to release: it holds a message, or its poll has found a skip message or the
  flag of an aborted one, for which it looks at nothing else. The payload of the message is what it is about to have received.
\<close>

definition about_to_release :: "Fine \<Rightarrow> nat \<Rightarrow> IpcQueue \<Rightarrow> nat \<Rightarrow> u8 list list \<Rightarrow> bool" where
  "about_to_release \<phi> r q a vs \<longleftrightarrow>
     open_readers \<phi> r = Some q \<and>
     (case held \<phi> r of
        Some wr \<Rightarrow> pending \<phi> (Reader r) = None \<and> a = wrapper_data wr \<and> vs = [get_as_view (seg \<phi>) wr]
      | None \<Rightarrow>
          (pending \<phi> (Reader r) = Some Flag_Loaded \<and> poll_ready q (seg \<phi>) = Inr Ready_Padding \<or>
           pending \<phi> (Reader r) = Some Abort_Loaded) \<and>
          a = read_place q \<and> vs = [])"

inductive fine_step :: "IpcQueue \<Rightarrow> nat set \<Rightarrow> Fine \<Rightarrow> Fine \<Rightarrow> bool" for wq :: IpcQueue and G :: "nat set" where
  reserve:
    "pending \<phi> (Writer w) = None \<Longrightarrow> threads \<phi> w = None \<Longrightarrow> open_readers \<phi> \<noteq> Map.empty \<Longrightarrow>
     claim_checks wq sz \<Longrightarrow>
     reserve_write_offset wq (seg \<phi>) (sz + sizeof_MessageHeader) = (s', t) \<Longrightarrow>
     seg_hi s' mod q_cap wq \<in> G \<Longrightarrow> seg_hi (seg \<phi>) + 2 * q_cap wq < 2 ^ 56 \<Longrightarrow>
     fine_step wq G \<phi> (\<phi>\<lparr>seg := s', threads := (threads \<phi>)(w \<mapsto> Waiting sz t)\<rparr>)"
| start_placing:
    "pending \<phi> (Writer w) = None \<Longrightarrow> threads \<phi> w = Some (Waiting sz t) \<Longrightarrow>
     \<not> must_wait wq (seg \<phi>) t \<Longrightarrow> place_start wq sz t = Inr (b, sts) \<Longrightarrow>
     fine_step wq G \<phi> (\<phi>\<lparr>pending := (pending \<phi>)(Writer w \<mapsto> Placing b sts)\<rparr>)"
| start_publishing:
    "pending \<phi> (Writer w) = None \<Longrightarrow> threads \<phi> w = Some (Holding b) \<Longrightarrow>
     length data + unat sizeof_MessageHeader \<le> unat (wrapper_size b) \<Longrightarrow>
     fine_step wq G \<phi> (\<phi>\<lparr>pending :=
       (pending \<phi>)(Writer w \<mapsto> Publishing data (publish_stores (wrapper_data b) data))\<rparr>)"
| start_aborting:
    "pending \<phi> (Writer w) = None \<Longrightarrow> threads \<phi> w = Some (Holding b) \<Longrightarrow>
     fine_step wq G \<phi> (\<phi>\<lparr>pending := (pending \<phi>)(Writer w \<mapsto> Aborting
       (abort_stores (wrapper_data b) (unat (hdr_message_size (ring (seg \<phi>)) (wrapper_data b)))))\<rparr>)"
| store:
    "pending \<phi> ag = Some p \<Longrightarrow> todo p = st # sts \<Longrightarrow> sts \<noteq> [] \<Longrightarrow>
     fine_step wq G \<phi> (\<phi>\<lparr>seg := exec_store st (seg \<phi>),
       pending := (pending \<phi>)(ag \<mapsto> with_todo sts p)\<rparr>)"
| placed:
    "pending \<phi> (Writer w) = Some (Placing b [st]) \<Longrightarrow>
     fine_step wq G \<phi> (\<phi>\<lparr>seg := exec_store st (seg \<phi>),
       threads := (threads \<phi>)(w := map_option Holding b),
       pending := (pending \<phi>)(Writer w := None)\<rparr>)"
| published:
    "pending \<phi> (Writer w) = Some (Publishing data [st]) \<Longrightarrow> threads \<phi> w = Some (Holding b) \<Longrightarrow>
     fine_step wq G \<phi> (\<phi>\<lparr>seg := exec_store st (seg \<phi>), threads := (threads \<phi>)(w := None),
       sent := (sent \<phi>)(claimed_at (seg \<phi>) b \<mapsto> payload_after_write (seg \<phi>) b data),
       pending := (pending \<phi>)(Writer w := None)\<rparr>)"
| aborted:
    "pending \<phi> (Writer w) = Some (Aborting [st]) \<Longrightarrow> threads \<phi> w = Some (Holding b) \<Longrightarrow>
     fine_step wq G \<phi> (\<phi>\<lparr>seg := exec_store st (seg \<phi>), threads := (threads \<phi>)(w := None),
       dropped := insert (claimed_at (seg \<phi>) b) (dropped \<phi>),
       pending := (pending \<phi>)(Writer w := None)\<rparr>)"
| join:
    "open_readers \<phi> r = None \<Longrightarrow> held \<phi> r = None \<Longrightarrow> card (dom (open_readers \<phi>)) < 255 \<Longrightarrow>
     seg_hi (seg \<phi>) \<le> seg_lo (seg \<phi>) + q_cap wq \<Longrightarrow>
     modify_readers True (seg \<phi>) = (s', wr) \<Longrightarrow>
     fine_step wq G \<phi> (\<phi>\<lparr>seg := s',
       open_readers := (open_readers \<phi>)(r \<mapsto> joined_reader wq q0 wr),
       received := (received \<phi>)(r := []),
       joined := (joined \<phi>)(r := seg_hi (seg \<phi>))\<rparr>)"
| load_flag:
    "pending \<phi> (Reader r) = None \<Longrightarrow> open_readers \<phi> r = Some q \<Longrightarrow> held \<phi> r = None \<Longrightarrow>
     \<not> is_writer q \<Longrightarrow> poll_flag q (seg \<phi>) = Some READY_FOR_CONSUMER \<Longrightarrow>
     reader_at q < seg_lo (seg \<phi>) + q_cap wq \<Longrightarrow>
     fine_step wq G \<phi> (\<phi>\<lparr>pending := (pending \<phi>)(Reader r \<mapsto> Flag_Loaded)\<rparr>)"
| load_aborted:
    "pending \<phi> (Reader r) = None \<Longrightarrow> open_readers \<phi> r = Some q \<Longrightarrow> held \<phi> r = None \<Longrightarrow>
     \<not> is_writer q \<Longrightarrow> poll_flag q (seg \<phi>) = Some ABORTED \<Longrightarrow>
     reader_at q < seg_lo (seg \<phi>) + q_cap wq \<Longrightarrow>
     fine_step wq G \<phi> (\<phi>\<lparr>pending := (pending \<phi>)(Reader r \<mapsto> Abort_Loaded)\<rparr>)"
| take_message:
    "pending \<phi> (Reader r) = Some Flag_Loaded \<Longrightarrow> open_readers \<phi> r = Some q \<Longrightarrow>
     poll_ready q (seg \<phi>) = Inr (Ready_Message wr) \<Longrightarrow>
     fine_step wq G \<phi> (\<phi>\<lparr>
       open_readers := (open_readers \<phi>)(r \<mapsto> q\<lparr>read_message_cnt := read_message_cnt q + 1\<rparr>),
       held := (held \<phi>)(r \<mapsto> wr), pending := (pending \<phi>)(Reader r := None)\<rparr>)"
| take_nothing:
    "pending \<phi> (Reader r) = Some Flag_Loaded \<Longrightarrow> open_readers \<phi> r = Some q \<Longrightarrow>
     poll_ready q (seg \<phi>) = Inr Ready_Stale \<Longrightarrow>
     fine_step wq G \<phi> (\<phi>\<lparr>pending := (pending \<phi>)(Reader r := None)\<rparr>)"
| count_release:
    "about_to_release \<phi> r q a vs \<Longrightarrow> release_start q (seg \<phi>) a = Inr (q', s', []) \<Longrightarrow>
     fine_step wq G \<phi> (\<phi>\<lparr>seg := s', open_readers := (open_readers \<phi>)(r \<mapsto> q'),
       held := (held \<phi>)(r := None), received := (received \<phi>)(r := received \<phi> r @ vs),
       pending := (pending \<phi>)(Reader r := None)\<rparr>)"
| start_clearing:
    "about_to_release \<phi> r q a vs \<Longrightarrow> release_start q (seg \<phi>) a = Inr (q', s', sts) \<Longrightarrow> sts \<noteq> [] \<Longrightarrow>
     fine_step wq G \<phi> (\<phi>\<lparr>seg := s', pending := (pending \<phi>)(Reader r \<mapsto> Releasing q' vs sts)\<rparr>)"
| cleared:
    "pending \<phi> (Reader r) = Some (Releasing q' vs [st]) \<Longrightarrow>
     release_finish q' (seg \<phi>) [st] = Inr (q'', s') \<Longrightarrow>
     fine_step wq G \<phi> (\<phi>\<lparr>seg := s', open_readers := (open_readers \<phi>)(r \<mapsto> q''),
       held := (held \<phi>)(r := None), received := (received \<phi>)(r := received \<phi> r @ vs),
       pending := (pending \<phi>)(Reader r := None)\<rparr>)"
| leave:
    "pending \<phi> = Map.empty \<Longrightarrow> open_readers \<phi> r = Some q \<Longrightarrow> held \<phi> r = None \<Longrightarrow>
     threads \<phi> = Map.empty \<Longrightarrow> seg_hi (seg \<phi>) < seg_lo (seg \<phi>) + q_cap wq \<Longrightarrow>
     \<forall>x\<in>dropped \<phi>. x < reader_at q \<Longrightarrow>
     modify_readers False (seg \<phi>) = (s0, wr) \<Longrightarrow>
     decrement_readers_until n q s0 (write_offset wr) = Some (Inr (q', s')) \<Longrightarrow>
     fine_step wq G \<phi> (\<phi>\<lparr>seg := s', open_readers := (open_readers \<phi>)(r := None)\<rparr>)"
| writer_opens:
    "fine_step wq G \<phi> (\<phi>\<lparr>seg := set_writers (writers_of (seg \<phi>) + 1) (seg \<phi>)\<rparr>)"
| writer_closes:
    "fine_step wq G \<phi> (\<phi>\<lparr>seg := set_writers (writers_of (seg \<phi>) - 1) (seg \<phi>)\<rparr>)"

text \<open>
  A poll that returns nothing changes nothing and is no step; in particular the poll of a reader
  one ring's size ahead is one atomic step that returns nothing.
\<close>

definition fine_init :: "IpcQueue \<Rightarrow> nat set \<Rightarrow> Fine \<Rightarrow> bool" where
  "fine_init wq G \<phi> \<longleftrightarrow> sane_queue wq \<and> is_writer wq \<and> spaced G \<and>
     seg \<phi> = init_new_file wq \<and> open_readers \<phi> = Map.empty \<and> held \<phi> = Map.empty \<and>
     threads \<phi> = Map.empty \<and> sent \<phi> = Map.empty \<and> dropped \<phi> = {} \<and> pending \<phi> = Map.empty"

section \<open>Which bytes an operation owns\<close>

text \<open>
  A writer owns the bytes it has reserved once its wait is over, a reader the message it stands at.
  The span of an agent is read off the state of the atomic machine.
\<close>

definition span_of :: "IpcQueue \<Rightarrow> Sys \<Rightarrow> Agent \<Rightarrow> nat \<times> nat" where
  "span_of wq \<sigma> ag =
     (case ag of
        Writer w \<Rightarrow>
          (case threads \<sigma> w of
             Some (Waiting sz t) \<Rightarrow> (ticket_start t mod q_cap wq, ticket_end t - ticket_start t)
           | Some (Holding b) \<Rightarrow> (wrapper_data b, unat (wrapper_size b))
           | None \<Rightarrow> (0, 0))
      | Reader r \<Rightarrow>
          (case open_readers \<sigma> r of
             Some q \<Rightarrow> (read_place q, unat (msg_total (ring (seg \<sigma>)) (read_place q)))
           | None \<Rightarrow> (0, 0)))"

definition in_span :: "nat \<times> nat \<Rightarrow> nat \<Rightarrow> bool" where
  "in_span sp i \<longleftrightarrow> fst sp \<le> i \<and> i < fst sp + snd sp"

text \<open>A reader stands at a message, or a skip message, that is committed, or at an aborted one.\<close>

definition message_ready :: "IpcQueue \<Rightarrow> mem \<Rightarrow> bool" where
  "message_ready q m \<longleftrightarrow>
     hdr_commit_flag m (read_place q) \<in> {1, 2} \<and> hdr_abs_offset m (read_place q) = abs_read_offset q"

text \<open>It holds the message, whose payload is \<open>vs\<close>, or the message is padding or aborted.\<close>

definition releases :: "Sys \<Rightarrow> nat \<Rightarrow> IpcQueue \<Rightarrow> u8 list list \<Rightarrow> bool" where
  "releases \<sigma> r q vs \<longleftrightarrow>
     (case held \<sigma> r of
        Some wr \<Rightarrow> wrapper_data wr = read_place q \<and>
          unat (wrapper_size wr) = unat (msg_total (ring (seg \<sigma>)) (read_place q)) \<and>
          vs = [get_as_view (seg \<sigma>) wr]
      | None \<Rightarrow> (hdr_commit_flag (ring (seg \<sigma>)) (read_place q) = 1 \<longrightarrow>
            hdr_type (ring (seg \<sigma>)) (read_place q) = message_type_value PADDING) \<and> vs = [])"

text \<open>
  What the atomic state says about an operation in progress, given the list of all its stores,
  those it has executed included.
\<close>

fun pend_ok :: "IpcQueue \<Rightarrow> Sys \<Rightarrow> Agent \<Rightarrow> Pending \<Rightarrow> Store list \<Rightarrow> bool" where
  "pend_ok wq \<sigma> (Writer w) (Placing b sts) full \<longleftrightarrow>
     (\<exists>sz t. threads \<sigma> w = Some (Waiting sz t) \<and> \<not> must_wait wq (seg \<sigma>) t \<and>
        place_start wq sz t = Inr (b, full))"
| "pend_ok wq \<sigma> (Writer w) (Publishing data sts) full \<longleftrightarrow>
     (\<exists>b. threads \<sigma> w = Some (Holding b) \<and>
        length data + unat sizeof_MessageHeader \<le> unat (wrapper_size b) \<and>
        full = publish_stores (wrapper_data b) data)"
| "pend_ok wq \<sigma> (Writer w) (Aborting sts) full \<longleftrightarrow>
     (\<exists>b. threads \<sigma> w = Some (Holding b) \<and>
        full = abort_stores (wrapper_data b) (unat (hdr_message_size (ring (seg \<sigma>)) (wrapper_data b))))"
| "pend_ok wq \<sigma> (Reader r) (Releasing q1 vs sts) full \<longleftrightarrow>
     (\<exists>q. open_readers \<sigma> r = Some q \<and> message_ready q (ring (seg \<sigma>)) \<and>
        hdr_num_readers (ring (seg \<sigma>)) (read_place q) = 1 \<and>
        q1 = after_release (read_place q) q (seg \<sigma>) \<and>
        full = Store_Readers (read_place q) 0 # clear_stores (read_place q)
          (unat (hdr_message_size (ring (seg \<sigma>)) (read_place q)))
          (msg_total (ring (seg \<sigma>)) (read_place q)) \<and>
        releases \<sigma> r q vs)"
| "pend_ok wq \<sigma> (Reader r) Flag_Loaded full \<longleftrightarrow>
     (\<exists>q. open_readers \<sigma> r = Some q \<and> held \<sigma> r = None \<and> message_ready q (ring (seg \<sigma>)) \<and>
        hdr_commit_flag (ring (seg \<sigma>)) (read_place q) = 1 \<and> full = [])"
| "pend_ok wq \<sigma> (Reader r) Abort_Loaded full \<longleftrightarrow>
     (\<exists>q. open_readers \<sigma> r = Some q \<and> held \<sigma> r = None \<and> message_ready q (ring (seg \<sigma>)) \<and>
        hdr_commit_flag (ring (seg \<sigma>)) (read_place q) = 2 \<and> full = [])"
| "pend_ok wq \<sigma> _ _ full \<longleftrightarrow> False"

end
