(* ===== verification/Ipc_Fine_Refinement.thy ===== *)
theory Ipc_Fine_Refinement
  imports Ipc_Fine_Grained
begin

text \<open>
  The machine of \<open>Ipc_Fine_Grained\<close> simulates the atomic operations of \<open>Ipc_System\<close>. Inside the
  span of an operation in progress the ring is the ring of the atomic state with the executed
  stores applied, elsewhere the two rings agree; the spans of different operations are disjoint.
\<close>

section \<open>The bytes that the stores of an operation write\<close>

lemma header_stores_write:
  "st \<in> set (header_stores a off sz ty n) \<Longrightarrow> writes st i \<Longrightarrow> a \<le> i \<and> i < a + 17"
  by (auto simp: header_stores_def writes_def)

lemma fill_stores_write:
  "st \<in> set (fill_stores a b n) \<Longrightarrow> writes st i \<Longrightarrow> a \<le> i \<and> i < a + n"
  "st \<in> set (fill_stores a b n) \<Longrightarrow> writes st i \<Longrightarrow> store_mem st m i = b"
  by (auto simp: fill_stores_def writes_def)

lemma copy_stores_write:
  "st \<in> set (copy_stores a bs) \<Longrightarrow> writes st i \<Longrightarrow> a \<le> i \<and> i < a + length bs"
  by (induction a bs rule: copy_stores.induct) (auto simp: writes_def)

lemma flag_store_write: "writes (Store_Flag a f) i \<longleftrightarrow> i = a + 17"
  by (auto simp: writes_def)

lemma no_ring_write [simp]:
  "\<not> writes (Store_Last_Cleared a) i" "\<not> writes Count_Message i" "\<not> writes (Bump_Read_Offset n) i"
  by (simp_all add: writes_def)

lemma clear_stores_write:
  assumes "st \<in> set (clear_stores a len n)" "writes st i"
  shows "a + 8 \<le> i \<and> i < a + 18 + len"
proof (cases "st \<in> set (fill_stores (a + 18) 0 len)")
  case True
  from fill_stores_write(1) [OF this assms(2)] show ?thesis by simp
next
  case False
  with assms show ?thesis by (auto simp: clear_stores_def writes_def)
qed

lemma place_stores_write:
  "st \<in> set (place_stores a off sz n) \<Longrightarrow> writes st i \<Longrightarrow> a \<le> i \<and> i < a + 17"
  using header_stores_write by (fastforce simp: place_stores_def)

lemma publish_stores_write:
  "st \<in> set (publish_stores a data) \<Longrightarrow> writes st i \<Longrightarrow> a + 17 \<le> i \<and> i < a + 18 + length data"
  using copy_stores_write [of st "a + 18" data i]
  by (auto simp: publish_stores_def flag_store_write)

lemma abort_stores_write:
  "st \<in> set (abort_stores a len) \<Longrightarrow> writes st i \<Longrightarrow> a + 17 \<le> i \<and> i < a + 18 + len"
  using fill_stores_write(1) [of st "a + 18" 0 len i]
  by (auto simp: abort_stores_def flag_store_write)

lemma skip_stores_write:
  "st \<in> set (skip_stores a off pad n) \<Longrightarrow> writes st i \<Longrightarrow>
     a \<le> i \<and> i < a + 18 \<or> a + 324 \<le> i \<and> i < a + 324 + unat pad \<and> store_mem st m i = 0"
  using header_stores_write [of st a off pad PADDING n i]
    fill_stores_write [of st "a + 324" 0 "unat pad" i]
  by (auto simp: skip_stores_def flag_store_write skip_payload_def)

text \<open>Only the last store of a writer sets the flag.\<close>

lemma writer_flag_last:
  "xs @ ys = place_stores a off sz n \<Longrightarrow> st \<in> set xs \<Longrightarrow> \<not> writes st (a + 17)"
  "xs @ ys = skip_stores a off pad n \<Longrightarrow> ys \<noteq> [] \<Longrightarrow> st \<in> set xs \<Longrightarrow> \<not> writes st (a + 17)"
  "xs @ ys = publish_stores a data \<Longrightarrow> ys \<noteq> [] \<Longrightarrow> st \<in> set xs \<Longrightarrow> \<not> writes st (a + 17)"
  "xs @ ys = abort_stores a len \<Longrightarrow> ys \<noteq> [] \<Longrightarrow> st \<in> set xs \<Longrightarrow> \<not> writes st (a + 17)"
proof -
  show "xs @ ys = place_stores a off sz n \<Longrightarrow> st \<in> set xs \<Longrightarrow> \<not> writes st (a + 17)"
    using place_stores_write [of st a off sz n "a + 17"] by (metis UnI1 less_irrefl set_append)
  have sub: "set xs \<subseteq> set zs" if "xs @ ys = zs @ [z]" "ys \<noteq> []" for zs and z :: Store
    using that by (metis append_butlast_last_id append_eq_append_conv2 append_same_eq butlast_append
        set_append sup_ge1 butlast_snoc)
  show "\<not> writes st (a + 17)" if "xs @ ys = skip_stores a off pad n" "ys \<noteq> []" "st \<in> set xs"
    using sub [OF that(1) [unfolded skip_stores_def append_assoc [symmetric]] that(2)] that(3)
      header_stores_write [of st a off pad PADDING n "a + 17"]
      fill_stores_write(1) [of st "a + 324" 0 "unat pad" "a + 17"]
    by (auto simp: skip_payload_def)
  show "\<not> writes st (a + 17)" if "xs @ ys = publish_stores a data" "ys \<noteq> []" "st \<in> set xs"
    using sub [OF that(1) [unfolded publish_stores_def] that(2)] that(3)
      copy_stores_write [of st "a + 18" data "a + 17"] by auto
  show "\<not> writes st (a + 17)" if "xs @ ys = abort_stores a len" "ys \<noteq> []" "st \<in> set xs"
    using sub [OF that(1) [unfolded abort_stores_def] that(2)] that(3)
      fill_stores_write(1) [of st "a + 18" 0 len "a + 17"] by auto
qed

section \<open>The entry behind an operation in progress\<close>

lemma read_place_at:
  assumes "refines wq G \<sigma> A" "open_readers \<sigma> r = Some q"
  shows "read_place q = reader_at q mod q_cap wq"
  using reader_facts(5) [OF assms] by (simp add: read_place_def)

lemma ready_entry:
  assumes R: "refines wq G \<sigma> A" and q: "open_readers \<sigma> r = Some q"
    and ready: "message_ready q (ring (seg \<sigma>))"
  obtains e where "e \<in> set (s_log A)" "e_start e = reader_at q" "final_state (e_state e)" "live A e"
    "live_ok (q_cap wq) (ring (seg \<sigma>)) (card (behind A (e_start e))) e"
    "read_place q = e_start e mod q_cap wq"
proof -
  have "unat (hdr_abs_offset (ring (seg \<sigma>)) (reader_at q mod q_cap wq)) = reader_at q"
    "hdr_commit_flag (ring (seg \<sigma>)) (reader_at q mod q_cap wq) \<noteq> 0"
    using ready by (auto simp: message_ready_def read_place_at [OF R q] reader_at_def)
  then have "\<not> (\<forall>e\<in>set (s_log A). e_start e = reader_at q \<longrightarrow> \<not> final_state (e_state e))"
    using flag_at_reader [OF R q] by (metis ready message_ready_def read_place_at [OF R q])
  then obtain e where
    e: "e \<in> set (s_log A)" "e_start e = reader_at q" "final_state (e_state e)" by blast
  then have "e_state e \<noteq> Reserved_Entry" by auto
  with that e live_at_reader [OF R q e(1,2)] read_place_at [OF R q] show ?thesis by simp
qed

lemma polling_reader:
  "pend_ok wq \<sigma> ag p full \<Longrightarrow> polling p \<Longrightarrow>
   \<exists>r q. ag = Reader r \<and> open_readers \<sigma> r = Some q \<and> held \<sigma> r = None \<and> message_ready q (ring (seg \<sigma>))"
  by (cases ag; cases p) auto

definition owns :: "Spec \<Rightarrow> Agent \<Rightarrow> Entry \<Rightarrow> bool" where
  "owns A ag e \<longleftrightarrow>
     (case ag of
        Writer w \<Rightarrow> s_owner A w = Some (e_start e) \<and> \<not> final_state (e_state e)
      | Reader r \<Rightarrow> s_pos A r = Some (e_start e) \<and> final_state (e_state e) \<and> last_at A r (e_start e))"

lemma owners_differ:
  assumes "spec_inv c A" "owns A ag e" "owns A ag' e'" "ag \<noteq> ag'"
  shows "e \<noteq> e'"
  using assms by (cases ag; cases ag')
    (auto simp: owns_def spec_inv_def spec_owner_ok_def last_at_def)

lemma place_start_cases:
  assumes R: "refines wq G \<sigma> A" and th: "threads \<sigma> w = Some (Waiting sz t)"
    "\<not> must_wait wq (seg \<sigma>) t" and start: "place_start wq sz t = Inr (b, full)"
  obtains (fits) "full = place_stores (ticket_start t mod q_cap wq) (write_offset (claimed_word t)) sz
       (num_readers (claimed_word t))"
       "b = Some \<lparr>wrapper_data = ticket_start t mod q_cap wq, wrapper_size = sz + sizeof_MessageHeader\<rparr>"
  | (pads) pad where "full = skip_stores (ticket_start t mod q_cap wq) (write_offset (claimed_word t)) pad
       (num_readers (claimed_word t))" "b = None"
       "ticket_end t = ticket_start t + (q_cap wq - ticket_start t mod q_cap wq)"
proof -
  have sane: "sane_queue wq" using R by (simp add: refines_def rel_offsets_def)
  obtain e where e: "e_start e = ticket_start t" "ticket_end t = e_end e"
    "e_len e = region_len (q_cap wq) (e_start e) (unat sz + 18)" "unat sz < 2 ^ 31"
    using waiting_entry [OF R th] by metis
  have place: "unat (write_offset (claimed_word t) mod available_queue_size_bytes wq)
      = ticket_start t mod q_cap wq"
    by (simp add: unat_mod_u64 q_cap_def ticket_start_def)
  note guard = place_claim_guard [OF sane e(4), of "write_offset (claimed_word t)"]
  show ?thesis
  proof (cases "claim_fits (q_cap wq) (ticket_start t) (unat sz)")
    case True
    then show ?thesis
      using start guard fits
      by (simp add: place_start_def Let_def ticket_start_def place [unfolded ticket_start_def])
  next
    case False
    then have "ticket_end t = ticket_start t + (q_cap wq - ticket_start t mod q_cap wq)"
      using e by (simp add: e_end_def region_len_not_fits)
    with False show ?thesis
      using start guard pads
      by (auto simp: place_start_def Let_def ticket_start_def place [unfolded ticket_start_def]
          bindE_eq_Inr)
  qed
qed

text \<open>The header of a buffer that is handed out has its size.\<close>

lemma claimed_size:
  assumes R: "refines wq G \<sigma> A" and th: "threads \<sigma> w = Some (Holding b)"
  shows "unat (hdr_message_size (ring (seg \<sigma>)) (wrapper_data b)) + 18 = unat (wrapper_size b)"
    "18 \<le> unat (wrapper_size b)"
proof -
  from holding_entry [OF R th] obtain e where e: "live A e" "wrapper_data b = e_start e mod q_cap wq"
    "unat (wrapper_size b) = e_len e" by blast
  moreover have "live_ok (q_cap wq) (ring (seg \<sigma>)) (card (behind A (e_start e))) e"
    using R e(1) by (simp add: refines_def rel_mem_def)
  ultimately show "unat (hdr_message_size (ring (seg \<sigma>)) (wrapper_data b)) + 18 = unat (wrapper_size b)"
    by (simp add: live_ok_def Let_def)
  then show "18 \<le> unat (wrapper_size b)" by simp
qed

text \<open>An operation that stores owns an entry in the window, and its span is the entry's region.\<close>

definition in_window :: "nat \<Rightarrow> Spec \<Rightarrow> Entry \<Rightarrow> bool" where
  "in_window c A e \<longleftrightarrow> e \<in> set (s_log A) \<and> s_lo A \<le> e_start e \<and> e_end e \<le> s_lo A + c"

lemma windows_apart:
  assumes "spec_inv c A" "in_window c A e" "in_window c A f" "e \<noteq> f"
  shows "\<not> (in_region c e i \<and> in_region c f i)"
  using assms regions_apart [OF assms(1), of e f i] by (auto simp: in_window_def)

lemma live_in_window: "spec_inv c A \<Longrightarrow> live A e \<Longrightarrow> in_window c A e"
  using live_window [of c A e] by (simp add: in_window_def)

lemma in_region_less: "spec_inv c A \<Longrightarrow> in_window c A e \<Longrightarrow> in_region c e i \<Longrightarrow> i < c"
  using spec_log_facts(2) [of c A e] by (simp add: in_window_def in_region_def)

lemma pend_entry:
  assumes R: "refines wq G \<sigma> A" and p: "pend_ok wq \<sigma> ag p full" "\<not> polling p"
  obtains e where "in_window (q_cap wq) A e" "owns A ag e"
    "span_of wq \<sigma> ag = (e_start e mod q_cap wq, e_len e)"
proof -
  have inv: "spec_inv (q_cap wq) A" and rt: "rel_threads wq \<sigma> A" and rd: "rel_readers wq \<sigma> A"
    using R by (simp_all add: refines_def)
  consider (place) w b sts where "ag = Writer w" "p = Placing b sts"
    | (publish) w b where "ag = Writer w" "threads \<sigma> w = Some (Holding b)"
    | (release) r q1 vs sts where "ag = Reader r" "p = Releasing q1 vs sts"
    using p by (cases ag; cases p) auto
  then show ?thesis
  proof cases
    case (place w b sts)
    then obtain sz t where th: "threads \<sigma> w = Some (Waiting sz t)" "\<not> must_wait wq (seg \<sigma>) t"
      using p(1) by auto
    from waiting_entry [OF R th] obtain e where e: "s_owner A w = Some (e_start e)"
      "e \<in> set (s_log A)" "e_state e = Reserved_Entry" "e_start e = ticket_start t"
      "e_end e \<le> s_lo A + q_cap wq" "ticket_end t = e_end e" by metis
    then have st: "\<not> final_state (e_state e)" by simp
    show ?thesis
    proof (rule that [of e])
      show "in_window (q_cap wq) A e"
        using e nonfinal_ahead(1) [OF inv e(2) st] by (simp add: in_window_def)
      show "owns A ag e" using place e st by (simp add: owns_def)
      show "span_of wq \<sigma> ag = (e_start e mod q_cap wq, e_len e)"
        using place th e(4) by (simp add: span_of_def e(6)) (simp add: e_end_def)
    qed
  next
    case (publish w b)
    from holding_entry [OF R publish(2)] obtain e where e: "s_owner A w = Some (e_start e)" "live A e"
      "e_state e = Claimed_Entry" "wrapper_data b = e_start e mod q_cap wq"
      "unat (wrapper_size b) = e_len e" by blast
    show ?thesis
    proof (rule that [of e])
      show "in_window (q_cap wq) A e" by (rule live_in_window [OF inv e(2)])
      show "owns A ag e" using publish e by (simp add: owns_def)
      show "span_of wq \<sigma> ag = (e_start e mod q_cap wq, e_len e)"
        using publish e by (simp add: span_of_def)
    qed
  next
    case (release r q1 vs sts)
    then obtain q where q: "open_readers \<sigma> r = Some q" "message_ready q (ring (seg \<sigma>))"
      "hdr_num_readers (ring (seg \<sigma>)) (read_place q) = 1" using p(1) by auto
    from ready_entry [OF R q(1,2)] obtain e where e: "e \<in> set (s_log A)" "e_start e = reader_at q"
      "final_state (e_state e)" "live A e" "read_place q = e_start e mod q_cap wq"
      "live_ok (q_cap wq) (ring (seg \<sigma>)) (card (behind A (e_start e))) e" .
    have pos: "s_pos A r = Some (e_start e)" using reader_facts(1) [OF R q(1)] e(2) by simp
    have "card (behind A (e_start e)) = 1"
      using e(5,6) q(3) by (simp add: live_ok_def Let_def)
    then have "last_at A r (e_start e)"
      using last_at_behind [OF pos behind_finite(1) [OF rd]] by simp
    then show ?thesis
      using that [of e] live_in_window [OF inv e(4)] release pos e q(1)
      by (simp add: owns_def span_of_def live_ok_def Let_def)
  qed
qed

lemma in_span_region:
  "sp = (e_start e mod c, e_len e) \<Longrightarrow> in_span sp i \<longleftrightarrow> in_region c e i"
  by (simp add: in_span_def in_region_def)

text \<open>Its stores write into the span, but for the zeros of a skip message past the ring.\<close>

lemma stores_in_span:
  assumes R: "refines wq G \<sigma> A" and p: "pend_ok wq \<sigma> ag p full" "\<not> polling p"
    and st: "st \<in> set full" "writes st i"
  shows "in_span (span_of wq \<sigma> ag) i \<or> q_cap wq \<le> i \<and> store_mem st m i = 0"
proof -
  have inv: "spec_inv (q_cap wq) A" using R by (simp_all add: refines_def)
  obtain e where e: "in_window (q_cap wq) A e"
    and sp: "span_of wq \<sigma> ag = (e_start e mod q_cap wq, e_len e)"
    using pend_entry [OF R p] by metis
  have len: "18 \<le> e_len e" using spec_log_facts(1) [OF inv] e by (simp add: in_window_def)
  consider (place) w b sts where "ag = Writer w" "p = Placing b sts"
    | (publish) w data sts where "ag = Writer w" "p = Publishing data sts"
    | (abort) w sts where "ag = Writer w" "p = Aborting sts"
    | (release) r q1 vs sts where "ag = Reader r" "p = Releasing q1 vs sts"
    using p by (cases ag; cases p) auto
  then show ?thesis
  proof cases
    case (place w b sts)
    then obtain sz t where th: "threads \<sigma> w = Some (Waiting sz t)" "\<not> must_wait wq (seg \<sigma>) t"
      and start: "place_start wq sz t = Inr (b, full)"
      using p(1) by auto
    have a: "span_of wq \<sigma> ag = (ticket_start t mod q_cap wq, ticket_end t - ticket_start t)"
      using place th by (simp add: span_of_def)
    from R th start show ?thesis
    proof (cases rule: place_start_cases)
      case fits
      with place_stores_write st len a sp show ?thesis by (fastforce simp: in_span_def)
    next
      case (pads pad)
      have c: "0 < q_cap wq" using R by (simp add: refines_def rel_offsets_def sane_queue_def)
      with skip_stores_write [OF st [unfolded pads(1)], of m] pads(3) len a sp
      show ?thesis by (auto simp: in_span_def mod_room)
    qed
  next
    case (publish w data sts)
    with p(1) st publish_stores_write [of st _ data i] show ?thesis
      by (fastforce simp: span_of_def in_span_def)
  next
    case (abort w sts)
    then obtain b where th: "threads \<sigma> w = Some (Holding b)"
      and full: "full = abort_stores (wrapper_data b) (unat (hdr_message_size (ring (seg \<sigma>)) (wrapper_data b)))"
      using p(1) by auto
    have "unat (hdr_message_size (ring (seg \<sigma>)) (wrapper_data b)) + 18 = unat (wrapper_size b)"
      by (rule claimed_size [OF R th])
    with abort_stores_write [OF st(1) [unfolded full] st(2)] abort th show ?thesis
      by (simp add: span_of_def in_span_def)
  next
    case (release r q1 vs sts)
    then obtain q where q: "open_readers \<sigma> r = Some q"
      and full: "full = Store_Readers (read_place q) 0 # clear_stores (read_place q)
          (unat (hdr_message_size (ring (seg \<sigma>)) (read_place q)))
          (msg_total (ring (seg \<sigma>)) (read_place q))"
      using p(1) by auto
    have "in_span (read_place q, unat (hdr_message_size (ring (seg \<sigma>)) (read_place q)) + 18) i"
    proof (cases "st = Store_Readers (read_place q) 0")
      case True
      with st(2) show ?thesis by (simp add: writes_def in_span_def)
    next
      case False
      with st full clear_stores_write [of st] show ?thesis by (fastforce simp: in_span_def)
    qed
    with release q show ?thesis by (simp add: span_of_def)
  qed
qed

section \<open>The simulation relation\<close>

definition storing :: "Fine \<Rightarrow> Agent \<Rightarrow> bool" where
  "storing \<phi> ag \<longleftrightarrow> (\<exists>p. pending \<phi> ag = Some p \<and> \<not> polling p)"

definition same_fields :: "Fine \<Rightarrow> Sys \<Rightarrow> bool" where
  "same_fields \<phi> \<sigma> \<longleftrightarrow>
     packed_of (seg \<phi>) = packed_of (seg \<sigma>) \<and> read_offset_of (seg \<phi>) = read_offset_of (seg \<sigma>) \<and>
     count_of (seg \<phi>) = count_of (seg \<sigma>) \<and> writers_of (seg \<phi>) = writers_of (seg \<sigma>) \<and>
     open_readers \<phi> = open_readers \<sigma> \<and> held \<phi> = held \<sigma> \<and> threads \<phi> = threads \<sigma> \<and>
     received \<phi> = received \<sigma> \<and> joined \<phi> = joined \<sigma> \<and> sent \<phi> = sent \<sigma> \<and>
     dropped \<phi> = dropped \<sigma>"

definition pend_rel :: "IpcQueue \<Rightarrow> Fine \<Rightarrow> Sys \<Rightarrow> Agent \<Rightarrow> Pending \<Rightarrow> bool" where
  "pend_rel wq \<phi> \<sigma> ag p \<longleftrightarrow>
     (\<exists>full ex. pend_ok wq \<sigma> ag p full \<and> full = ex @ todo p \<and>
        (\<not> polling p \<longrightarrow> todo p \<noteq> [] \<and>
           (\<forall>i. in_span (span_of wq \<sigma> ag) i \<longrightarrow> ring (seg \<phi>) i = stores_mem ex (ring (seg \<sigma>)) i)))"

definition ring_rel :: "IpcQueue \<Rightarrow> Fine \<Rightarrow> Sys \<Rightarrow> bool" where
  "ring_rel wq \<phi> \<sigma> \<longleftrightarrow>
     (\<forall>i<q_cap wq. (\<forall>ag. storing \<phi> ag \<longrightarrow> \<not> in_span (span_of wq \<sigma> ag) i) \<longrightarrow>
        ring (seg \<phi>) i = ring (seg \<sigma>) i) \<and>
     (\<forall>i\<ge>q_cap wq. ring (seg \<phi>) i = 0)"

definition rel_fine :: "IpcQueue \<Rightarrow> nat set \<Rightarrow> Fine \<Rightarrow> Sys \<Rightarrow> bool" where
  "rel_fine wq G \<phi> \<sigma> \<longleftrightarrow>
     reachable wq G \<sigma> \<and> same_fields \<phi> \<sigma> \<and>
     (\<forall>ag p. pending \<phi> ag = Some p \<longrightarrow> pend_rel wq \<phi> \<sigma> ag p) \<and> ring_rel wq \<phi> \<sigma>"

subsection \<open>What an operation in progress relies on\<close>

definition relies :: "IpcQueue \<Rightarrow> Sys \<Rightarrow> Agent \<Rightarrow> Pending \<Rightarrow> nat \<Rightarrow> bool" where
  "relies wq \<sigma> ag p i \<longleftrightarrow>
     (if polling p then
        \<exists>r q. ag = Reader r \<and> open_readers \<sigma> r = Some q \<and>
          (read_place q \<le> i \<and> i < read_place q + 8 \<or> i = read_place q + 17)
      else in_span (span_of wq \<sigma> ag) i)"

definition same_agent :: "Sys \<Rightarrow> Sys \<Rightarrow> Agent \<Rightarrow> bool" where
  "same_agent \<sigma> \<sigma>' ag \<longleftrightarrow>
     (case ag of
        Writer w \<Rightarrow> threads \<sigma>' w = threads \<sigma> w
      | Reader r \<Rightarrow> open_readers \<sigma>' r = open_readers \<sigma> r \<and> held \<sigma>' r = held \<sigma> r)"

lemma message_ready_cong:
  assumes "\<And>i. read_place q \<le> i \<and> i < read_place q + 8 \<or> i = read_place q + 17 \<Longrightarrow> m' i = m i"
  shows "message_ready q m' = message_ready q m"
    "hdr_commit_flag m' (read_place q) = hdr_commit_flag m (read_place q)"
proof -
  show "hdr_commit_flag m' (read_place q) = hdr_commit_flag m (read_place q)"
    using assms [of "read_place q + 17"] by (simp add: hdr_commit_flag_def)
  have "load64 m' (read_place q) = load64 m (read_place q)"
    by (rule load64_cong) (simp add: assms)
  then show "message_ready q m' = message_ready q m" using assms [of "read_place q + 17"]
    by (simp add: message_ready_def hdr_abs_offset_def hdr_commit_flag_def)
qed

lemma get_as_view_cong:
  assumes "\<And>i. wrapper_data wr + 18 \<le> i \<Longrightarrow> i < wrapper_data wr + unat (wrapper_size wr) \<Longrightarrow>
      ring s' i = ring s i" "18 \<le> unat (wrapper_size wr)"
  shows "get_as_view s' wr = get_as_view s wr"
proof -
  have "unat (wrapper_size wr - sizeof_MessageHeader) = unat (wrapper_size wr) - 18"
    using assms(2) by (subst unat_sub_u64) simp_all
  then show ?thesis
    unfolding get_as_view_def using assms by (intro read_bytes_cong) simp
qed

text \<open>It goes on after a step of another agent that leaves these bytes alone.\<close>

lemma pend_ok_frame:
  assumes R: "refines wq G \<sigma> A" and p: "pend_ok wq \<sigma> ag p full"
    and agent: "same_agent \<sigma> \<sigma>' ag"
    and wait: "\<And>w sz t. threads \<sigma>' w = Some (Waiting sz t) \<Longrightarrow> \<not> must_wait wq (seg \<sigma>) t \<Longrightarrow>
      \<not> must_wait wq (seg \<sigma>') t"
    and bytes: "\<And>i. relies wq \<sigma> ag p i \<Longrightarrow> ring (seg \<sigma>') i = ring (seg \<sigma>) i"
  shows "pend_ok wq \<sigma>' ag p full" and "\<not> polling p \<Longrightarrow> span_of wq \<sigma>' ag = span_of wq \<sigma> ag"
proof -
  have "pend_ok wq \<sigma>' ag p full \<and> (\<not> polling p \<longrightarrow> span_of wq \<sigma>' ag = span_of wq \<sigma> ag)"
  proof (cases ag)
    case (Writer w)
    then have th: "threads \<sigma>' w = threads \<sigma> w" using agent by (simp add: same_agent_def)
    then have "span_of wq \<sigma>' ag = span_of wq \<sigma> ag" by (simp add: span_of_def Writer)
    moreover have "hdr_message_size (ring (seg \<sigma>')) (wrapper_data b)
        = hdr_message_size (ring (seg \<sigma>)) (wrapper_data b)"
      if b: "threads \<sigma> w = Some (Holding b)" "\<not> polling p" for b
    proof -
      have "ring (seg \<sigma>') i = ring (seg \<sigma>) i" if "wrapper_data b \<le> i" "i < wrapper_data b + 18" for i
        using bytes [of i] claimed_size(2) [OF R b(1)] that b Writer
        by (simp add: relies_def span_of_def in_span_def)
      with hdr_cong [of "wrapper_data b" "ring (seg \<sigma>')" "ring (seg \<sigma>)"] show ?thesis by simp
    qed
    then have "pend_ok wq \<sigma>' ag p full"
      using p th wait Writer by (cases p) auto
    ultimately show ?thesis by simp
  next
    case (Reader r)
    then have same: "open_readers \<sigma>' r = open_readers \<sigma> r" "held \<sigma>' r = held \<sigma> r"
      using agent by (simp_all add: same_agent_def)
    show ?thesis
    proof (cases "polling p")
      case True
      then obtain q where q: "open_readers \<sigma> r = Some q" using p Reader by (cases p) auto
      have "message_ready q (ring (seg \<sigma>')) = message_ready q (ring (seg \<sigma>))"
        "hdr_commit_flag (ring (seg \<sigma>')) (read_place q) = hdr_commit_flag (ring (seg \<sigma>)) (read_place q)"
        using bytes q True Reader
        by (intro message_ready_cong [of q "ring (seg \<sigma>')" "ring (seg \<sigma>)"]; auto simp: relies_def)+
      with p q same True Reader show ?thesis by (cases p) auto
    next
      case False
      then obtain q1 vs sts where pr: "p = Releasing q1 vs sts" using p Reader by (cases p) auto
      then obtain q where q: "open_readers \<sigma> r = Some q" using p Reader by auto
      obtain e where e: "in_window (q_cap wq) A e"
        and sp: "span_of wq \<sigma> ag = (e_start e mod q_cap wq, e_len e)"
        using pend_entry [OF R p False] by metis
      let ?a = "read_place q"
      have "span_of wq \<sigma> ag = (?a, unat (msg_total (ring (seg \<sigma>)) ?a))"
        using q Reader by (simp add: span_of_def)
      with sp have sp': "?a = e_start e mod q_cap wq" "unat (msg_total (ring (seg \<sigma>)) ?a) = e_len e"
        by (metis prod.inject)+
      have len: "18 \<le> e_len e"
        using spec_log_facts(1) [of "q_cap wq" A e] R e by (simp add: refines_def in_window_def)
      have eq: "ring (seg \<sigma>') i = ring (seg \<sigma>) i" if "?a \<le> i" "i < ?a + e_len e" for i
        using bytes [of i] that False sp sp' by (simp add: relies_def in_span_def)
      then have hdr: "hdr_abs_offset (ring (seg \<sigma>')) ?a = hdr_abs_offset (ring (seg \<sigma>)) ?a"
        "hdr_message_size (ring (seg \<sigma>')) ?a = hdr_message_size (ring (seg \<sigma>)) ?a"
        "hdr_type (ring (seg \<sigma>')) ?a = hdr_type (ring (seg \<sigma>)) ?a"
        "hdr_num_readers (ring (seg \<sigma>')) ?a = hdr_num_readers (ring (seg \<sigma>)) ?a"
        "hdr_commit_flag (ring (seg \<sigma>')) ?a = hdr_commit_flag (ring (seg \<sigma>)) ?a"
        using hdr_cong [of ?a "ring (seg \<sigma>')" "ring (seg \<sigma>)"] len by simp_all
      have tot: "msg_total (ring (seg \<sigma>')) ?a = msg_total (ring (seg \<sigma>)) ?a"
        by (simp add: msg_total_def hdr)
      then have rel: "after_release ?a q (seg \<sigma>') = after_release ?a q (seg \<sigma>)"
        by (simp add: after_release_def)
      have view: "get_as_view (seg \<sigma>') wr = get_as_view (seg \<sigma>) wr"
        if "wrapper_data wr = ?a" "unat (wrapper_size wr) = unat (msg_total (ring (seg \<sigma>)) ?a)" for wr
        using that sp'(2) len eq by (intro get_as_view_cong) simp_all
      have "pend_ok wq \<sigma>' ag p full"
        using p pr Reader q same hdr tot rel view
        by (auto simp: message_ready_def releases_def split: option.splits)
      moreover have "span_of wq \<sigma>' ag = span_of wq \<sigma> ag"
        using q same tot Reader by (simp add: span_of_def)
      ultimately show ?thesis by simp
    qed
  qed
  then show "pend_ok wq \<sigma>' ag p full" "\<not> polling p \<Longrightarrow> span_of wq \<sigma>' ag = span_of wq \<sigma> ag"
    by simp_all
qed

text \<open>Waiting ends once and for all: the watermark only grows.\<close>

lemma wait_over:
  assumes R': "refines wq G \<sigma>' A'" and th: "threads \<sigma>' w = Some (Waiting sz t)"
    and lo: "seg_lo (seg \<sigma>) \<le> seg_lo (seg \<sigma>')" and go: "\<not> must_wait wq (seg \<sigma>) t"
  shows "\<not> must_wait wq (seg \<sigma>') t"
proof -
  have inv: "spec_inv (q_cap wq) A'" and off: "rel_offsets wq G (seg \<sigma>') A'"
    and rt: "rel_threads wq \<sigma>' A'" using R' by (simp_all add: refines_def)
  obtain x where "rel_thread wq A' (Some (Waiting sz t)) (Some x)"
    using rel_threads_owner [OF rt th] by blast
  then obtain e where e: "e \<in> set (s_log A')" "e_state e = Reserved_Entry" "ticket_end t = e_end e"
    by auto
  have "s_lo A' \<le> e_start e" using e by (intro nonfinal_ahead(1) [OF inv e(1)]) simp
  then have "seg_lo (seg \<sigma>') \<le> ticket_end t"
    using e(3) off by (simp add: rel_offsets_def e_end_def)
  with go lo show ?thesis by (simp add: must_wait_nat)
qed

subsection \<open>Operations in progress do not meet\<close>

lemma reader_apart:
  assumes R: "refines wq G \<sigma> A" and p: "pend_ok wq \<sigma> ag p full" "\<not> polling p" "ag \<noteq> Reader r"
    and f: "s_pos A r = Some (e_start f)" "final_state (e_state f)" "live A f"
    and i: "in_span (span_of wq \<sigma> ag) i"
  shows "\<not> in_region (q_cap wq) f i"
proof -
  have inv: "spec_inv (q_cap wq) A" using R by (simp add: refines_def)
  obtain e where e: "in_window (q_cap wq) A e" "owns A ag e"
    "span_of wq \<sigma> ag = (e_start e mod q_cap wq, e_len e)"
    using pend_entry [OF R p(1,2)] by metis
  have "e \<noteq> f" using e(2) f p(3) by (cases ag) (auto simp: owns_def last_at_def dest: spec [of _ r])
  with windows_apart [OF inv e(1) live_in_window [OF inv f(3)]] i in_span_region [OF e(3)]
  show ?thesis by blast
qed

lemma relied_in_ring:
  assumes R: "refines wq G \<sigma> A" and p: "pend_ok wq \<sigma> ag p full" and i: "relies wq \<sigma> ag p i"
  shows "i < q_cap wq"
proof -
  have inv: "spec_inv (q_cap wq) A" using R by (simp add: refines_def)
  show ?thesis
  proof (cases "polling p")
    case True
    with p i obtain r q where q: "open_readers \<sigma> r = Some q" "message_ready q (ring (seg \<sigma>))"
      and b: "read_place q \<le> i \<and> i < read_place q + 8 \<or> i = read_place q + 17"
      using polling_reader [of wq \<sigma> ag p full] by (auto simp: relies_def)
    from ready_entry [OF R q] obtain e where "live A e" "read_place q = e_start e mod q_cap wq" .
    with live_window [OF inv, of e] b show ?thesis by auto
  next
    case False
    then obtain e where "in_window (q_cap wq) A e"
      "span_of wq \<sigma> ag = (e_start e mod q_cap wq, e_len e)"
      using pend_entry [OF R p] by metis
    with i False in_region_less [OF inv] in_span_region show ?thesis by (auto simp: relies_def)
  qed
qed

lemma relied_apart:
  assumes R: "refines wq G \<sigma> A" and p: "pend_ok wq \<sigma> ag p full" "\<not> polling p"
    and p': "pend_ok wq \<sigma> ag' p' full'" "ag \<noteq> ag'" "relies wq \<sigma> ag' p' i"
  shows "\<not> in_span (span_of wq \<sigma> ag) i"
proof
  assume i: "in_span (span_of wq \<sigma> ag) i"
  have inv: "spec_inv (q_cap wq) A" using R by (simp add: refines_def)
  show False
  proof (cases "polling p'")
    case True
    with p' obtain r q where q: "ag' = Reader r" "open_readers \<sigma> r = Some q"
      "message_ready q (ring (seg \<sigma>))"
      and b: "read_place q \<le> i \<and> i < read_place q + 8 \<or> i = read_place q + 17"
      using polling_reader [of wq \<sigma> ag' p' full'] by (auto simp: relies_def)
    from ready_entry [OF R q(2,3)] obtain f where f: "f \<in> set (s_log A)" "e_start f = reader_at q"
      "final_state (e_state f)" "live A f" "read_place q = e_start f mod q_cap wq" .
    have "s_pos A r = Some (e_start f)" using reader_facts(1) [OF R q(2)] f(2) by simp
    from reader_apart [OF R p _ this f(3,4) i] p'(2) q(1) have "\<not> in_region (q_cap wq) f i" by simp
    with b f(5) live_window(4) [OF inv f(4)] show False by (auto simp: in_region_def)
  next
    case False
    obtain e where e: "in_window (q_cap wq) A e" "owns A ag e"
      "span_of wq \<sigma> ag = (e_start e mod q_cap wq, e_len e)" using pend_entry [OF R p] by metis
    obtain f where f: "in_window (q_cap wq) A f" "owns A ag' f"
      "span_of wq \<sigma> ag' = (e_start f mod q_cap wq, e_len f)" using pend_entry [OF R p'(1) False] by metis
    have "in_span (span_of wq \<sigma> ag') i" using p'(3) False by (simp add: relies_def)
    with windows_apart [OF inv e(1) f(1) owners_differ [OF inv e(2) f(2) p'(2)]] i
      in_span_region [OF e(3)] in_span_region [OF f(3)] show False by blast
  qed
qed

text \<open>The byte that counts the readers of a message is relied on by its own reader at most.\<close>

lemma count_byte_apart:
  assumes R: "refines wq G \<sigma> A" and q: "open_readers \<sigma> r = Some q" "message_ready q (ring (seg \<sigma>))"
    and p: "pend_ok wq \<sigma> ag p full" "ag \<noteq> Reader r" and i: "relies wq \<sigma> ag p i"
  shows "i \<noteq> read_place q + 16"
proof
  assume b: "i = read_place q + 16"
  have inv: "spec_inv (q_cap wq) A" using R by (simp add: refines_def)
  from ready_entry [OF R q] obtain f where f: "f \<in> set (s_log A)" "e_start f = reader_at q"
    "final_state (e_state f)" "live A f" "read_place q = e_start f mod q_cap wq" .
  have pos: "s_pos A r = Some (e_start f)" using reader_facts(1) [OF R q(1)] f(2) by simp
  have "18 \<le> e_len f" by (rule live_window(4) [OF inv f(4)])
  with b f(5) have fi: "in_region (q_cap wq) f i" by (simp add: in_region_def)
  show False
  proof (cases "polling p")
    case True
    with i polling_reader [OF p(1) True] obtain r' q' where q': "open_readers \<sigma> r' = Some q'"
      "message_ready q' (ring (seg \<sigma>))"
      and b': "read_place q' \<le> i \<and> i < read_place q' + 8 \<or> i = read_place q' + 17"
      by (auto simp: relies_def)
    from ready_entry [OF R q'] obtain f' where f': "live A f'"
      "read_place q' = e_start f' mod q_cap wq" .
    with b' live_window(4) [OF inv f'(1)] have "in_region (q_cap wq) f' i"
      by (auto simp: in_region_def)
    with fi windows_apart [OF inv live_in_window [OF inv f(4)] live_in_window [OF inv f'(1)]]
    have "f' = f" by blast
    with f'(2) f(5) b b' show False by simp
  next
    case False
    then have "in_span (span_of wq \<sigma> ag) i" using i by (simp add: relies_def)
    with reader_apart [OF R p(1) False p(2) pos f(3,4)] fi show False by blast
  qed
qed

section \<open>Steps of the fine machine and of the atomic one\<close>

lemma rel_fineD:
  assumes "rel_fine wq G \<phi> \<sigma>"
  shows "reachable wq G \<sigma>" "same_fields \<phi> \<sigma>" "pending \<phi> ag = Some p \<Longrightarrow> pend_rel wq \<phi> \<sigma> ag p"
    "ring_rel wq \<phi> \<sigma>"
  using assms by (simp_all add: rel_fine_def)

lemma storing_rel:
  assumes "rel_fine wq G \<phi> \<sigma>" "pending \<phi> ag = Some p" "\<not> polling p"
  obtains full ex where "pend_ok wq \<sigma> ag p full" "full = ex @ todo p"
    "\<And>i. in_span (span_of wq \<sigma> ag) i \<Longrightarrow> ring (seg \<phi>) i = stores_mem ex (ring (seg \<sigma>)) i"
proof -
  have "pend_rel wq \<phi> \<sigma> ag p" by (rule rel_fineD(3) [OF assms(1,2)])
  with assms(3) that show ?thesis unfolding pend_rel_def by metis
qed

lemma storing_relies:
  "pending \<phi> ag = Some p \<Longrightarrow> \<not> polling p \<Longrightarrow> relies wq \<sigma> ag p i \<longleftrightarrow> in_span (span_of wq \<sigma> ag) i"
  by (simp add: relies_def)

text \<open>
  The agents \<open>X\<close> finish, or act atomically, on the bytes \<open>W\<close>; what the others have in progress
  goes on.
\<close>

lemma couple:
  assumes F: "rel_fine wq G \<phi> \<sigma>" and \<sigma>': "reachable wq G \<sigma>'" and same: "same_fields \<phi>' \<sigma>'"
    and pend: "\<And>ag. pending \<phi>' ag = (if ag \<in> X then None else pending \<phi> ag)"
    and lo: "seg_lo (seg \<sigma>) \<le> seg_lo (seg \<sigma>')"
    and agents: "\<And>ag. ag \<notin> X \<Longrightarrow> same_agent \<sigma> \<sigma>' ag"
    and apart: "\<And>ag p full i. ag \<notin> X \<Longrightarrow> pend_ok wq \<sigma> ag p full \<Longrightarrow> relies wq \<sigma> ag p i \<Longrightarrow> i \<notin> W"
    and own: "\<And>ag i. ag \<in> X \<Longrightarrow> storing \<phi> ag \<Longrightarrow> in_span (span_of wq \<sigma> ag) i \<Longrightarrow> i \<in> W"
    and out: "\<And>i. i < q_cap wq \<Longrightarrow> i \<notin> W \<Longrightarrow>
      ring (seg \<phi>') i = ring (seg \<phi>) i \<and> ring (seg \<sigma>') i = ring (seg \<sigma>) i"
    and inside: "\<And>i. i < q_cap wq \<Longrightarrow> i \<in> W \<Longrightarrow> ring (seg \<phi>') i = ring (seg \<sigma>') i"
    and beyond: "\<And>i. q_cap wq \<le> i \<Longrightarrow> ring (seg \<phi>') i = 0"
  shows "rel_fine wq G \<phi>' \<sigma>'"
proof -
  obtain A where R: "refines wq G \<sigma> A" using reachable_refines [OF rel_fineD(1) [OF F]] .
  obtain A' where R': "refines wq G \<sigma>' A'" using reachable_refines [OF \<sigma>'] .
  have frame: "pend_ok wq \<sigma>' ag p full"
      "\<not> polling p \<Longrightarrow> span_of wq \<sigma>' ag = span_of wq \<sigma> ag"
    if "ag \<notin> X" "pend_ok wq \<sigma> ag p full" for ag p full
  proof -
    have "ring (seg \<sigma>') i = ring (seg \<sigma>) i" if "relies wq \<sigma> ag p i" for i
      using apart [OF \<open>ag \<notin> X\<close> \<open>pend_ok wq \<sigma> ag p full\<close> that] out
        relied_in_ring [OF R \<open>pend_ok wq \<sigma> ag p full\<close> that] by blast
    note * = pend_ok_frame [OF R that(2) agents [OF that(1)] _ this]
    show "pend_ok wq \<sigma>' ag p full" by (rule *(1) [OF wait_over [OF R' _ lo]])
    show "\<not> polling p \<Longrightarrow> span_of wq \<sigma>' ag = span_of wq \<sigma> ag"
      by (rule *(2) [OF wait_over [OF R' _ lo]])
  qed
  have "pend_rel wq \<phi>' \<sigma>' ag p" if "pending \<phi>' ag = Some p" for ag p
  proof -
    have ag: "ag \<notin> X" "pending \<phi> ag = Some p" using that pend by (auto split: if_splits)
    then obtain full ex where ok: "pend_ok wq \<sigma> ag p full" "full = ex @ todo p"
      and mem: "\<not> polling p \<Longrightarrow> todo p \<noteq> [] \<and>
        (\<forall>i. in_span (span_of wq \<sigma> ag) i \<longrightarrow> ring (seg \<phi>) i = stores_mem ex (ring (seg \<sigma>)) i)"
      using rel_fineD(3) [OF F] unfolding pend_rel_def by blast
    have "ring (seg \<phi>') i = stores_mem ex (ring (seg \<sigma>')) i"
      if p: "\<not> polling p" and i: "in_span (span_of wq \<sigma> ag) i" for i
    proof -
      have rely: "relies wq \<sigma> ag p i" using p i by (simp add: relies_def)
      then have "i \<notin> W" "i < q_cap wq"
        using apart [OF ag(1) ok(1)] relied_in_ring [OF R ok(1)] by blast+
      with out have "ring (seg \<phi>') i = ring (seg \<phi>) i" "ring (seg \<sigma>') i = ring (seg \<sigma>) i" by blast+
      with mem [OF p] i show ?thesis by (metis stores_mem_byte)
    qed
    with frame [OF ag(1) ok(1)] ok(2) mem show ?thesis unfolding pend_rel_def by metis
  qed
  moreover have "ring_rel wq \<phi>' \<sigma>'"
    unfolding ring_rel_def
  proof (intro conjI allI impI beyond)
    fix i assume i: "i < q_cap wq" and free: "\<forall>ag. storing \<phi>' ag \<longrightarrow> \<not> in_span (span_of wq \<sigma>' ag) i"
    show "ring (seg \<phi>') i = ring (seg \<sigma>') i"
    proof (cases "i \<in> W")
      case True
      with inside i show ?thesis by blast
    next
      case False
      have "\<not> in_span (span_of wq \<sigma> ag) i" if "storing \<phi> ag" for ag
      proof (cases "ag \<in> X")
        case True
        with own [OF True that] False show ?thesis by blast
      next
        case notX: False
        then have st: "storing \<phi>' ag" using that pend by (simp add: storing_def)
        obtain p where p: "pending \<phi> ag = Some p" "\<not> polling p"
          using \<open>storing \<phi> ag\<close> unfolding storing_def by blast
        then obtain full where "pend_ok wq \<sigma> ag p full"
          using rel_fineD(3) [OF F] unfolding pend_rel_def by blast
        from frame(2) [OF notX this p(2)] free st show ?thesis by metis
      qed
      with rel_fineD(4) [OF F] i have "ring (seg \<phi>) i = ring (seg \<sigma>) i" by (simp add: ring_rel_def)
      with out [OF i False] show ?thesis by simp
    qed
  qed
  ultimately show ?thesis using \<sigma>' same by (simp add: rel_fine_def)
qed

subsection \<open>One store of an operation in progress\<close>

text \<open>All stores but the last leave the counters of the global header alone.\<close>

definition quiet :: "Store \<Rightarrow> bool" where
  "quiet st \<longleftrightarrow> (\<forall>s. read_offset_of (exec_store st s) = read_offset_of s \<and>
     count_of (exec_store st s) = count_of s \<and> writers_of (exec_store st s) = writers_of s)"

lemma quiet_simps [simp]:
  "quiet (Store_Abs_Offset a v)" "quiet (Store_Size a n)" "quiet (Store_Type a ty)"
  "quiet (Store_Readers a k)" "quiet (Store_Flag a f)" "quiet (Store_Byte i b)"
  "quiet (Store_Last_Cleared a)"
  by (simp_all add: quiet_def)

lemma quiet_stores:
  "\<forall>st\<in>set sts. quiet st \<Longrightarrow> read_offset_of (exec_stores sts s) = read_offset_of s \<and>
     count_of (exec_stores sts s) = count_of s \<and> writers_of (exec_stores sts s) = writers_of s"
  by (induction sts arbitrary: s) (simp_all add: quiet_def)

lemma packed_exec_stores [simp]: "packed_of (exec_stores sts s) = packed_of s"
  by (induction sts arbitrary: s) simp_all

lemma quiet_copy: "st \<in> set (copy_stores a bs) \<Longrightarrow> quiet st"
  by (induction a bs rule: copy_stores.induct) auto

lemma quiet_before_last:
  assumes "pend_ok wq \<sigma> ag p full" "full = ex @ sts" "sts \<noteq> []"
  shows "\<forall>st\<in>set ex. quiet st"
proof -
  have "\<exists>xs z. full = xs @ [z] \<and> (\<forall>st\<in>set xs. quiet st)" if "full \<noteq> []"
  proof (cases p)
    case (Placing b ts)
    then obtain sz t where "place_start wq sz t = Inr (b, full)" using assms(1) by (cases ag) auto
    then have "\<exists>a off n. full = place_stores a off sz n \<or> (\<exists>pad. full = skip_stores a off pad n)"
      by (auto simp: place_start_def Let_def bindE_eq_Inr split: if_splits)
    then show ?thesis
      by (fastforce simp: place_stores_def skip_stores_def header_stores_def fill_stores_def)
  next
    case (Publishing data ts)
    then show ?thesis using assms(1) quiet_copy
      by (cases ag) (auto simp: publish_stores_def)
  next
    case (Aborting ts)
    then show ?thesis using assms(1)
      by (cases ag) (auto simp: abort_stores_def fill_stores_def)
  next
    case (Releasing q1 vs ts)
    then obtain q r where "full = Store_Readers (read_place q) 0 # clear_stores (read_place q)
          (unat (hdr_message_size (ring (seg \<sigma>)) (read_place q)))
          (msg_total (ring (seg \<sigma>)) (read_place q))"
      using assms(1) by (cases ag) auto
    then show ?thesis
      by (intro exI [of _ "butlast full"] exI [of _ "last full"])
        (auto simp: clear_stores_def fill_stores_def butlast_append)
  next
    case Flag_Loaded
    with that assms(1) show ?thesis by (cases ag) auto
  next
    case Abort_Loaded
    with that assms(1) show ?thesis by (cases ag) auto
  qed
  moreover have "full \<noteq> []" using assms(2,3) by simp
  ultimately obtain xs z where "full = xs @ [z]" "\<forall>st\<in>set xs. quiet st" by blast
  moreover obtain ys y where "sts = ys @ [y]" using assms(3) by (metis rev_exhaust)
  ultimately show ?thesis using assms(2) by auto
qed

lemma beyond_zero:
  assumes R: "refines wq G \<sigma> A" and p: "pend_ok wq \<sigma> ag p full" "\<not> polling p"
    and "set sts \<subseteq> set full" "q_cap wq \<le> i" "m i = 0"
  shows "stores_mem sts m i = 0"
  using assms(4,6)
proof (induction sts arbitrary: m)
  case (Cons st sts)
  have "\<not> in_span (span_of wq \<sigma> ag) i"
    using pend_entry [OF R p] in_region_less [of "q_cap wq" A] in_span_region assms(5) R
    by (metis not_le refines_def)
  then have "store_mem st m i = 0"
    using stores_in_span [OF R p, of st i m] Cons.prems store_mem_out [of st i m]
    by (cases "writes st i") auto
  with Cons show ?case by simp
qed simp

lemma stores_out_of_span:
  assumes R: "refines wq G \<sigma> A" and p: "pend_ok wq \<sigma> ag p full" "\<not> polling p"
    and "set sts \<subseteq> set full" "i < q_cap wq" "\<not> in_span (span_of wq \<sigma> ag) i"
  shows "stores_mem sts m i = m i"
proof (rule stores_mem_out, rule ballI)
  fix st assume "st \<in> set sts"
  with assms(4) have st: "st \<in> set full" by blast
  show "\<not> writes st i" using stores_in_span [OF R p st, where i = i and m = m] assms(5,6) by auto
qed

text \<open>
  An operation starts, or goes on, by executing the stores \<open>new\<close>: for the atomic machine nothing
  happens.
\<close>

lemma advance:
  assumes F: "rel_fine wq G \<phi> \<sigma>" and p: "pend_ok wq \<sigma> ag p full" "\<not> polling p"
    and full: "full = ex @ new @ todo p" "todo p \<noteq> []"
    and mem: "\<And>i. in_span (span_of wq \<sigma> ag) i \<Longrightarrow> ring (seg \<phi>) i = stores_mem ex (ring (seg \<sigma>)) i"
  shows "rel_fine wq G (\<phi>\<lparr>seg := exec_stores new (seg \<phi>), pending := (pending \<phi>)(ag \<mapsto> p)\<rparr>) \<sigma>"
    (is "rel_fine wq G ?\<phi> \<sigma>")
proof -
  obtain A where R: "refines wq G \<sigma> A" using reachable_refines [OF rel_fineD(1) [OF F]] .
  have new: "set new \<subseteq> set full" using full(1) by auto
  have "\<forall>st\<in>set new. quiet st"
    using quiet_before_last [OF p(1), of "ex @ new" "todo p"] full by auto
  with rel_fineD(2) [OF F] quiet_stores [of new "seg \<phi>"] have "same_fields ?\<phi> \<sigma>"
    by (simp add: same_fields_def)
  moreover have "pend_rel wq ?\<phi> \<sigma> ag' p'" if "pending ?\<phi> ag' = Some p'" for ag' p'
  proof (cases "ag' = ag")
    case True
    then have "p' = p" using that by simp
    moreover have "ring (seg ?\<phi>) i = stores_mem (ex @ new) (ring (seg \<sigma>)) i"
      if "in_span (span_of wq \<sigma> ag) i" for i
      using stores_mem_byte [of "ring (seg \<phi>)" i "stores_mem ex (ring (seg \<sigma>))" new] mem [OF that]
      by simp
    ultimately show ?thesis
      unfolding pend_rel_def using True p full
      by (intro exI [of _ full] exI [of _ "ex @ new"]) simp
  next
    case False
    then have p': "pending \<phi> ag' = Some p'" using that by simp
    then obtain full' ex' where ok: "pend_ok wq \<sigma> ag' p' full'" "full' = ex' @ todo p'"
      and mem': "\<not> polling p' \<Longrightarrow> todo p' \<noteq> [] \<and>
        (\<forall>i. in_span (span_of wq \<sigma> ag') i \<longrightarrow> ring (seg \<phi>) i = stores_mem ex' (ring (seg \<sigma>)) i)"
      using rel_fineD(3) [OF F] unfolding pend_rel_def by blast
    have "ring (seg ?\<phi>) i = ring (seg \<phi>) i"
      if "\<not> polling p'" "in_span (span_of wq \<sigma> ag') i" for i
    proof -
      have rely: "relies wq \<sigma> ag' p' i" using that by (simp add: relies_def)
      have "\<not> in_span (span_of wq \<sigma> ag) i"
        by (rule relied_apart [OF R p ok(1) _ rely]) (use False in simp)
      with stores_out_of_span [OF R p new relied_in_ring [OF R ok(1) rely]] show ?thesis by simp
    qed
    with ok mem' show ?thesis unfolding pend_rel_def by metis
  qed
  moreover have "ring_rel wq ?\<phi> \<sigma>"
    unfolding ring_rel_def
  proof (intro conjI allI impI)
    have old: "ring_rel wq \<phi> \<sigma>" by (rule rel_fineD(4) [OF F])
    fix i
    {
      assume i: "i < q_cap wq" and free: "\<forall>ag. storing ?\<phi> ag \<longrightarrow> \<not> in_span (span_of wq \<sigma> ag) i"
      have st: "storing ?\<phi> ag" using p(2) by (simp add: storing_def)
      have "storing ?\<phi> ag'" if "storing \<phi> ag'" for ag'
        using that st by (cases "ag' = ag") (simp_all add: storing_def)
      with free old i have "ring (seg \<phi>) i = ring (seg \<sigma>) i" by (simp add: ring_rel_def)
      moreover have "\<not> in_span (span_of wq \<sigma> ag) i" using free st by blast
      ultimately show "ring (seg ?\<phi>) i = ring (seg \<sigma>) i"
        using stores_out_of_span [OF R p new i] by simp
    }
    assume "q_cap wq \<le> i"
    with beyond_zero [OF R p new] old show "ring (seg ?\<phi>) i = 0" by (simp add: ring_rel_def)
  qed
  ultimately show ?thesis using rel_fineD(1) [OF F] by (simp add: rel_fine_def)
qed

text \<open>Before its first store an agent finds its span as the atomic state has it.\<close>

lemma span_untouched:
  assumes F: "rel_fine wq G \<phi> \<sigma>" and p: "pend_ok wq \<sigma> ag p full" "\<not> storing \<phi> ag"
    and i: "relies wq \<sigma> ag p i"
  shows "ring (seg \<phi>) i = ring (seg \<sigma>) i"
proof -
  obtain A where R: "refines wq G \<sigma> A" using reachable_refines [OF rel_fineD(1) [OF F]] .
  have "\<not> in_span (span_of wq \<sigma> ag') i" if st: "storing \<phi> ag'" for ag'
  proof -
    obtain p' where p': "pending \<phi> ag' = Some p'" "\<not> polling p'"
      using st unfolding storing_def by blast
    then obtain full' where "pend_ok wq \<sigma> ag' p' full'"
      using rel_fineD(3) [OF F] unfolding pend_rel_def by blast
    from relied_apart [OF R this p'(2) p(1) _ i] st p(2) show ?thesis by blast
  qed
  with rel_fineD(4) [OF F] relied_in_ring [OF R p(1) i] show ?thesis by (simp add: ring_rel_def)
qed

text \<open>A reader that is not releasing finds the message it stands at as the atomic state has it.\<close>

lemma message_untouched:
  assumes F: "rel_fine wq G \<phi> \<sigma>" and R: "refines wq G \<sigma> A"
    and q: "open_readers \<sigma> r = Some q" "\<not> storing \<phi> (Reader r)"
    and f: "e_start f = reader_at q" "final_state (e_state f)" "live A f"
    and i: "in_region (q_cap wq) f i"
  shows "ring (seg \<phi>) i = ring (seg \<sigma>) i"
proof -
  have inv: "spec_inv (q_cap wq) A" using R by (simp add: refines_def)
  have pos: "s_pos A r = Some (e_start f)" using reader_facts(1) [OF R q(1)] f(1) by simp
  have "\<not> in_span (span_of wq \<sigma> ag) i" if st: "storing \<phi> ag" for ag
  proof
    assume sp: "in_span (span_of wq \<sigma> ag) i"
    obtain p where p: "pending \<phi> ag = Some p" "\<not> polling p"
      using st unfolding storing_def by blast
    then obtain full where "pend_ok wq \<sigma> ag p full"
      using rel_fineD(3) [OF F] unfolding pend_rel_def by blast
    from reader_apart [OF R this p(2) _ pos f(2,3) sp] st q(2) i show False by blast
  qed
  with rel_fineD(4) [OF F] in_region_less [OF inv live_in_window [OF inv f(3)] i]
  show ?thesis by (simp add: ring_rel_def)
qed

section \<open>The steps\<close>

lemma ring_beyond: "rel_fine wq G \<phi> \<sigma> \<Longrightarrow> q_cap wq \<le> i \<Longrightarrow> ring (seg \<phi>) i = 0"
  by (simp add: rel_fine_def ring_rel_def)

text \<open>Steps that do not touch the ring.\<close>

lemma couple_no_ring:
  assumes F: "rel_fine wq G \<phi> \<sigma>" and "reachable wq G \<sigma>'" "same_fields \<phi>' \<sigma>'"
    and "\<And>ag. pending \<phi>' ag = (if ag \<in> X then None else pending \<phi> ag)"
    and "\<And>ag. ag \<in> X \<Longrightarrow> \<not> storing \<phi> ag"
    and "seg_lo (seg \<sigma>') = seg_lo (seg \<sigma>)" "\<And>ag. ag \<notin> X \<Longrightarrow> same_agent \<sigma> \<sigma>' ag"
    and "ring (seg \<phi>') = ring (seg \<phi>)" "ring (seg \<sigma>') = ring (seg \<sigma>)"
  shows "rel_fine wq G \<phi>' \<sigma>'"
  using assms ring_beyond [OF F] by (intro couple [OF F, of \<sigma>' \<phi>' X "{}"]) auto

lemma fine_reserve:
  assumes F: "rel_fine wq G \<phi> \<sigma>"
    and step: "pending \<phi> (Writer w) = None" "threads \<phi> w = None" "open_readers \<phi> \<noteq> Map.empty"
     "claim_checks wq sz" "reserve_write_offset wq (seg \<phi>) (sz + sizeof_MessageHeader) = (s', t)"
     "seg_hi s' mod q_cap wq \<in> G" "seg_hi (seg \<phi>) + 2 * q_cap wq < 2 ^ 56"
  shows "\<exists>\<sigma>'. sys_step wq G \<sigma> \<sigma>' \<and>
    rel_fine wq G (\<phi>\<lparr>seg := s', threads := (threads \<phi>)(w \<mapsto> Waiting sz t)\<rparr>) \<sigma>'"
proof -
  have same: "same_fields \<phi> \<sigma>" by (rule rel_fineD(2) [OF F])
  obtain v where v: "s' = set_packed v (seg \<phi>)"
    "reserve_write_offset wq (seg \<sigma>) (sz + sizeof_MessageHeader) = (set_packed v (seg \<sigma>), t)"
    using step(5) same
    by (auto simp: reserve_write_offset_def Let_def same_fields_def split: prod.splits)
  let ?\<sigma> = "\<sigma>\<lparr>seg := set_packed v (seg \<sigma>), threads := (threads \<sigma>)(w \<mapsto> Waiting sz t)\<rparr>"
  have "sys_step wq G \<sigma> ?\<sigma>"
    using step same v by (intro sys_step.reserve) (simp_all add: same_fields_def seg_hi_def)
  moreover have "rel_fine wq G (\<phi>\<lparr>seg := s', threads := (threads \<phi>)(w \<mapsto> Waiting sz t)\<rparr>) ?\<sigma>"
    using same v step(1) reachable_step [OF rel_fineD(1) [OF F] calculation]
    by (intro couple_no_ring [OF F, where X = "{Writer w}"])
      (auto simp: same_fields_def same_agent_def storing_def split: Agent.split)
  ultimately show ?thesis by blast
qed

lemma fine_join:
  assumes F: "rel_fine wq G \<phi> \<sigma>"
    and step: "open_readers \<phi> r = None" "held \<phi> r = None" "card (dom (open_readers \<phi>)) < 255"
     "seg_hi (seg \<phi>) \<le> seg_lo (seg \<phi>) + q_cap wq" "modify_readers True (seg \<phi>) = (s', wr)"
  shows "\<exists>\<sigma>'. sys_step wq G \<sigma> \<sigma>' \<and>
    rel_fine wq G (\<phi>\<lparr>seg := s', open_readers := (open_readers \<phi>)(r \<mapsto> joined_reader wq q0 wr),
       received := (received \<phi>)(r := []), joined := (joined \<phi>)(r := seg_hi (seg \<phi>))\<rparr>) \<sigma>'"
proof -
  have same: "same_fields \<phi> \<sigma>" by (rule rel_fineD(2) [OF F])
  obtain v where v: "s' = set_packed v (seg \<phi>)"
    "modify_readers True (seg \<sigma>) = (set_packed v (seg \<sigma>), wr)"
    using step(5) same by (auto simp: modify_readers_def same_fields_def split: prod.splits)
  let ?\<sigma> = "\<sigma>\<lparr>seg := set_packed v (seg \<sigma>), open_readers := (open_readers \<sigma>)(r \<mapsto> joined_reader wq q0 wr),
       received := (received \<sigma>)(r := []), joined := (joined \<sigma>)(r := seg_hi (seg \<sigma>))\<rparr>"
  have none: "pending \<phi> (Reader r) = None"
  proof (rule ccontr)
    assume "pending \<phi> (Reader r) \<noteq> None"
    then obtain p full where "pend_ok wq \<sigma> (Reader r) p full"
      using rel_fineD(3) [OF F] unfolding pend_rel_def by blast
    with step(1) same show False by (cases p) (auto simp: same_fields_def)
  qed
  have "sys_step wq G \<sigma> ?\<sigma>"
    using step same v
    by (intro sys_step.join) (simp_all add: same_fields_def seg_hi_def seg_lo_def)
  moreover have "rel_fine wq G (\<phi>\<lparr>seg := s',
      open_readers := (open_readers \<phi>)(r \<mapsto> joined_reader wq q0 wr),
      received := (received \<phi>)(r := []), joined := (joined \<phi>)(r := seg_hi (seg \<phi>))\<rparr>) ?\<sigma>"
    using same v none reachable_step [OF rel_fineD(1) [OF F] calculation]
    by (intro couple_no_ring [OF F, where X = "{Reader r}"])
      (auto simp: same_fields_def same_agent_def storing_def seg_hi_def split: Agent.split)
  ultimately show ?thesis by blast
qed

lemma fine_writers:
  assumes F: "rel_fine wq G \<phi> \<sigma>" and f: "f = (\<lambda>n. n + 1) \<or> f = (\<lambda>n. n - 1)"
  shows "\<exists>\<sigma>'. sys_step wq G \<sigma> \<sigma>' \<and>
    rel_fine wq G (\<phi>\<lparr>seg := set_writers (f (writers_of (seg \<phi>))) (seg \<phi>)\<rparr>) \<sigma>'"
proof -
  have same: "same_fields \<phi> \<sigma>" by (rule rel_fineD(2) [OF F])
  let ?\<sigma> = "\<sigma>\<lparr>seg := set_writers (f (writers_of (seg \<sigma>))) (seg \<sigma>)\<rparr>"
  have "sys_step wq G \<sigma> ?\<sigma>"
    using f sys_step.writer_opens [of wq G \<sigma>] sys_step.writer_closes [of wq G \<sigma>] by auto
  moreover have "rel_fine wq G (\<phi>\<lparr>seg := set_writers (f (writers_of (seg \<phi>))) (seg \<phi>)\<rparr>) ?\<sigma>"
    using same reachable_step [OF rel_fineD(1) [OF F] calculation]
    by (intro couple_no_ring [OF F, where X = "{}"])
      (auto simp: same_fields_def same_agent_def seg_lo_def split: Agent.split)
  ultimately show ?thesis by blast
qed

subsection \<open>Writers\<close>

lemma fine_start_placing:
  assumes F: "rel_fine wq G \<phi> \<sigma>"
    and step: "pending \<phi> (Writer w) = None" "threads \<phi> w = Some (Waiting sz t)"
     "\<not> must_wait wq (seg \<phi>) t" "place_start wq sz t = Inr (b, sts)"
  shows "rel_fine wq G (\<phi>\<lparr>pending := (pending \<phi>)(Writer w \<mapsto> Placing b sts)\<rparr>) \<sigma>"
proof -
  have same: "same_fields \<phi> \<sigma>" by (rule rel_fineD(2) [OF F])
  then have p: "pend_ok wq \<sigma> (Writer w) (Placing b sts) sts"
    using step by (auto simp: same_fields_def must_wait_def)
  have "sts \<noteq> []"
    using step(4) by (auto simp: place_start_def place_stores_def skip_stores_def Let_def bindE_eq_Inr
        split: if_splits)
  moreover have "ring (seg \<phi>) i = ring (seg \<sigma>) i" if "in_span (span_of wq \<sigma> (Writer w)) i" for i
    using that step(1) by (intro span_untouched [OF F p]) (simp_all add: storing_def relies_def)
  ultimately show ?thesis
    using advance [OF F p, of "[]" "[]"] by simp
qed

lemma fine_start_publishing:
  assumes F: "rel_fine wq G \<phi> \<sigma>"
    and step: "pending \<phi> (Writer w) = None" "threads \<phi> w = Some (Holding b)"
      "length data + unat sizeof_MessageHeader \<le> unat (wrapper_size b)"
  shows "rel_fine wq G (\<phi>\<lparr>pending :=
    (pending \<phi>)(Writer w \<mapsto> Publishing data (publish_stores (wrapper_data b) data))\<rparr>) \<sigma>"
proof -
  have same: "same_fields \<phi> \<sigma>" by (rule rel_fineD(2) [OF F])
  let ?p = "Publishing data (publish_stores (wrapper_data b) data)"
  have p: "pend_ok wq \<sigma> (Writer w) ?p (publish_stores (wrapper_data b) data)"
    using step same by (auto simp: same_fields_def)
  have "ring (seg \<phi>) i = ring (seg \<sigma>) i" if "in_span (span_of wq \<sigma> (Writer w)) i" for i
    using that step(1) by (intro span_untouched [OF F p]) (simp_all add: storing_def relies_def)
  then show ?thesis
    using advance [OF F p, of "[]" "[]"] by (simp add: publish_stores_def)
qed

lemma fine_start_aborting:
  assumes F: "rel_fine wq G \<phi> \<sigma>"
    and step: "pending \<phi> (Writer w) = None" "threads \<phi> w = Some (Holding b)"
  shows "rel_fine wq G (\<phi>\<lparr>pending := (pending \<phi>)(Writer w \<mapsto> Aborting
    (abort_stores (wrapper_data b) (unat (hdr_message_size (ring (seg \<phi>)) (wrapper_data b)))))\<rparr>) \<sigma>"
proof -
  obtain A where R: "refines wq G \<sigma> A" using reachable_refines [OF rel_fineD(1) [OF F]] .
  have th: "threads \<sigma> w = Some (Holding b)" using rel_fineD(2) [OF F] step(2) by (simp add: same_fields_def)
  let ?full = "abort_stores (wrapper_data b) (unat (hdr_message_size (ring (seg \<sigma>)) (wrapper_data b)))"
  have p: "pend_ok wq \<sigma> (Writer w) (Aborting ?full) ?full" using th by auto
  have same: "ring (seg \<phi>) i = ring (seg \<sigma>) i" if "in_span (span_of wq \<sigma> (Writer w)) i" for i
    using that step(1) by (intro span_untouched [OF F p]) (simp_all add: storing_def relies_def)
  then have "ring (seg \<phi>) i = ring (seg \<sigma>) i"
    if "wrapper_data b \<le> i" "i < wrapper_data b + 18" for i
    using that claimed_size(2) [OF R th] th by (simp add: span_of_def in_span_def)
  with hdr_cong [of "wrapper_data b" "ring (seg \<phi>)" "ring (seg \<sigma>)"]
  have "hdr_message_size (ring (seg \<phi>)) (wrapper_data b) = hdr_message_size (ring (seg \<sigma>)) (wrapper_data b)"
    by simp
  then show ?thesis
    using advance [OF F p, of "[]" "[]"] same by (simp add: abort_stores_def)
qed

lemma pend_ok_with_todo: "pend_ok wq \<sigma> ag (with_todo sts p) full \<longleftrightarrow> pend_ok wq \<sigma> ag p full"
  by (cases ag; cases p) auto

lemma todo_with_todo: "\<not> polling p \<Longrightarrow> todo (with_todo sts p) = sts"
  and with_todo_flag [simp]: "polling (with_todo sts p) \<longleftrightarrow> polling p"
  by (cases p; simp)+

lemma fine_store:
  assumes F: "rel_fine wq G \<phi> \<sigma>"
    and step: "pending \<phi> ag = Some p" "todo p = st # sts" "sts \<noteq> []"
  shows "rel_fine wq G (\<phi>\<lparr>seg := exec_store st (seg \<phi>),
    pending := (pending \<phi>)(ag \<mapsto> with_todo sts p)\<rparr>) \<sigma>"
proof -
  have p: "\<not> polling p" using step(2) by (cases p) auto
  obtain full ex where ok: "pend_ok wq \<sigma> ag p full" "full = ex @ todo p"
    and mem: "\<And>i. in_span (span_of wq \<sigma> ag) i \<Longrightarrow> ring (seg \<phi>) i = stores_mem ex (ring (seg \<sigma>)) i"
    using rel_fineD(3) [OF F step(1)] p unfolding pend_rel_def by blast
  show ?thesis
    using advance [OF F, of ag "with_todo sts p" full ex "[st]"] ok p mem step
    by (simp add: pend_ok_with_todo todo_with_todo)
qed

text \<open>The last store: the atomic machine takes its step.\<close>

lemma finish:
  assumes F: "rel_fine wq G \<phi> \<sigma>" and p: "pending \<phi> ag = Some p" "\<not> polling p" "todo p = [st]"
    and ok: "pend_ok wq \<sigma> ag p full" "full = ex @ todo p"
    and mem: "\<And>i. in_span (span_of wq \<sigma> ag) i \<Longrightarrow> ring (seg \<phi>) i = stores_mem ex (ring (seg \<sigma>)) i"
    and step: "sys_step wq G \<sigma> \<sigma>'" and same: "same_fields \<phi>' \<sigma>'"
    and rings: "ring (seg \<phi>') = store_mem st (ring (seg \<phi>))"
      "ring (seg \<sigma>') = stores_mem full (ring (seg \<sigma>))"
    and pend: "pending \<phi>' = (pending \<phi>)(ag := None)"
    and lo: "seg_lo (seg \<sigma>) \<le> seg_lo (seg \<sigma>')"
    and agents: "\<And>ag'. ag' \<noteq> ag \<Longrightarrow> same_agent \<sigma> \<sigma>' ag'"
  shows "rel_fine wq G \<phi>' \<sigma>'"
proof -
  obtain A where R: "refines wq G \<sigma> A" using reachable_refines [OF rel_fineD(1) [OF F]] .
  have st: "set [st] \<subseteq> set full" using ok(2) p(3) by simp
  show ?thesis
  proof (rule couple [OF F reachable_step [OF rel_fineD(1) [OF F] step] same, where X = "{ag}"
        and W = "{i. in_span (span_of wq \<sigma> ag) i}"])
    show "pending \<phi>' ag' = (if ag' \<in> {ag} then None else pending \<phi> ag')" for ag'
      by (simp add: pend)
    show "i \<notin> {i. in_span (span_of wq \<sigma> ag) i}"
      if "ag' \<notin> {ag}" "pend_ok wq \<sigma> ag' p' full'" "relies wq \<sigma> ag' p' i" for ag' p' full' i
      using relied_apart [OF R ok(1) p(2) that(2) _ that(3)] that(1) by auto
    show "ring (seg \<phi>') i = ring (seg \<phi>) i \<and> ring (seg \<sigma>') i = ring (seg \<sigma>) i"
      if "i < q_cap wq" "i \<notin> {i. in_span (span_of wq \<sigma> ag) i}" for i
      using stores_out_of_span [OF R ok(1) p(2) st that(1)] that(2)
        stores_out_of_span [OF R ok(1) p(2) subset_refl that(1)] by (simp add: rings)
    show "ring (seg \<phi>') i = ring (seg \<sigma>') i"
      if "i < q_cap wq" "i \<in> {i. in_span (span_of wq \<sigma> ag) i}" for i
      using mem [of i] that(2) store_mem_byte [of "ring (seg \<phi>)" i "stores_mem ex (ring (seg \<sigma>))" st]
      by (simp add: rings ok(2) p(3))
    show "ring (seg \<phi>') i = 0" if "q_cap wq \<le> i" for i
      using beyond_zero [OF R ok(1) p(2) st that, of "ring (seg \<phi>)"] ring_beyond [OF F that]
      by (simp add: rings)
  qed (use lo agents in auto)
qed

text \<open>The counters of the global header after the last store agree when they agreed before it.\<close>

lemma last_store_fields:
  assumes "pend_ok wq \<sigma> ag p full" "full = ex @ [st]"
    and "read_offset_of s = read_offset_of s'" "count_of s = count_of s'"
      "writers_of s = writers_of s'"
  shows "read_offset_of (exec_store st s) = read_offset_of (exec_stores full s')"
    "count_of (exec_store st s) = count_of (exec_stores full s')"
    "writers_of (exec_store st s) = writers_of (exec_stores full s')"
proof -
  have "\<forall>x\<in>set ex. quiet x" using quiet_before_last [OF assms(1,2)] by simp
  note q = quiet_stores [OF this, of s']
  show "read_offset_of (exec_store st s) = read_offset_of (exec_stores full s')"
    "count_of (exec_store st s) = count_of (exec_stores full s')"
    "writers_of (exec_store st s) = writers_of (exec_stores full s')"
    using q assms(2-) by (cases st; simp)+
qed

lemma fine_placed:
  assumes F: "rel_fine wq G \<phi> \<sigma>" and p: "pending \<phi> (Writer w) = Some (Placing b [st])"
  shows "\<exists>\<sigma>'. sys_step wq G \<sigma> \<sigma>' \<and> rel_fine wq G (\<phi>\<lparr>seg := exec_store st (seg \<phi>),
    threads := (threads \<phi>)(w := map_option Holding b), pending := (pending \<phi>)(Writer w := None)\<rparr>) \<sigma>'"
proof -
  have same: "same_fields \<phi> \<sigma>" by (rule rel_fineD(2) [OF F])
  have storing: "\<not> polling (Placing b [st])" by simp
  obtain full ex where ok: "pend_ok wq \<sigma> (Writer w) (Placing b [st]) full"
      "full = ex @ todo (Placing b [st])"
    and mem: "\<And>i. in_span (span_of wq \<sigma> (Writer w)) i \<Longrightarrow>
      ring (seg \<phi>) i = stores_mem ex (ring (seg \<sigma>)) i"
    by (rule storing_rel [OF F p storing]) blast
  obtain sz t where th: "threads \<sigma> w = Some (Waiting sz t)" "\<not> must_wait wq (seg \<sigma>) t"
    and start: "place_start wq sz t = Inr (b, full)" using ok(1) by auto
  let ?\<sigma> = "\<sigma>\<lparr>seg := exec_stores full (seg \<sigma>), threads := (threads \<sigma>)(w := map_option Holding b)\<rparr>"
  have place: "place_claim wq (seg \<sigma>) sz t = Inr (exec_stores full (seg \<sigma>), b)"
    by (simp add: place_by_stores start)
  have step: "sys_step wq G \<sigma> ?\<sigma>"
  proof (cases b)
    case None
    with sys_step.skip [OF th] place show ?thesis by simp
  next
    case (Some b')
    with sys_step.place [OF th] place show ?thesis by simp
  qed
  obtain A where R: "refines wq G \<sigma> A" using reachable_refines [OF rel_fineD(1) [OF F]] .
  have "read_offset_of (exec_store st s) = read_offset_of s" for s
  proof -
    have "st \<in> set full" using ok(2) by simp
    then show ?thesis using start
      by (cases st) (auto simp: place_start_def place_stores_def skip_stores_def header_stores_def
          fill_stores_def Let_def bindE_eq_Inr split: if_splits)
  qed
  note fields = last_store_fields [OF ok(1) ok(2) [unfolded todo.simps]] this
  have "read_offset_of (exec_stores full (seg \<sigma>)) = read_offset_of (seg \<sigma>)"
    using fields(1) [of "seg \<sigma>" "seg \<sigma>"] fields(4) by simp
  then have "seg_lo (exec_stores full (seg \<sigma>)) = seg_lo (seg \<sigma>)" by (simp add: seg_lo_def)
  then have "rel_fine wq G (\<phi>\<lparr>seg := exec_store st (seg \<phi>),
      threads := (threads \<phi>)(w := map_option Holding b), pending := (pending \<phi>)(Writer w := None)\<rparr>) ?\<sigma>"
    using same fields(1-3) [of "seg \<phi>" "seg \<sigma>"] mem
    by (intro finish [OF F p _ _ ok _ step])
      (auto simp: same_fields_def same_agent_def split: Agent.split)
  with step show ?thesis by blast
qed

lemma drop_read_bytes: "drop n (read_bytes m a k) = read_bytes m (a + n) (k - n)"
  by (rule nth_equalityI) (simp_all add: read_bytes_def add.assoc)

lemma fine_published:
  assumes F: "rel_fine wq G \<phi> \<sigma>" and p: "pending \<phi> (Writer w) = Some (Publishing data [st])"
    and th: "threads \<phi> w = Some (Holding b)"
  shows "\<exists>\<sigma>'. sys_step wq G \<sigma> \<sigma>' \<and> rel_fine wq G (\<phi>\<lparr>seg := exec_store st (seg \<phi>),
    threads := (threads \<phi>)(w := None),
    sent := (sent \<phi>)(claimed_at (seg \<phi>) b \<mapsto> payload_after_write (seg \<phi>) b data),
    pending := (pending \<phi>)(Writer w := None)\<rparr>) \<sigma>'"
proof -
  let ?a = "wrapper_data b"
  have same: "same_fields \<phi> \<sigma>" by (rule rel_fineD(2) [OF F])
  then have th': "threads \<sigma> w = Some (Holding b)" using th by (simp add: same_fields_def)
  have storing: "\<not> polling (Publishing data [st])" by simp
  obtain full ex where ok: "pend_ok wq \<sigma> (Writer w) (Publishing data [st]) full"
      "full = ex @ todo (Publishing data [st])"
    and mem: "\<And>i. in_span (span_of wq \<sigma> (Writer w)) i \<Longrightarrow>
      ring (seg \<phi>) i = stores_mem ex (ring (seg \<sigma>)) i"
    by (rule storing_rel [OF F p storing]) blast
  have len: "length data + 18 \<le> unat (wrapper_size b)" and full: "full = publish_stores ?a data"
    using ok(1) th' by auto
  let ?\<sigma> = "\<sigma>\<lparr>seg := exec_stores full (seg \<sigma>), threads := (threads \<sigma>)(w := None),
    sent := (sent \<sigma>)(claimed_at (seg \<sigma>) b \<mapsto> payload_after_write (seg \<sigma>) b data)\<rparr>"
  have written: "write_to_buffer (seg \<sigma>) b data = Inr (exec_stores full (seg \<sigma>))"
    using len by (simp add: write_by_stores full)
  have step: "sys_step wq G \<sigma> ?\<sigma>" by (rule sys_step.publish [OF th' written])
  have ex: "set ex \<subseteq> set (copy_stores (?a + 18) data)"
    using ok(2) full by (simp add: publish_stores_def)
  have untouched: "ring (seg \<phi>) i = ring (seg \<sigma>) i"
    if "?a \<le> i" "i < ?a + unat (wrapper_size b)" "i < ?a + 18 \<or> ?a + 18 + length data \<le> i" for i
  proof -
    have "stores_mem ex (ring (seg \<sigma>)) i = ring (seg \<sigma>) i"
      using ex copy_stores_write [of _ "?a + 18" data i] that(3) by (intro stores_mem_out) fastforce
    with mem [of i] that(1,2) th' show ?thesis by (simp add: span_of_def in_span_def)
  qed
  have "claimed_at (seg \<phi>) b = claimed_at (seg \<sigma>) b"
    using untouched len unfolding claimed_at_def hdr_abs_offset_def
    by (intro arg_cong [where f = unat] load64_cong) simp
  moreover have "payload_after_write (seg \<phi>) b data = payload_after_write (seg \<sigma>) b data"
    using untouched len unfolding payload_after_write_def drop_read_bytes
    by (intro arg_cong [where f = "(@) data"] read_bytes_cong) simp
  moreover have "read_offset_of (exec_store st s) = read_offset_of s" for s
  proof -
    have "st = Store_Flag ?a READY_FOR_CONSUMER" using ok(2) full by (simp add: publish_stores_def)
    then show ?thesis by simp
  qed
  moreover note fields = last_store_fields [OF ok(1) ok(2) [unfolded todo.simps]]
  moreover have "seg_lo (exec_stores full (seg \<sigma>)) = seg_lo (seg \<sigma>)"
    using fields(1) [of "seg \<sigma>" "seg \<sigma>"] calculation(3) by (simp add: seg_lo_def)
  ultimately have "rel_fine wq G (\<phi>\<lparr>seg := exec_store st (seg \<phi>), threads := (threads \<phi>)(w := None),
      sent := (sent \<phi>)(claimed_at (seg \<phi>) b \<mapsto> payload_after_write (seg \<phi>) b data),
      pending := (pending \<phi>)(Writer w := None)\<rparr>) ?\<sigma>"
    using same fields(1-3) [of "seg \<phi>" "seg \<sigma>"] mem
    by (intro finish [OF F p _ _ ok _ step])
      (auto simp: same_fields_def same_agent_def split: Agent.split)
  with step show ?thesis by blast
qed

lemma fine_aborted:
  assumes F: "rel_fine wq G \<phi> \<sigma>" and p: "pending \<phi> (Writer w) = Some (Aborting [st])"
    and th: "threads \<phi> w = Some (Holding b)"
  shows "\<exists>\<sigma>'. sys_step wq G \<sigma> \<sigma>' \<and> rel_fine wq G (\<phi>\<lparr>seg := exec_store st (seg \<phi>),
    threads := (threads \<phi>)(w := None),
    dropped := insert (claimed_at (seg \<phi>) b) (dropped \<phi>),
    pending := (pending \<phi>)(Writer w := None)\<rparr>) \<sigma>'"
proof -
  let ?a = "wrapper_data b"
  have same: "same_fields \<phi> \<sigma>" by (rule rel_fineD(2) [OF F])
  then have th': "threads \<sigma> w = Some (Holding b)" using th by (simp add: same_fields_def)
  obtain A where R: "refines wq G \<sigma> A" using reachable_refines [OF rel_fineD(1) [OF F]] .
  let ?n = "unat (hdr_message_size (ring (seg \<sigma>)) ?a)"
  have storing: "\<not> polling (Aborting [st])" by simp
  obtain full ex where ok: "pend_ok wq \<sigma> (Writer w) (Aborting [st]) full"
      "full = ex @ todo (Aborting [st])"
    and mem: "\<And>i. in_span (span_of wq \<sigma> (Writer w)) i \<Longrightarrow>
      ring (seg \<phi>) i = stores_mem ex (ring (seg \<sigma>)) i"
    by (rule storing_rel [OF F p storing]) blast
  have full: "full = abort_stores ?a ?n" using ok(1) th' by auto
  let ?\<sigma> = "\<sigma>\<lparr>seg := exec_stores full (seg \<sigma>), threads := (threads \<sigma>)(w := None),
    dropped := insert (claimed_at (seg \<sigma>) b) (dropped \<sigma>)\<rparr>"
  have step: "sys_step wq G \<sigma> ?\<sigma>"
    using sys_step.abort [OF th'] by (simp add: abort_by_stores full)
  have "ring (seg \<phi>) i = ring (seg \<sigma>) i" if "?a \<le> i" "i < ?a + 8" for i
  proof -
    have "set ex \<subseteq> set (fill_stores (?a + 18) 0 ?n)" using ok(2) full by (simp add: abort_stores_def)
    then have "stores_mem ex (ring (seg \<sigma>)) i = ring (seg \<sigma>) i"
      using fill_stores_write(1) [of _ "?a + 18" 0 ?n i] that by (intro stores_mem_out) fastforce
    with mem [of i] that th' claimed_size(2) [OF R th'] show ?thesis
      by (simp add: span_of_def in_span_def)
  qed
  then have "claimed_at (seg \<phi>) b = claimed_at (seg \<sigma>) b"
    unfolding claimed_at_def hdr_abs_offset_def by (intro arg_cong [where f = unat] load64_cong) simp
  moreover have "read_offset_of (exec_store st s) = read_offset_of s" for s
  proof -
    have "st = Store_Flag ?a ABORTED" using ok(2) full by (simp add: abort_stores_def)
    then show ?thesis by simp
  qed
  moreover note fields = last_store_fields [OF ok(1) ok(2) [unfolded todo.simps]]
  moreover have "seg_lo (exec_stores full (seg \<sigma>)) = seg_lo (seg \<sigma>)"
    using fields(1) [of "seg \<sigma>" "seg \<sigma>"] calculation(2) by (simp add: seg_lo_def)
  ultimately have "rel_fine wq G (\<phi>\<lparr>seg := exec_store st (seg \<phi>), threads := (threads \<phi>)(w := None),
      dropped := insert (claimed_at (seg \<phi>) b) (dropped \<phi>),
      pending := (pending \<phi>)(Writer w := None)\<rparr>) ?\<sigma>"
    using same fields(1-3) [of "seg \<phi>" "seg \<sigma>"] mem
    by (intro finish [OF F p _ _ ok _ step])
      (auto simp: same_fields_def same_agent_def split: Agent.split)
  with step show ?thesis by blast
qed

subsection \<open>Readers\<close>

lemma writer_keeps_flag:
  assumes R: "refines wq G \<sigma> A" and p: "pend_ok wq \<sigma> (Writer w) p full" "full = ex @ sts" "sts \<noteq> []"
    and sp: "span_of wq \<sigma> (Writer w) = (a, n)" and st: "st \<in> set ex"
  shows "\<not> writes st (a + 17)"
proof -
  consider (place) b ts where "p = Placing b ts" | (publish) data ts where "p = Publishing data ts"
    | (abort) ts where "p = Aborting ts"
    using p(1) by (cases p) auto
  then show ?thesis
  proof cases
    case (place b ts)
    then obtain sz t where th: "threads \<sigma> w = Some (Waiting sz t)" "\<not> must_wait wq (seg \<sigma>) t"
      and start: "place_start wq sz t = Inr (b, full)"
      using p(1) by auto
    have a: "a = ticket_start t mod q_cap wq" using sp th by (simp add: span_of_def)
    from R th start show ?thesis
      by (cases rule: place_start_cases) (use writer_flag_last(1,2) p(2,3) st a in metis)+
  next
    case (publish data ts)
    then have "full = publish_stores a data" using p(1) sp by (auto simp: span_of_def)
    with writer_flag_last(3) p(2,3) st show ?thesis by metis
  next
    case (abort ts)
    then obtain len where "full = abort_stores a len" using p(1) sp by (auto simp: span_of_def)
    with writer_flag_last(4) p(2,3) st show ?thesis by metis
  qed
qed

text \<open>A set flag, found within one ring's size of the slowest reader, is the flag of the message.\<close>

lemma flag_is_true:
  assumes F: "rel_fine wq G \<phi> \<sigma>" and R: "refines wq G \<sigma> A"
    and q: "open_readers \<sigma> r = Some q" "\<not> storing \<phi> (Reader r)"
    and flag: "hdr_commit_flag (ring (seg \<phi>)) (read_place q) = v" "v \<noteq> 0"
    and near: "reader_at q < seg_lo (seg \<sigma>) + q_cap wq"
  shows "message_ready q (ring (seg \<sigma>))" "hdr_commit_flag (ring (seg \<sigma>)) (read_place q) = v"
proof -
  let ?y = "reader_at q" and ?c = "q_cap wq"
  let ?i = "?y mod ?c + 17"
  note qf = reader_facts [OF R q(1)]
  have inv: "spec_inv ?c A" and off: "rel_offsets wq G (seg \<sigma>) A" using R by (simp_all add: refines_def)
  have win: "?y < s_lo A + ?c" using near off by (simp add: rel_offsets_def)
  note place = read_place_at [OF R q(1)]
  note room = boundary_place [OF R qf(6)]
  have one: "ring (seg \<phi>) ?i = v" using flag by (simp add: hdr_commit_flag_def place)
  have "ring (seg \<sigma>) ?i = v"
  proof (cases "\<exists>ag. storing \<phi> ag \<and> in_span (span_of wq \<sigma> ag) ?i")
    case False
    with rel_fineD(4) [OF F] room(1) one show ?thesis by (simp add: ring_rel_def)
  next
    case True
    then obtain ag p where ag: "pending \<phi> ag = Some p" "\<not> polling p"
      "in_span (span_of wq \<sigma> ag) ?i" unfolding storing_def by blast
    then obtain full ex where ok: "pend_ok wq \<sigma> ag p full" "full = ex @ todo p" "todo p \<noteq> []"
      and mem: "\<And>i. in_span (span_of wq \<sigma> ag) i \<Longrightarrow> ring (seg \<phi>) i = stores_mem ex (ring (seg \<sigma>)) i"
      using rel_fineD(3) [OF F] unfolding pend_rel_def by blast
    obtain e where e: "in_window ?c A e" "owns A ag e"
      "span_of wq \<sigma> ag = (e_start e mod ?c, e_len e)" using pend_entry [OF R ok(1) ag(2)] by metis
    have "e_start e mod ?c \<in> G" "spaced G" using off e(1) by (auto simp: rel_offsets_def in_window_def)
    with flag_byte_region [OF inv _ qf(6,7) win room(1,2)] e(1) ag(3) in_span_region [OF e(3)]
    have start: "e_start e = ?y" by (simp add: in_window_def)
    show ?thesis
    proof (cases ag)
      case (Writer w)
      have "stores_mem ex (ring (seg \<sigma>)) ?i = ring (seg \<sigma>) ?i"
        using writer_keeps_flag [OF R _ ok(2,3)] ok(1) e(3) Writer start
        by (intro stores_mem_out ballI) simp
      with mem [OF ag(3)] one show ?thesis by simp
    next
      case (Reader r')
      then have "r' \<noteq> r" using q(2) ag by (auto simp: storing_def)
      with e(2) Reader start qf(1) show ?thesis by (auto simp: owns_def last_at_def)
    qed
  qed
  then show v: "hdr_commit_flag (ring (seg \<sigma>)) (read_place q) = v"
    by (simp add: hdr_commit_flag_def place)
  then have "hdr_commit_flag (ring (seg \<sigma>)) (?y mod ?c) \<noteq> 0" using flag(2) place by simp
  with flag_at_boundary [OF R qf(6,7) win] obtain e where "e \<in> set (s_log A)"
    "unat (hdr_abs_offset (ring (seg \<sigma>)) (?y mod ?c)) = ?y" "final_state (e_state e)"
    "hdr_commit_flag (ring (seg \<sigma>)) (?y mod ?c) = entry_flag (e_state e)" by blast
  then show "message_ready q (ring (seg \<sigma>))"
    by (cases "e_state e") (auto simp: message_ready_def place reader_at_def intro!: word_u64_eqI)
qed

text \<open>What such a reader reads is what the atomic state has.\<close>

lemma message_read:
  assumes F: "rel_fine wq G \<phi> \<sigma>" and R: "refines wq G \<sigma> A"
    and q: "open_readers \<sigma> r = Some q" "\<not> storing \<phi> (Reader r)" "message_ready q (ring (seg \<sigma>))"
  shows "hdr_message_size (ring (seg \<phi>)) (read_place q) = hdr_message_size (ring (seg \<sigma>)) (read_place q)"
    "hdr_num_readers (ring (seg \<phi>)) (read_place q) = hdr_num_readers (ring (seg \<sigma>)) (read_place q)"
    "poll_ready q (seg \<phi>) = poll_ready q (seg \<sigma>)"
    "wrapper_data wr = read_place q \<Longrightarrow>
       unat (wrapper_size wr) = unat (msg_total (ring (seg \<sigma>)) (read_place q)) \<Longrightarrow>
       get_as_view (seg \<phi>) wr = get_as_view (seg \<sigma>) wr"
proof -
  from ready_entry [OF R q(1,3)] obtain f where f: "e_start f = reader_at q"
    "final_state (e_state f)" "live A f" "read_place q = e_start f mod q_cap wq"
    and ok: "live_ok (q_cap wq) (ring (seg \<sigma>)) (card (behind A (e_start f))) f" by metis
  have inv: "spec_inv (q_cap wq) A" using R by (simp add: refines_def)
  have len: "18 \<le> e_len f" by (rule live_window(4) [OF inv f(3)])
  have same: "ring (seg \<phi>) i = ring (seg \<sigma>) i" if "read_place q \<le> i" "i < read_place q + e_len f" for i
    using message_untouched [OF F R q(1,2) f(1-3)] that f(4) by (simp add: in_region_def)
  note hdr = hdr_cong [of "read_place q" "ring (seg \<phi>)" "ring (seg \<sigma>)"]
  show "hdr_message_size (ring (seg \<phi>)) (read_place q) = hdr_message_size (ring (seg \<sigma>)) (read_place q)"
    "hdr_num_readers (ring (seg \<phi>)) (read_place q) = hdr_num_readers (ring (seg \<sigma>)) (read_place q)"
    "poll_ready q (seg \<phi>) = poll_ready q (seg \<sigma>)"
    using hdr same len by (simp_all add: poll_ready_def Let_def)
  assume wr: "wrapper_data wr = read_place q"
    "unat (wrapper_size wr) = unat (msg_total (ring (seg \<sigma>)) (read_place q))"
  moreover have "unat (msg_total (ring (seg \<sigma>)) (read_place q)) = e_len f"
    using ok f(4) by (simp add: live_ok_def Let_def)
  ultimately show "get_as_view (seg \<phi>) wr = get_as_view (seg \<sigma>) wr"
    using same len by (intro get_as_view_cong) simp_all
qed

text \<open>A poll has loaded a flag that is set.\<close>

lemma fine_load:
  assumes F: "rel_fine wq G \<phi> \<sigma>" and none: "pending \<phi> (Reader r) = None"
    and ok: "pend_ok wq \<sigma> (Reader r) p []" and p: "polling p"
  shows "rel_fine wq G (\<phi>\<lparr>pending := (pending \<phi>)(Reader r \<mapsto> p)\<rparr>) \<sigma>" (is "rel_fine wq G ?\<phi> \<sigma>")
proof -
  have "todo p = []" using p by (cases p) auto
  with ok p have pr: "pend_rel wq ?\<phi> \<sigma> (Reader r) p"
    unfolding pend_rel_def by (intro exI [of _ "[]"]) simp
  have "pend_rel wq ?\<phi> \<sigma> ag p'" if "pending ?\<phi> ag = Some p'" for ag p'
  proof (cases "ag = Reader r")
    case True
    with that pr show ?thesis by simp
  next
    case False
    with that rel_fineD(3) [OF F, of ag p'] show ?thesis by (simp add: pend_rel_def)
  qed
  moreover have "storing ?\<phi> ag = storing \<phi> ag" for ag
    using none p by (cases "ag = Reader r") (auto simp: storing_def)
  ultimately show ?thesis
    using rel_fineD(1,2,4) [OF F] by (simp add: rel_fine_def same_fields_def ring_rel_def)
qed

lemma fine_load_flags:
  assumes F: "rel_fine wq G \<phi> \<sigma>"
    and step: "pending \<phi> (Reader r) = None" "open_readers \<phi> r = Some q" "held \<phi> r = None"
     "reader_at q < seg_lo (seg \<phi>) + q_cap wq"
  shows "poll_flag q (seg \<phi>) = Some READY_FOR_CONSUMER \<Longrightarrow>
      rel_fine wq G (\<phi>\<lparr>pending := (pending \<phi>)(Reader r \<mapsto> Flag_Loaded)\<rparr>) \<sigma>"
    "poll_flag q (seg \<phi>) = Some ABORTED \<Longrightarrow>
      rel_fine wq G (\<phi>\<lparr>pending := (pending \<phi>)(Reader r \<mapsto> Abort_Loaded)\<rparr>) \<sigma>"
proof -
  obtain A where R: "refines wq G \<sigma> A" using reachable_refines [OF rel_fineD(1) [OF F]] .
  have same: "open_readers \<sigma> r = Some q" "held \<sigma> r = None" "reader_at q < seg_lo (seg \<sigma>) + q_cap wq"
    using rel_fineD(2) [OF F] step by (simp_all add: same_fields_def seg_lo_def)
  have "\<not> storing \<phi> (Reader r)" using step(1) by (simp add: storing_def)
  note true = flag_is_true [OF F R same(1) this _ _ same(3)]
  show "rel_fine wq G (\<phi>\<lparr>pending := (pending \<phi>)(Reader r \<mapsto> Flag_Loaded)\<rparr>) \<sigma>"
    if "poll_flag q (seg \<phi>) = Some READY_FOR_CONSUMER"
    using true [of 1] that same by (intro fine_load [OF F step(1)]) (simp_all add: poll_flag_def)
  show "rel_fine wq G (\<phi>\<lparr>pending := (pending \<phi>)(Reader r \<mapsto> Abort_Loaded)\<rparr>) \<sigma>"
    if "poll_flag q (seg \<phi>) = Some ABORTED"
    using true [of 2] that same by (intro fine_load [OF F step(1)]) (simp_all add: poll_flag_def)
qed

lemma loaded_facts:
  assumes F: "rel_fine wq G \<phi> \<sigma>" and p: "pending \<phi> (Reader r) = Some p" "polling p"
    and q: "open_readers \<phi> r = Some q"
  shows "open_readers \<sigma> r = Some q" "held \<sigma> r = None" "message_ready q (ring (seg \<sigma>))"
    "\<not> storing \<phi> (Reader r)" "poll_ready q (seg \<phi>) = poll_ready q (seg \<sigma>)"
    "p = Flag_Loaded \<Longrightarrow> hdr_commit_flag (ring (seg \<sigma>)) (read_place q) = 1"
    "p = Abort_Loaded \<Longrightarrow> hdr_commit_flag (ring (seg \<sigma>)) (read_place q) = 2"
proof -
  obtain A where R: "refines wq G \<sigma> A" using reachable_refines [OF rel_fineD(1) [OF F]] .
  obtain full where ok: "pend_ok wq \<sigma> (Reader r) p full"
    using rel_fineD(3) [OF F p(1)] by (auto simp: pend_rel_def)
  have o: "open_readers \<sigma> r = Some q" using rel_fineD(2) [OF F] q by (simp add: same_fields_def)
  with polling_reader [OF ok p(2)]
  show *: "open_readers \<sigma> r = Some q" "held \<sigma> r = None" "message_ready q (ring (seg \<sigma>))" by auto
  show **: "\<not> storing \<phi> (Reader r)" using p by (simp add: storing_def)
  show "poll_ready q (seg \<phi>) = poll_ready q (seg \<sigma>)" by (rule message_read(3) [OF F R *(1) ** *(3)])
  show "hdr_commit_flag (ring (seg \<sigma>)) (read_place q) = 1" if "p = Flag_Loaded" using ok o that by simp
  show "hdr_commit_flag (ring (seg \<sigma>)) (read_place q) = 2" if "p = Abort_Loaded" using ok o that by simp
qed

lemma fine_take_message:
  assumes F: "rel_fine wq G \<phi> \<sigma>"
    and step: "pending \<phi> (Reader r) = Some Flag_Loaded" "open_readers \<phi> r = Some q"
     "poll_ready q (seg \<phi>) = Inr (Ready_Message wr)"
  shows "\<exists>\<sigma>'. sys_step wq G \<sigma> \<sigma>' \<and> rel_fine wq G (\<phi>\<lparr>
    open_readers := (open_readers \<phi>)(r \<mapsto> q\<lparr>read_message_cnt := read_message_cnt q + 1\<rparr>),
    held := (held \<phi>)(r \<mapsto> wr), pending := (pending \<phi>)(Reader r := None)\<rparr>) \<sigma>'"
proof -
  obtain A where R: "refines wq G \<sigma> A" using reachable_refines [OF rel_fineD(1) [OF F]] .
  have same: "same_fields \<phi> \<sigma>" by (rule rel_fineD(2) [OF F])
  note l = loaded_facts [OF F step(1) _ step(2), simplified]
  let ?q = "q\<lparr>read_message_cnt := read_message_cnt q + 1\<rparr>"
  let ?\<sigma> = "\<sigma>\<lparr>seg := seg \<sigma>, open_readers := (open_readers \<sigma>)(r \<mapsto> ?q), held := (held \<sigma>)(r := Some wr)\<rparr>"
  have "poll_flag q (seg \<sigma>) = Some READY_FOR_CONSUMER"
    using l(6) by (simp add: poll_flag_def)
  then have "poll_once q (seg \<sigma>) = Inr (Poll_Return ?q (seg \<sigma>) (Some wr))"
    using reader_facts(2) [OF R l(1)] step(3) l(5) by (simp add: poll_once_by_parts)
  from sys_step.poll_return [OF l(1,2) this] have sstep: "sys_step wq G \<sigma> ?\<sigma>" .
  moreover have "rel_fine wq G (\<phi>\<lparr>open_readers := (open_readers \<phi>)(r \<mapsto> ?q),
      held := (held \<phi>)(r \<mapsto> wr), pending := (pending \<phi>)(Reader r := None)\<rparr>) ?\<sigma>"
    using same l(4) reachable_step [OF rel_fineD(1) [OF F] sstep]
    by (intro couple_no_ring [OF F, where X = "{Reader r}"])
      (auto simp: same_fields_def same_agent_def split: Agent.split)
  ultimately show ?thesis by blast
qed

subsection \<open>Releasing\<close>

text \<open>A message that is held, or found to be padding, is committed in the atomic state.\<close>

lemma about_facts:
  assumes F: "rel_fine wq G \<phi> \<sigma>" and R: "refines wq G \<sigma> A" and about: "about_to_release \<phi> r q a vs"
  shows "open_readers \<sigma> r = Some q" "\<not> storing \<phi> (Reader r)" "message_ready q (ring (seg \<sigma>))"
    "a = read_place q" "releases \<sigma> r q vs"
proof -
  have same: "same_fields \<phi> \<sigma>" by (rule rel_fineD(2) [OF F])
  have "open_readers \<sigma> r = Some q \<and> \<not> storing \<phi> (Reader r) \<and> message_ready q (ring (seg \<sigma>)) \<and>
    a = read_place q \<and> releases \<sigma> r q vs"
  proof (cases "held \<phi> r")
    case None
    then obtain p where p: "pending \<phi> (Reader r) = Some p" "polling p" "open_readers \<phi> r = Some q"
      and pad: "p = Flag_Loaded \<and> poll_ready q (seg \<phi>) = Inr Ready_Padding \<or> p = Abort_Loaded"
        "a = read_place q" "vs = []"
      using about by (auto simp: about_to_release_def)
    note l = loaded_facts [OF F p]
    from pad(1) have "hdr_commit_flag (ring (seg \<sigma>)) (read_place q) = 1 \<longrightarrow>
      hdr_type (ring (seg \<sigma>)) (read_place q) = message_type_value PADDING"
    proof
      assume "p = Flag_Loaded \<and> poll_ready q (seg \<phi>) = Inr Ready_Padding"
      then have "poll_ready q (seg \<sigma>) = Inr Ready_Padding" using l(5) by simp
      then show ?thesis by (auto simp: poll_ready_def assertE_def Let_def split: if_splits)
    qed (use l(7) in simp)
    with l pad show ?thesis by (simp add: releases_def)
  next
    case (Some wr)
    then have q: "open_readers \<sigma> r = Some q" and h: "held \<sigma> r = Some wr"
      and st: "\<not> storing \<phi> (Reader r)" and a: "a = wrapper_data wr" "vs = [get_as_view (seg \<phi>) wr]"
      using about same by (auto simp: about_to_release_def same_fields_def storing_def)
    obtain x e bs where e: "s_pos A r = Some x" "e \<in> set (s_log A)" "e_start e = x"
      "e_state e = Published_Entry bs" "wrapper_data wr = x mod q_cap wq"
      "unat (wrapper_size wr) = e_len e"
      using R h unfolding refines_def rel_held_def by blast
    have x: "e_start e = reader_at q" using e(1,3) reader_facts(1) [OF R q] by simp
    have st': "e_state e \<noteq> Reserved_Entry" using e(4) by simp
    have place: "read_place q = e_start e mod q_cap wq" using read_place_at [OF R q] x by simp
    have "live_ok (q_cap wq) (ring (seg \<sigma>)) (card (behind A (e_start e))) e"
      by (rule live_at_reader(2) [OF R q e(2) x st'])
    then have ready: "message_ready q (ring (seg \<sigma>))"
      and tot: "unat (msg_total (ring (seg \<sigma>)) (read_place q)) = e_len e"
      using e(4) x place by (auto simp: live_ok_def Let_def message_ready_def reader_at_def
          intro!: word_u64_eqI)
    have "wrapper_data wr = read_place q" "unat (wrapper_size wr) = unat (msg_total (ring (seg \<sigma>)) (read_place q))"
      using e(3,5,6) place tot by simp_all
    with message_read(4) [OF F R q st ready] q st ready a h show ?thesis by (simp add: releases_def)
  qed
  then show "open_readers \<sigma> r = Some q" "\<not> storing \<phi> (Reader r)" "message_ready q (ring (seg \<sigma>))"
    "a = read_place q" "releases \<sigma> r q vs" by simp_all
qed

text \<open>The step of the atomic machine: the release of a held message, or of padding by a poll.\<close>

lemma atomic_release:
  assumes R: "refines wq G \<sigma> A" and q: "open_readers \<sigma> r = Some q" "message_ready q (ring (seg \<sigma>))"
    and vs: "releases \<sigma> r q vs" and rel: "release_buffer q (seg \<sigma>) (read_place q) = Inr (q', s')"
  shows "sys_step wq G \<sigma> (\<sigma>\<lparr>seg := s', open_readers := (open_readers \<sigma>)(r \<mapsto> q'),
    held := (held \<sigma>)(r := None), received := (received \<sigma>)(r := received \<sigma> r @ vs)\<rparr>)"
proof (cases "held \<sigma> r")
  case (Some wr)
  then have "wrapper_release q (seg \<sigma>) wr = Inr (q', s', wr\<lparr>released := True\<rparr>)"
    using vs rel by (simp add: releases_def wrapper_release_def)
  from sys_step.release [OF q(1) Some this] show ?thesis using vs Some by (simp add: releases_def)
next
  case None
  then have pad: "hdr_commit_flag (ring (seg \<sigma>)) (read_place q) = 1 \<longrightarrow>
      hdr_type (ring (seg \<sigma>)) (read_place q) = message_type_value PADDING" "vs = []"
    using vs by (simp_all add: releases_def)
  from ready_entry [OF R q] obtain e where e: "live A e" "read_place q = e_start e mod q_cap wq"
    "live_ok (q_cap wq) (ring (seg \<sigma>)) (card (behind A (e_start e))) e" "e_start e = reader_at q" by metis
  have inv: "spec_inv (q_cap wq) A" and lo: "s_lo A = seg_lo (seg \<sigma>)"
    using R by (simp_all add: refines_def rel_offsets_def)
  have near: "reader_at q < seg_lo (seg \<sigma>) + q_cap wq"
    using live_in_window [OF inv e(1)] live_window(4) [OF inv e(1)] e(4) lo by (simp add: in_window_def e_end_def)
  have "unat (msg_total (ring (seg \<sigma>)) (read_place q)) = e_len e"
    using e(2,3) by (simp add: live_ok_def Let_def)
  then have small: "msg_total (ring (seg \<sigma>)) (read_place q) \<le> available_queue_size_bytes q"
    using live_window(5) [OF inv e(1)] reader_facts(4) [OF R q(1)]
    by (simp add: word_le_nat_alt q_cap_def)
  have "poll_once q (seg \<sigma>) = Inr (Poll_Again q' s')"
  proof (cases "hdr_commit_flag (ring (seg \<sigma>)) (read_place q) = 1")
    case True
    then have "poll_ready q (seg \<sigma>) = Inr Ready_Padding"
      using q(2) pad(1) small by (simp add: poll_ready_def message_ready_def msg_total_def Let_def)
    with True show ?thesis
      using reader_facts(2) [OF R q(1)] rel by (simp add: poll_once_by_parts poll_flag_def)
  next
    case False
    then have "hdr_commit_flag (ring (seg \<sigma>)) (read_place q) = 2" using q(2) by (simp add: message_ready_def)
    then show ?thesis
      using reader_facts(2) [OF R q(1)] rel by (simp add: poll_once_by_parts poll_flag_def)
  qed
  from sys_step.poll_again [OF q(1) None near this] show ?thesis
    using None pad(2) by (simp add: fun_upd_idem)
qed

lemma release_start_same:
  assumes "release_start q s a = Inr (q', t, sts)"
    and "hdr_message_size (ring s) a = hdr_message_size (ring s2) a"
      "hdr_num_readers (ring s) a = hdr_num_readers (ring s2) a"
  shows "t = exec_store (Store_Readers a (hdr_num_readers (ring s2) a - 1)) s"
    "release_start q s2 a = Inr (q', exec_store (Store_Readers a (hdr_num_readers (ring s2) a - 1)) s2, sts)"
    "q' = after_release a q s2" "sts = [] \<longleftrightarrow> hdr_num_readers (ring s2) a > 1"
    "sts \<noteq> [] \<Longrightarrow> sts = clear_stores a (unat (hdr_message_size (ring s2) a)) (msg_total (ring s2) a)"
  using assms
  by (auto simp: release_start_def Let_def bindE_eq_Inr after_release_def msg_total_def clear_stores_def
      split: if_splits)

lemma fine_count_release:
  assumes F: "rel_fine wq G \<phi> \<sigma>" and about: "about_to_release \<phi> r q a vs"
    and start: "release_start q (seg \<phi>) a = Inr (q', s', [])"
  shows "\<exists>\<sigma>'. sys_step wq G \<sigma> \<sigma>' \<and> rel_fine wq G (\<phi>\<lparr>seg := s',
    open_readers := (open_readers \<phi>)(r \<mapsto> q'), held := (held \<phi>)(r := None),
    received := (received \<phi>)(r := received \<phi> r @ vs), pending := (pending \<phi>)(Reader r := None)\<rparr>) \<sigma>'"
proof -
  obtain A where R: "refines wq G \<sigma> A" using reachable_refines [OF rel_fineD(1) [OF F]] .
  have same: "same_fields \<phi> \<sigma>" by (rule rel_fineD(2) [OF F])
  note ab = about_facts [OF F R about]
  let ?st = "Store_Readers a (hdr_num_readers (ring (seg \<sigma>)) a - 1)"
  have start': "s' = exec_store ?st (seg \<phi>)" "release_start q (seg \<sigma>) a = Inr (q', exec_store ?st (seg \<sigma>), [])"
    using release_start_same [OF start, of "seg \<sigma>"] message_read(1,2) [OF F R ab(1-3)] ab(4) by simp_all
  then have rel: "release_buffer q (seg \<sigma>) (read_place q) = Inr (q', exec_store ?st (seg \<sigma>))"
    using ab(4) by (simp add: release_by_stores release_finish_def)
  let ?\<sigma> = "\<sigma>\<lparr>seg := exec_store ?st (seg \<sigma>), open_readers := (open_readers \<sigma>)(r \<mapsto> q'),
    held := (held \<sigma>)(r := None), received := (received \<sigma>)(r := received \<sigma> r @ vs)\<rparr>"
  have step: "sys_step wq G \<sigma> ?\<sigma>" by (rule atomic_release [OF R ab(1,3,5) rel])
  from ready_entry [OF R ab(1,3)] obtain f where f: "live A f" "read_place q = e_start f mod q_cap wq"
    by metis
  have inv: "spec_inv (q_cap wq) A" using R by (simp add: refines_def)
  have small: "a + 16 < q_cap wq" using live_window(4,5) [OF inv f(1)] f(2) ab(4) by simp
  have "rel_fine wq G (\<phi>\<lparr>seg := s', open_readers := (open_readers \<phi>)(r \<mapsto> q'),
    held := (held \<phi>)(r := None), received := (received \<phi>)(r := received \<phi> r @ vs),
    pending := (pending \<phi>)(Reader r := None)\<rparr>) ?\<sigma>"
  proof (rule couple [OF F reachable_step [OF rel_fineD(1) [OF F] step], where X = "{Reader r}"
        and W = "{a + 16}"])
    show "i \<notin> {a + 16}" if "ag \<notin> {Reader r}" "pend_ok wq \<sigma> ag p full" "relies wq \<sigma> ag p i" for ag p full i
      using count_byte_apart [OF R ab(1,3) that(2) _ that(3)] that(1) ab(4) by auto
  qed (use same ab(2) start'(1) small ring_beyond [OF F] in
      \<open>auto simp: same_fields_def same_agent_def seg_lo_def set_num_readers_def split: Agent.split\<close>)
  with step show ?thesis by blast
qed

lemma fine_start_clearing:
  assumes F: "rel_fine wq G \<phi> \<sigma>" and about: "about_to_release \<phi> r q a vs"
    and start: "release_start q (seg \<phi>) a = Inr (q', s', sts)" "sts \<noteq> []"
  shows "rel_fine wq G (\<phi>\<lparr>seg := s', pending := (pending \<phi>)(Reader r \<mapsto> Releasing q' vs sts)\<rparr>) \<sigma>"
proof -
  obtain A where R: "refines wq G \<sigma> A" using reachable_refines [OF rel_fineD(1) [OF F]] .
  note ab = about_facts [OF F R about]
  note start' = release_start_same [OF start(1), of "seg \<sigma>"]
  note hdr = message_read(1,2) [OF F R ab(1-3), folded ab(4)]
  from ready_entry [OF R ab(1,3)] obtain f where f: "e_start f = reader_at q" "live A f"
    "read_place q = e_start f mod q_cap wq"
    "live_ok (q_cap wq) (ring (seg \<sigma>)) (card (behind A (e_start f))) f" by metis
  have rd: "rel_readers wq \<sigma> A" using R by (simp add: refines_def)
  have "r \<in> behind A (e_start f)" using reader_facts(1) [OF R ab(1)] f(1) by (simp add: behind_def)
  then have "0 < card (behind A (e_start f))"
    using behind_finite(1) [OF rd] by (auto simp: card_gt_0_iff)
  then have "0 < unat (hdr_num_readers (ring (seg \<sigma>)) a)"
    using f(3,4) ab(4) by (simp add: live_ok_def Let_def)
  moreover have "\<not> 1 < hdr_num_readers (ring (seg \<sigma>)) a" using start'(4) [OF hdr] start(2) by simp
  then have "\<not> 1 < unat (hdr_num_readers (ring (seg \<sigma>)) a)" by (simp add: word_less_nat_alt)
  ultimately have "unat (hdr_num_readers (ring (seg \<sigma>)) a) = 1" by linarith
  then have one: "hdr_num_readers (ring (seg \<sigma>)) a = 1" by (simp add: word_unat_eq_iff)
  let ?full = "Store_Readers a 0 # sts"
  have p: "pend_ok wq \<sigma> (Reader r) (Releasing q' vs sts) ?full"
    using ab one start'(3,5) [OF hdr] start(2) by simp
  have s': "s' = exec_stores [Store_Readers a 0] (seg \<phi>)" using start'(1) [OF hdr] one by simp
  show ?thesis unfolding s'
  proof (rule advance [OF F p])
    show "?full = [] @ [Store_Readers a 0] @ todo (Releasing q' vs sts)" by simp
    show "ring (seg \<phi>) i = stores_mem [] (ring (seg \<sigma>)) i" if "in_span (span_of wq \<sigma> (Reader r)) i" for i
      using span_untouched [OF F p ab(2)] that by (simp add: relies_def)
  qed (use start(2) in simp_all)
qed

text \<open>A release in progress, as the atomic machine sees it: its start, and what is to be stored.\<close>

lemma clearing_start:
  assumes R: "refines wq G \<sigma> A" and p: "pend_ok wq \<sigma> (Reader r) (Releasing q' vs sts) full"
  obtains q e where "open_readers \<sigma> r = Some q" "message_ready q (ring (seg \<sigma>))" "releases \<sigma> r q vs"
    "e \<in> set (s_log A)" "e_start e = reader_at q" "final_state (e_state e)"
    "read_place q = e_start e mod q_cap wq"
    "unat (abs_read_offset q') = e_end e"
    "\<And>s. release_buffer q (seg \<sigma>) (read_place q) = Inr s \<longleftrightarrow>
       s = (q', exec_stores full (seg \<sigma>)) \<and> read_offset_of (exec_stores full (seg \<sigma>)) = abs_read_offset q'"
proof -
  obtain q where q: "open_readers \<sigma> r = Some q" "message_ready q (ring (seg \<sigma>))"
    and one: "hdr_num_readers (ring (seg \<sigma>)) (read_place q) = 1"
    and q': "q' = after_release (read_place q) q (seg \<sigma>)" and vs: "releases \<sigma> r q vs"
    and full: "full = Store_Readers (read_place q) 0 # clear_stores (read_place q)
      (unat (hdr_message_size (ring (seg \<sigma>)) (read_place q))) (msg_total (ring (seg \<sigma>)) (read_place q))"
    using p by auto
  from ready_entry [OF R q] obtain e where e: "e \<in> set (s_log A)" "e_start e = reader_at q"
    "final_state (e_state e)" "live A e" "read_place q = e_start e mod q_cap wq"
    "live_ok (q_cap wq) (ring (seg \<sigma>)) (card (behind A (e_start e))) e" .
  have inv: "spec_inv (q_cap wq) A" using R by (simp add: refines_def)
  have tot: "unat (msg_total (ring (seg \<sigma>)) (read_place q)) = e_len e"
    using e(5,6) by (simp add: live_ok_def Let_def)
  then have "msg_total (ring (seg \<sigma>)) (read_place q) \<le> available_queue_size_bytes q"
    using live_window(5) [OF inv e(4)] reader_facts(4) [OF R q(1)]
    by (simp add: word_le_nat_alt q_cap_def)
  then have "release_start q (seg \<sigma>) (read_place q) = Inr (q',
      exec_store (Store_Readers (read_place q) 0) (seg \<sigma>), tl full)"
    using one q' full by (simp add: release_start_def Let_def read_place_def after_release_def msg_total_def)
  moreover have "exec_stores (tl full) (exec_store (Store_Readers (read_place q) 0) (seg \<sigma>))
      = exec_stores full (seg \<sigma>)"
    by (simp add: full)
  moreover have "tl full \<noteq> []" by (simp add: full clear_stores_def)
  ultimately have rel: "release_buffer q (seg \<sigma>) (read_place q) = Inr s \<longleftrightarrow>
       s = (q', exec_stores full (seg \<sigma>)) \<and> read_offset_of (exec_stores full (seg \<sigma>)) = abs_read_offset q'"
    for s
    by (auto simp: release_by_stores release_finish_def bindE_eq_Inr simp del: exec_store.simps)
  have "reader_at q + e_len e < 2 ^ 64"
    using spec_log_facts(3) [OF inv e(1)] e(2) R by (simp add: refines_def rel_offsets_def e_end_def)
  then have "unat (abs_read_offset q') = e_end e"
    using tot e(2) by (simp add: q' after_release_def reader_at_def unat_add_u64 e_end_def)
  with that q vs e rel show ?thesis by blast
qed

lemma fine_cleared:
  assumes F: "rel_fine wq G \<phi> \<sigma>" and p: "pending \<phi> (Reader r) = Some (Releasing q' vs [st])"
    and fin: "release_finish q' (seg \<phi>) [st] = Inr (q'', s')"
  shows "\<exists>\<sigma>'. sys_step wq G \<sigma> \<sigma>' \<and> rel_fine wq G (\<phi>\<lparr>seg := s',
    open_readers := (open_readers \<phi>)(r \<mapsto> q''), held := (held \<phi>)(r := None),
    received := (received \<phi>)(r := received \<phi> r @ vs), pending := (pending \<phi>)(Reader r := None)\<rparr>) \<sigma>'"
proof -
  obtain A where R: "refines wq G \<sigma> A" using reachable_refines [OF rel_fineD(1) [OF F]] .
  have same: "same_fields \<phi> \<sigma>" by (rule rel_fineD(2) [OF F])
  have storing: "\<not> polling (Releasing q' vs [st])" by simp
  obtain full ex where ok: "pend_ok wq \<sigma> (Reader r) (Releasing q' vs [st]) full"
      "full = ex @ todo (Releasing q' vs [st])"
    and mem: "\<And>i. in_span (span_of wq \<sigma> (Reader r)) i \<Longrightarrow>
      ring (seg \<phi>) i = stores_mem ex (ring (seg \<sigma>)) i"
    by (rule storing_rel [OF F p storing]) blast
  from R ok(1) obtain q e where q: "open_readers \<sigma> r = Some q" "message_ready q (ring (seg \<sigma>))"
    and vs: "releases \<sigma> r q vs" and e: "e \<in> set (s_log A)" "e_start e = reader_at q"
    and at': "unat (abs_read_offset q') = e_end e"
    and rel: "\<And>s. release_buffer q (seg \<sigma>) (read_place q) = Inr s \<longleftrightarrow>
       s = (q', exec_stores full (seg \<sigma>)) \<and> read_offset_of (exec_stores full (seg \<sigma>)) = abs_read_offset q'"
    by (rule clearing_start) blast
  have s': "q'' = q'" "s' = exec_store st (seg \<phi>)" "read_offset_of (exec_store st (seg \<phi>)) = abs_read_offset q'"
    using fin by (auto simp: release_finish_def bindE_eq_Inr)
  note fields = last_store_fields [OF ok(1) ok(2) [unfolded todo.simps], of "seg \<phi>" "seg \<sigma>"]
  have assertion: "read_offset_of (exec_stores full (seg \<sigma>)) = abs_read_offset q'"
    using fields s'(3) same by (simp add: same_fields_def)
  let ?\<sigma> = "\<sigma>\<lparr>seg := exec_stores full (seg \<sigma>), open_readers := (open_readers \<sigma>)(r \<mapsto> q'),
    held := (held \<sigma>)(r := None), received := (received \<sigma>)(r := received \<sigma> r @ vs)\<rparr>"
  have step: "sys_step wq G \<sigma> ?\<sigma>"
    by (rule atomic_release [OF R q vs]) (use rel assertion in blast)
  have "seg_lo (seg \<sigma>) \<le> seg_lo (exec_stores full (seg \<sigma>))"
  proof -
    have "seg_lo (seg \<sigma>) \<le> reader_at q"
      using reader_facts(7) [OF R q(1)] R by (simp add: refines_def rel_offsets_def)
    also have "reader_at q \<le> unat (abs_read_offset q')" using at' e(2) by (simp add: e_end_def)
    finally show ?thesis using assertion by (simp add: seg_lo_def)
  qed
  then have "rel_fine wq G (\<phi>\<lparr>seg := s', open_readers := (open_readers \<phi>)(r \<mapsto> q''),
      held := (held \<phi>)(r := None), received := (received \<phi>)(r := received \<phi> r @ vs),
      pending := (pending \<phi>)(Reader r := None)\<rparr>) ?\<sigma>"
    using same fields s' mem
    by (intro finish [OF F p _ _ ok _ step])
      (auto simp: same_fields_def same_agent_def split: Agent.split)
  with step show ?thesis by blast
qed

subsection \<open>Leaving\<close>

definition same_seg :: "Segment \<Rightarrow> Segment \<Rightarrow> bool" where
  "same_seg s s' \<longleftrightarrow>
     packed_of s = packed_of s' \<and> read_offset_of s = read_offset_of s' \<and> count_of s = count_of s' \<and>
     writers_of s = writers_of s' \<and> ring s = ring s'"

lemma release_buffer_same:
  assumes "same_seg s s'" "release_buffer q s a = Inr (q', t)"
  shows "\<exists>t'. release_buffer q s' a = Inr (q', t') \<and> same_seg t t'"
  using assms
  by (auto simp: release_buffer_eq same_seg_def after_release_def after_last_release_def
      split: if_splits)

lemma decrement_readers_same:
  "same_seg s s' \<Longrightarrow> decrement_readers_until n q s x = Some (Inr (q', t)) \<Longrightarrow>
   \<exists>t'. decrement_readers_until n q s' x = Some (Inr (q', t')) \<and> same_seg t t'"
proof (induction n arbitrary: q s s')
  case 0
  then show ?case by simp
next
  case (Suc n)
  let ?a = "unat (abs_read_offset q mod available_queue_size_bytes q)"
  have ring: "ring s = ring s'" using Suc.prems(1) by (simp add: same_seg_def)
  show ?case
  proof (cases "abs_read_offset q \<le> x \<and>
      commit_flag_of_byte (hdr_commit_flag (ring s) ?a) = Some READY_FOR_CONSUMER")
    case False
    with Suc.prems ring show ?thesis by (auto simp: Let_def split: if_splits)
  next
    case True
    obtain q1 t1 where rel: "release_buffer q s ?a = Inr (q1, t1)"
      and rest: "decrement_readers_until n q1 t1 x = Some (Inr (q', t))"
      using True Suc.prems(2) by (auto simp: Let_def split: sum.splits)
    obtain t1' where "release_buffer q s' ?a = Inr (q1, t1')" "same_seg t1 t1'"
      using release_buffer_same [OF Suc.prems(1) rel] by blast
    with Suc.IH [OF _ rest] True ring show ?thesis by (auto simp: Let_def)
  qed
qed

lemma rings_at_rest:
  assumes F: "rel_fine wq G \<phi> \<sigma>" and "pending \<phi> = Map.empty"
  shows "ring (seg \<phi>) = ring (seg \<sigma>)"
proof
  fix i
  obtain A where "refines wq G \<sigma> A" using reachable_refines [OF rel_fineD(1) [OF F]] .
  then have "ring (seg \<sigma>) i = 0" if "q_cap wq \<le> i"
    using that by (simp add: refines_def rel_mem_def)
  then show "ring (seg \<phi>) i = ring (seg \<sigma>) i"
    using rel_fineD(4) [OF F] assms(2)
    by (cases "i < q_cap wq") (auto simp: ring_rel_def storing_def)
qed

lemma fine_leave:
  assumes F: "rel_fine wq G \<phi> \<sigma>"
    and step: "pending \<phi> = Map.empty" "open_readers \<phi> r = Some q" "held \<phi> r = None"
     "threads \<phi> = Map.empty" "seg_hi (seg \<phi>) < seg_lo (seg \<phi>) + q_cap wq"
     "\<forall>x\<in>dropped \<phi>. x < reader_at q"
     "modify_readers False (seg \<phi>) = (s0, wr)"
     "decrement_readers_until n q s0 (write_offset wr) = Some (Inr (q', s'))"
  shows "\<exists>\<sigma>'. sys_step wq G \<sigma> \<sigma>' \<and>
    rel_fine wq G (\<phi>\<lparr>seg := s', open_readers := (open_readers \<phi>)(r := None)\<rparr>) \<sigma>'"
proof -
  obtain A where R: "refines wq G \<sigma> A" using reachable_refines [OF rel_fineD(1) [OF F]] .
  have same: "same_fields \<phi> \<sigma>" by (rule rel_fineD(2) [OF F])
  have rings: "ring (seg \<phi>) = ring (seg \<sigma>)" by (rule rings_at_rest [OF F step(1)])
  obtain v where s0: "s0 = set_packed v (seg \<phi>)" "modify_readers False (seg \<sigma>) = (set_packed v (seg \<sigma>), wr)"
    using step(7) same by (auto simp: modify_readers_def same_fields_def split: prod.splits)
  have "same_seg s0 (set_packed v (seg \<sigma>))"
    using same rings by (simp add: same_seg_def same_fields_def s0)
  from decrement_readers_same [OF this step(8)] obtain t' where
    drain: "decrement_readers_until n q (set_packed v (seg \<sigma>)) (write_offset wr) = Some (Inr (q', t'))"
    and t': "same_seg s' t'" by blast
  let ?\<sigma> = "\<sigma>\<lparr>seg := t', open_readers := (open_readers \<sigma>)(r := None)\<rparr>"
  have "sys_step wq G \<sigma> ?\<sigma>"
    using step(2-6) same
    by (intro sys_step.leave [OF _ _ _ _ _ s0(2) drain]) (simp_all add: same_fields_def seg_hi_def seg_lo_def)
  moreover have \<sigma>': "reachable wq G ?\<sigma>" by (rule reachable_step [OF rel_fineD(1) [OF F] calculation])
  moreover have "rel_fine wq G (\<phi>\<lparr>seg := s', open_readers := (open_readers \<phi>)(r := None)\<rparr>) ?\<sigma>"
  proof -
    obtain A' where "refines wq G ?\<sigma> A'" using reachable_refines [OF \<sigma>'] .
    then have "ring t' i = 0" if "q_cap wq \<le> i" for i
      using that by (simp add: refines_def rel_mem_def)
    with t' same \<sigma>' step(1) show ?thesis
      by (simp add: rel_fine_def same_fields_def ring_rel_def storing_def same_seg_def)
  qed
  ultimately show ?thesis by blast
qed

section \<open>The simulation\<close>

lemma fine_step_sim:
  assumes F: "rel_fine wq G \<phi> \<sigma>" and step: "fine_step wq G \<phi> \<phi>'"
  shows "\<exists>\<sigma>'. (sys_step wq G)\<^sup>*\<^sup>* \<sigma> \<sigma>' \<and> rel_fine wq G \<phi>' \<sigma>'"
  using step
proof cases
  case (reserve w sz s' t)
  with fine_reserve [OF F reserve(2-8)] show ?thesis by blast
next
  case (start_placing w sz t b sts)
  with fine_start_placing [OF F start_placing(2-5)] show ?thesis by blast
next
  case (start_publishing w b data)
  with fine_start_publishing [OF F start_publishing(2-4)] show ?thesis by blast
next
  case (start_aborting w b)
  with fine_start_aborting [OF F start_aborting(2,3)] show ?thesis by blast
next
  case (aborted w st b)
  with fine_aborted [OF F aborted(2,3)] show ?thesis by blast
next
  case (store ag p st sts)
  with fine_store [OF F store(2-4)] show ?thesis by blast
next
  case (placed w b st)
  with fine_placed [OF F placed(2)] show ?thesis by blast
next
  case (published w data st b)
  with fine_published [OF F published(2,3)] show ?thesis by blast
next
  case (join r s' wr q0)
  with fine_join [OF F join(2-6)] show ?thesis by blast
next
  case (load_flag r q)
  with fine_load_flags(1) [OF F load_flag(2-4,7,6)] show ?thesis by blast
next
  case (load_aborted r q)
  with fine_load_flags(2) [OF F load_aborted(2-4,7,6)] show ?thesis by blast
next
  case (take_message r q wr)
  with fine_take_message [OF F take_message(2-4)] show ?thesis by blast
next
  case (take_nothing r q)
  have "poll_ready q (seg \<sigma>) = Inr Ready_Stale" "message_ready q (ring (seg \<sigma>))"
    "hdr_commit_flag (ring (seg \<sigma>)) (read_place q) = 1"
    using loaded_facts [OF F take_nothing(2) _ take_nothing(3), simplified] take_nothing(4) by simp_all
  then show ?thesis by (auto simp: poll_ready_def message_ready_def assertE_def Let_def split: if_splits)
next
  case (count_release r q a vs q' s')
  with fine_count_release [OF F count_release(2,3)] show ?thesis by blast
next
  case (start_clearing r q a vs q' s' sts)
  with fine_start_clearing [OF F start_clearing(2-4)] show ?thesis by blast
next
  case (cleared r q' vs st q'' s')
  with fine_cleared [OF F cleared(2,3)] show ?thesis by blast
next
  case (leave r q s0 wr n q' s')
  with fine_leave [OF F leave(2-9)] show ?thesis by blast
next
  case writer_opens
  with fine_writers [OF F, of "\<lambda>n. n + 1"] show ?thesis by blast
next
  case writer_closes
  with fine_writers [OF F, of "\<lambda>n. n - 1"] show ?thesis by blast
qed

lemma fine_init_sim:
  assumes "fine_init wq G \<phi>"
  shows "\<exists>\<sigma>. queue_init wq G \<sigma> \<and> rel_fine wq G \<phi> \<sigma>"
proof -
  let ?\<sigma> = "\<lparr>seg = seg \<phi>, open_readers = open_readers \<phi>, held = held \<phi>, threads = threads \<phi>,
    received = received \<phi>, joined = joined \<phi>, sent = sent \<phi>,
    dropped = dropped \<phi>\<rparr>"
  have "queue_init wq G ?\<sigma>" using assms by (simp add: fine_init_def queue_init_def sys_init_def)
  moreover from this have "rel_fine wq G \<phi> ?\<sigma>"
    using assms reachable_init
    by (simp add: rel_fine_def same_fields_def ring_rel_def fine_init_def storing_def init_new_file_def)
  ultimately show ?thesis by blast
qed

interpretation fine: forward_simulation "fine_init wq G" "fine_step wq G" "queue_init wq G"
    "sys_step wq G" "rel_fine wq G" for wq G
  by unfold_locales (blast intro: fine_init_sim, rule fine_step_sim)

definition fine_reachable :: "IpcQueue \<Rightarrow> nat set \<Rightarrow> Fine \<Rightarrow> bool" where
  "fine_reachable wq G \<phi> \<longleftrightarrow> (\<exists>\<phi>0. fine_init wq G \<phi>0 \<and> (fine_step wq G)\<^sup>*\<^sup>* \<phi>0 \<phi>)"

lemma fine_reachable_rel:
  assumes "fine_reachable wq G \<phi>"
  obtains \<sigma> where "rel_fine wq G \<phi> \<sigma>"
  using assms fine.reachable_sim unfolding fine_reachable_def by metis

lemma fine_reachable_steps:
  "fine_reachable wq G \<phi> \<Longrightarrow> (fine_step wq G)\<^sup>*\<^sup>* \<phi> \<phi>' \<Longrightarrow> fine_reachable wq G \<phi>'"
  unfolding fine_reachable_def by (meson rtranclp_trans)

end
