(* ===== verification/Ipc_Fine_Guarantees.thy ===== *)
theory Ipc_Fine_Guarantees
  imports Ipc_Fine_Refinement
begin

text \<open>
  What holds between the stores: the guarantees of the queue for every state that the machine of
  \<open>Ipc_Fine_Grained\<close> reaches, and the converse of the simulation, that runs of atomic operations
  are among its runs.
\<close>

section \<open>Atomic operations as runs\<close>

text \<open>An atomic state, with no operation in progress.\<close>

definition at_rest :: "Sys \<Rightarrow> Fine" where
  "at_rest \<sigma> =
     \<lparr>seg = seg \<sigma>, open_readers = open_readers \<sigma>, held = held \<sigma>, threads = threads \<sigma>,
      received = received \<sigma>, joined = joined \<sigma>, sent = sent \<sigma>, dropped = dropped \<sigma>, pending = Map.empty\<rparr>"

lemma at_rest_simps [simp]:
  "seg (at_rest \<sigma>) = seg \<sigma>" "open_readers (at_rest \<sigma>) = open_readers \<sigma>"
  "held (at_rest \<sigma>) = held \<sigma>" "threads (at_rest \<sigma>) = threads \<sigma>"
  "received (at_rest \<sigma>) = received \<sigma>" "joined (at_rest \<sigma>) = joined \<sigma>" "sent (at_rest \<sigma>) = sent \<sigma>"
  "dropped (at_rest \<sigma>) = dropped \<sigma>"
  "pending (at_rest \<sigma>) = Map.empty"
  by (simp_all add: at_rest_def)

lemma fine_eqI:
  fixes \<phi> \<psi> :: Fine
  assumes "seg \<phi> = seg \<psi>" "open_readers \<phi> = open_readers \<psi>" "held \<phi> = held \<psi>"
    "threads \<phi> = threads \<psi>" "received \<phi> = received \<psi>" "joined \<phi> = joined \<psi>" "sent \<phi> = sent \<psi>"
    "dropped \<phi> = dropped \<psi>" "pending \<phi> = pending \<psi>"
  shows "\<phi> = \<psi>"
  using assms by (cases \<phi>; cases \<psi>) simp

text \<open>The stores of an operation, all but the last, one after the other.\<close>

text \<open>A step of one agent: the operations and the local state of the others stay as they are.\<close>

definition own_step :: "IpcQueue \<Rightarrow> nat set \<Rightarrow> Agent \<Rightarrow> Fine \<Rightarrow> Fine \<Rightarrow> bool" where
  "own_step wq G ag \<phi> \<phi>' \<longleftrightarrow> fine_step wq G \<phi> \<phi>' \<and>
     (\<forall>ag'. ag' \<noteq> ag \<longrightarrow> pending \<phi>' ag' = pending \<phi> ag') \<and>
     (\<forall>w. ag \<noteq> Writer w \<longrightarrow> threads \<phi>' w = threads \<phi> w) \<and>
     (\<forall>r. ag \<noteq> Reader r \<longrightarrow> open_readers \<phi>' r = open_readers \<phi> r \<and> held \<phi>' r = held \<phi> r \<and>
        received \<phi>' r = received \<phi> r)"

lemma own_steps: "(own_step wq G ag)\<^sup>*\<^sup>* \<phi> \<phi>' \<Longrightarrow> (fine_step wq G)\<^sup>*\<^sup>* \<phi> \<phi>'"
  by (erule rtranclp_mono [THEN predicate2D, rotated]) (auto simp: own_step_def)

lemma own_stores_run:
  assumes "pending \<phi> ag = Some p" "todo p = sts @ [st]" "\<not> polling p"
  shows "(own_step wq G ag)\<^sup>*\<^sup>* \<phi> (\<phi>\<lparr>seg := exec_stores sts (seg \<phi>),
    pending := (pending \<phi>)(ag \<mapsto> with_todo [st] p)\<rparr>)"
  using assms
proof (induction sts arbitrary: \<phi> p)
  case Nil
  then have "with_todo [st] p = p" by (cases p) auto
  then have "\<phi>\<lparr>seg := exec_stores [] (seg \<phi>), pending := (pending \<phi>)(ag \<mapsto> with_todo [st] p)\<rparr> = \<phi>"
    using Nil by (intro fine_eqI) (simp_all add: fun_upd_idem)
  then show ?case by (simp del: fun_upd_apply exec_stores_simps)
next
  case (Cons s sts)
  let ?p = "with_todo (sts @ [st]) p"
  let ?\<phi> = "\<phi>\<lparr>seg := exec_store s (seg \<phi>), pending := (pending \<phi>)(ag \<mapsto> ?p)\<rparr>"
  have "own_step wq G ag \<phi> ?\<phi>"
    using fine_step.store [OF Cons.prems(1), of s "sts @ [st]"] Cons.prems(2)
    by (simp add: own_step_def)
  moreover have "(own_step wq G ag)\<^sup>*\<^sup>* ?\<phi> (?\<phi>\<lparr>seg := exec_stores sts (seg ?\<phi>),
      pending := (pending ?\<phi>)(ag \<mapsto> with_todo [st] ?p)\<rparr>)"
    using Cons.prems(3) by (intro Cons.IH) (simp_all add: todo_with_todo)
  moreover have "with_todo [st] ?p = with_todo [st] p" by (cases p) simp_all
  ultimately show ?case by (simp add: converse_rtranclp_into_rtranclp del: fun_upd_apply)
qed

lemmas stores_run = own_stores_run [THEN own_steps]

lemma releasing_run:
  assumes about: "about_to_release \<phi> r q a vs" and rel: "release_buffer q (seg \<phi>) a = Inr (q', s')"
  shows "(fine_step wq G)\<^sup>*\<^sup>* \<phi> (\<phi>\<lparr>seg := s', open_readers := (open_readers \<phi>)(r \<mapsto> q'),
    held := (held \<phi>)(r := None), received := (received \<phi>)(r := received \<phi> r @ vs),
    pending := (pending \<phi>)(Reader r := None)\<rparr>)" (is "_\<^sup>*\<^sup>* \<phi> ?\<phi>'")
proof -
  obtain q1 s1 sts where start: "release_start q (seg \<phi>) a = Inr (q1, s1, sts)"
    and fin: "release_finish q1 s1 sts = Inr (q', s')"
    using rel by (auto simp: release_by_stores bindE_eq_Inr)
  show ?thesis
  proof (cases sts rule: rev_exhaust)
    case Nil
    with fin have "q1 = q'" "s1 = s'" by (simp_all add: release_finish_def)
    with fine_step.count_release [OF about, of q' s' wq G] start Nil show ?thesis
      by (simp add: r_into_rtranclp)
  next
    case (snoc ts st)
    let ?p = "Releasing q1 vs sts"
    let ?\<phi>1 = "\<phi>\<lparr>seg := s1, pending := (pending \<phi>)(Reader r \<mapsto> ?p)\<rparr>"
    let ?\<phi>2 = "?\<phi>1\<lparr>seg := exec_stores ts (seg ?\<phi>1), pending := (pending ?\<phi>1)(Reader r \<mapsto> with_todo [st] ?p)\<rparr>"
    have "fine_step wq G \<phi> ?\<phi>1"
      using fine_step.start_clearing [OF about start] snoc by simp
    moreover have "(fine_step wq G)\<^sup>*\<^sup>* ?\<phi>1 ?\<phi>2"
      by (rule stores_run) (use snoc in simp_all)
    moreover have "fine_step wq G ?\<phi>2 ?\<phi>'"
      using fine_step.cleared [of ?\<phi>2 r q1 vs st q' s' wq G] fin snoc
      by (simp add: release_finish_def)
    ultimately show ?thesis by (meson converse_rtranclp_into_rtranclp rtranclp.rtrancl_into_rtrancl)
  qed
qed

lemma published_near:
  assumes R: "refines wq G \<sigma> A" and q: "open_readers \<sigma> r = Some q" "message_ready q (ring (seg \<sigma>))"
  shows "reader_at q < seg_lo (seg \<sigma>) + q_cap wq"
proof -
  from ready_entry [OF R q] obtain e where e: "e_start e = reader_at q" "live A e" by metis
  have inv: "spec_inv (q_cap wq) A" and off: "rel_offsets wq G (seg \<sigma>) A"
    using R by (simp_all add: refines_def)
  show ?thesis using live_window(3,4) [OF inv e(2)] e(1) off by (simp add: e_end_def rel_offsets_def)
qed

text \<open>The flags that a reader finds.\<close>

lemma entry_flag_final: "final_state s \<Longrightarrow> entry_flag s \<in> {1, 2}"
  by (cases s) auto

lemma flag_values:
  assumes R: "refines wq G \<sigma> A" and q: "open_readers \<sigma> r = Some q"
  shows "hdr_commit_flag (ring (seg \<sigma>)) (read_place q) \<in> {0, 1, 2}"
proof (cases "\<exists>e\<in>set (s_log A). e_start e = reader_at q \<and> final_state (e_state e)")
  case False
  then have "\<forall>e\<in>set (s_log A). e_start e = reader_at q \<longrightarrow> \<not> final_state (e_state e)" by blast
  from flag_at_reader [OF R q this] read_place_at [OF R q] entry_flag_final show ?thesis by fastforce
next
  case True
  then obtain e where e: "e \<in> set (s_log A)" "e_start e = reader_at q" "final_state (e_state e)" by blast
  then have "e_state e \<noteq> Reserved_Entry" by auto
  from live_at_reader(2) [OF R q e(1,2) this] read_place_at [OF R q] e(2) entry_flag_final [OF e(3)]
  show ?thesis by (auto simp: live_ok_def Let_def)
qed

lemma poll_flag_cases:
  assumes R: "refines wq G \<sigma> A" and q: "open_readers \<sigma> r = Some q"
  obtains "poll_flag q (seg \<sigma>) = Some NOT_READY" | "poll_flag q (seg \<sigma>) = Some READY_FOR_CONSUMER"
    | "poll_flag q (seg \<sigma>) = Some ABORTED"
  using flag_values [OF R q] by (auto simp: poll_flag_def)

lemma placing_run:
  assumes "pending \<phi> (Writer w) = None" "threads \<phi> w = Some (Waiting sz t)"
    "\<not> must_wait wq (seg \<phi>) t" "place_claim wq (seg \<phi>) sz t = Inr (s', b)"
  shows "(fine_step wq G)\<^sup>*\<^sup>* \<phi> (\<phi>\<lparr>seg := s', threads := (threads \<phi>)(w := map_option Holding b),
    pending := (pending \<phi>)(Writer w := None)\<rparr>)" (is "_\<^sup>*\<^sup>* \<phi> ?\<phi>'")
proof -
  obtain sts where start: "place_start wq sz t = Inr (b, sts)" and s': "s' = exec_stores sts (seg \<phi>)"
    using assms(4) by (auto simp: place_by_stores bindE_eq_Inr)
  obtain ts st where snoc: "sts = ts @ [st]"
    using start by (cases sts rule: rev_exhaust) (auto simp: place_start_def place_stores_def
        skip_stores_def Let_def bindE_eq_Inr split: if_splits)
  let ?\<phi>1 = "\<phi>\<lparr>pending := (pending \<phi>)(Writer w \<mapsto> Placing b sts)\<rparr>"
  let ?\<phi>2 = "?\<phi>1\<lparr>seg := exec_stores ts (seg ?\<phi>1),
    pending := (pending ?\<phi>1)(Writer w \<mapsto> with_todo [st] (Placing b sts))\<rparr>"
  have "fine_step wq G \<phi> ?\<phi>1" by (rule fine_step.start_placing [OF assms(1-3) start])
  moreover have "(fine_step wq G)\<^sup>*\<^sup>* ?\<phi>1 ?\<phi>2" by (rule stores_run) (use snoc in simp_all)
  moreover have "fine_step wq G ?\<phi>2 ?\<phi>'"
    using fine_step.placed [of ?\<phi>2 w b st wq G] by (simp add: s' snoc)
  ultimately show ?thesis by (meson converse_rtranclp_into_rtranclp rtranclp.rtrancl_into_rtrancl)
qed

lemma publishing_run:
  assumes "pending \<phi> (Writer w) = None" "threads \<phi> w = Some (Holding b)"
    "write_to_buffer (seg \<phi>) b data = Inr s'"
  shows "(fine_step wq G)\<^sup>*\<^sup>* \<phi> (\<phi>\<lparr>seg := s', threads := (threads \<phi>)(w := None),
    sent := (sent \<phi>)(claimed_at (seg \<phi>) b \<mapsto> payload_after_write (seg \<phi>) b data),
    pending := (pending \<phi>)(Writer w := None)\<rparr>)" (is "_\<^sup>*\<^sup>* \<phi> ?\<phi>'")
proof -
  let ?ts = "copy_stores (wrapper_data b + 18) data" and ?st = "Store_Flag (wrapper_data b) READY_FOR_CONSUMER"
  let ?p = "Publishing data (publish_stores (wrapper_data b) data)"
  have len: "length data + unat sizeof_MessageHeader \<le> unat (wrapper_size b)"
    and s': "s' = exec_store ?st (exec_stores ?ts (seg \<phi>))"
    using assms(3) by (auto simp: write_by_stores bindE_eq_Inr publish_stores_def)
  let ?\<phi>1 = "\<phi>\<lparr>pending := (pending \<phi>)(Writer w \<mapsto> ?p)\<rparr>"
  let ?\<phi>2 = "?\<phi>1\<lparr>seg := exec_stores ?ts (seg ?\<phi>1),
    pending := (pending ?\<phi>1)(Writer w \<mapsto> with_todo [?st] ?p)\<rparr>"
  have "fine_step wq G \<phi> ?\<phi>1" by (rule fine_step.start_publishing [OF assms(1,2) len])
  moreover have "(fine_step wq G)\<^sup>*\<^sup>* ?\<phi>1 ?\<phi>2" by (rule stores_run) (simp_all add: publish_stores_def)
  moreover have "fine_step wq G ?\<phi>2 ?\<phi>'"
  proof -
    have "claimed_at (exec_stores ?ts (seg \<phi>)) b = claimed_at (seg \<phi>) b"
      by (simp add: exec_copy_stores claimed_at_def)
    moreover have "payload_after_write (exec_stores ?ts (seg \<phi>)) b data = payload_after_write (seg \<phi>) b data"
      using len by (simp add: exec_copy_stores payload_after_write_def read_bytes_write_prefix)
    ultimately show ?thesis
      using fine_step.published [of ?\<phi>2 w data ?st b wq G] assms(2) by (simp add: s')
  qed
  ultimately show ?thesis by (meson converse_rtranclp_into_rtranclp rtranclp.rtrancl_into_rtrancl)
qed

lemma aborting_run:
  assumes "pending \<phi> (Writer w) = None" "threads \<phi> w = Some (Holding b)"
  shows "(fine_step wq G)\<^sup>*\<^sup>* \<phi> (\<phi>\<lparr>seg := wrapper_abort (seg \<phi>) b, threads := (threads \<phi>)(w := None),
    dropped := insert (claimed_at (seg \<phi>) b) (dropped \<phi>),
    pending := (pending \<phi>)(Writer w := None)\<rparr>)" (is "_\<^sup>*\<^sup>* \<phi> ?\<phi>'")
proof -
  let ?n = "unat (hdr_message_size (ring (seg \<phi>)) (wrapper_data b))"
  let ?ts = "fill_stores (wrapper_data b + 18) 0 ?n" and ?st = "Store_Flag (wrapper_data b) ABORTED"
  let ?p = "Aborting (abort_stores (wrapper_data b) ?n)"
  have s': "wrapper_abort (seg \<phi>) b = exec_store ?st (exec_stores ?ts (seg \<phi>))"
    by (simp add: abort_by_stores abort_stores_def)
  let ?\<phi>1 = "\<phi>\<lparr>pending := (pending \<phi>)(Writer w \<mapsto> ?p)\<rparr>"
  let ?\<phi>2 = "?\<phi>1\<lparr>seg := exec_stores ?ts (seg ?\<phi>1),
    pending := (pending ?\<phi>1)(Writer w \<mapsto> with_todo [?st] ?p)\<rparr>"
  have "fine_step wq G \<phi> ?\<phi>1" by (rule fine_step.start_aborting [OF assms])
  moreover have "(fine_step wq G)\<^sup>*\<^sup>* ?\<phi>1 ?\<phi>2" by (rule stores_run) (simp_all add: abort_stores_def)
  moreover have "fine_step wq G ?\<phi>2 ?\<phi>'"
  proof -
    have "claimed_at (exec_stores ?ts (seg \<phi>)) b = claimed_at (seg \<phi>) b"
      by (simp add: exec_fill_stores claimed_at_def)
    then show ?thesis
      using fine_step.aborted [of ?\<phi>2 w ?st b wq G] assms(2) by (simp add: s')
  qed
  ultimately show ?thesis by (meson converse_rtranclp_into_rtranclp rtranclp.rtrancl_into_rtrancl)
qed

lemma loading_steps:
  assumes R: "refines wq G \<sigma> A" and q: "open_readers \<sigma> r = Some q" "held \<sigma> r = None"
    and near: "reader_at q < seg_lo (seg \<sigma>) + q_cap wq"
  shows "poll_flag q (seg \<sigma>) = Some READY_FOR_CONSUMER \<Longrightarrow>
      fine_step wq G (at_rest \<sigma>) ((at_rest \<sigma>)\<lparr>pending := [Reader r \<mapsto> Flag_Loaded]\<rparr>)"
    "poll_flag q (seg \<sigma>) = Some ABORTED \<Longrightarrow>
      fine_step wq G (at_rest \<sigma>) ((at_rest \<sigma>)\<lparr>pending := [Reader r \<mapsto> Abort_Loaded]\<rparr>)"
  using fine_step.load_flag [of "at_rest \<sigma>" r q wq G] fine_step.load_aborted [of "at_rest \<sigma>" r q wq G]
    reader_facts(2) [OF R q(1)] q near by simp_all

lemma run_to_rest:
  "(fine_step wq G)\<^sup>*\<^sup>* \<phi> \<psi> \<Longrightarrow> \<psi> = \<psi>' \<Longrightarrow> (fine_step wq G)\<^sup>*\<^sup>* \<phi> \<psi>'"
  "fine_step wq G \<phi> \<psi> \<Longrightarrow> \<psi> = \<psi>' \<Longrightarrow> (fine_step wq G)\<^sup>*\<^sup>* \<phi> \<psi>'"
  by auto

text \<open>What a poll returns, by what it read.\<close>

lemma poll_once_cases:
  assumes R: "refines wq G \<sigma> A" and q: "open_readers \<sigma> r = Some q"
    and poll: "poll_once q (seg \<sigma>) = Inr res"
  obtains (idle) "res = Poll_Return q (seg \<sigma>) None"
  | (message) wr where "message_ready q (ring (seg \<sigma>))" "poll_flag q (seg \<sigma>) = Some READY_FOR_CONSUMER"
      "poll_ready q (seg \<sigma>) = Inr (Ready_Message wr)"
      "res = Poll_Return (q\<lparr>read_message_cnt := read_message_cnt q + 1\<rparr>) (seg \<sigma>) (Some wr)"
  | (padding) q' s' where "poll_flag q (seg \<sigma>) = Some READY_FOR_CONSUMER"
      "poll_ready q (seg \<sigma>) = Inr Ready_Padding"
      "release_buffer q (seg \<sigma>) (read_place q) = Inr (q', s')" "res = Poll_Again q' s'"
  | (aborted) q' s' where "poll_flag q (seg \<sigma>) = Some ABORTED"
      "release_buffer q (seg \<sigma>) (read_place q) = Inr (q', s')" "res = Poll_Again q' s'"
proof -
  note reader = reader_facts(2) [OF R q]
  from R q show ?thesis
  proof (cases rule: poll_flag_cases)
    case 1
    with poll reader have "res = Poll_Return q (seg \<sigma>) None" by (simp add: poll_once_by_parts)
    then show ?thesis by (rule idle)
  next
    case 2
    then obtain p where p: "poll_ready q (seg \<sigma>) = Inr p"
      using poll reader by (cases "poll_ready q (seg \<sigma>)") (simp_all add: poll_once_by_parts)
    show ?thesis
    proof (cases p)
      case Ready_Stale
      with 2 p poll reader have "res = Poll_Return q (seg \<sigma>) None" by (simp add: poll_once_by_parts)
      then show ?thesis by (rule idle)
    next
      case (Ready_Message wr)
      have "message_ready q (ring (seg \<sigma>))"
        using 2 p Ready_Message
        by (auto simp: poll_flag_def poll_ready_def message_ready_def Let_def split: if_splits)
      with message 2 p Ready_Message poll reader show ?thesis by (simp add: poll_once_by_parts)
    next
      case Ready_Padding
      with padding 2 p poll reader show ?thesis
        by (cases "release_buffer q (seg \<sigma>) (read_place q)") (auto simp: poll_once_by_parts)
    qed
  next
    case 3
    with aborted poll reader show ?thesis
      by (cases "release_buffer q (seg \<sigma>) (read_place q)") (auto simp: poll_once_by_parts)
  qed
qed

lemma polling_run:
  assumes R: "refines wq G \<sigma> A" and q: "open_readers \<sigma> r = Some q" "held \<sigma> r = None"
  shows "poll_once q (seg \<sigma>) = Inr (Poll_Return q' s' got) \<Longrightarrow> (fine_step wq G)\<^sup>*\<^sup>* (at_rest \<sigma>)
      (at_rest (\<sigma>\<lparr>seg := s', open_readers := (open_readers \<sigma>)(r \<mapsto> q'), held := (held \<sigma>)(r := got)\<rparr>))"
    (is "_ \<Longrightarrow> _\<^sup>*\<^sup>* _ ?returned")
    and "reader_at q < seg_lo (seg \<sigma>) + q_cap wq \<Longrightarrow>
      poll_once q (seg \<sigma>) = Inr (Poll_Again q' s') \<Longrightarrow> (fine_step wq G)\<^sup>*\<^sup>* (at_rest \<sigma>)
      (at_rest (\<sigma>\<lparr>seg := s', open_readers := (open_readers \<sigma>)(r \<mapsto> q')\<rparr>))"
    (is "_ \<Longrightarrow> _ \<Longrightarrow> _\<^sup>*\<^sup>* _ ?again")
proof -
  let ?L = "(at_rest \<sigma>)\<lparr>pending := [Reader r \<mapsto> Flag_Loaded]\<rparr>"
  show "(fine_step wq G)\<^sup>*\<^sup>* (at_rest \<sigma>) ?returned"
    if poll: "poll_once q (seg \<sigma>) = Inr (Poll_Return q' s' got)"
    using R q(1) poll
  proof (cases rule: poll_once_cases)
    case idle
    then have "?returned = at_rest \<sigma>"
      using q by (intro fine_eqI) (simp_all add: fun_upd_idem)
    then show ?thesis by simp
  next
    case (message wr)
    have "fine_step wq G (at_rest \<sigma>) ?L" 
      by (rule loading_steps(1) [OF R q published_near [OF R q(1) message(1)] message(2)])
    moreover have "fine_step wq G ?L (?L\<lparr>open_readers := (open_readers ?L)(r \<mapsto> q'),
        held := (held ?L)(r \<mapsto> wr), pending := (pending ?L)(Reader r := None)\<rparr>)"
      using fine_step.take_message [of ?L r q wr wq G] q message by simp
    moreover have "?L\<lparr>open_readers := (open_readers ?L)(r \<mapsto> q'),
        held := (held ?L)(r \<mapsto> wr), pending := (pending ?L)(Reader r := None)\<rparr> = ?returned"
      using message by (intro fine_eqI) simp_all
    ultimately show ?thesis by (metis r_into_rtranclp rtranclp.rtrancl_into_rtrancl)
  qed simp_all
  show "(fine_step wq G)\<^sup>*\<^sup>* (at_rest \<sigma>) ?again"
    if near: "reader_at q < seg_lo (seg \<sigma>) + q_cap wq"
      and poll: "poll_once q (seg \<sigma>) = Inr (Poll_Again q' s')"
  proof -
    have again: "(fine_step wq G)\<^sup>*\<^sup>* (at_rest \<sigma>) ?again"
      if load: "fine_step wq G (at_rest \<sigma>) ((at_rest \<sigma>)\<lparr>pending := [Reader r \<mapsto> p]\<rparr>)"
        and p: "p = Flag_Loaded \<and> poll_ready q (seg \<sigma>) = Inr Ready_Padding \<or> p = Abort_Loaded"
        and rel: "release_buffer q (seg \<sigma>) (read_place q) = Inr (q', s')" for p
    proof -
      let ?L = "(at_rest \<sigma>)\<lparr>pending := [Reader r \<mapsto> p]\<rparr>"
      have "about_to_release ?L r q (read_place q) []"
        using q p by (simp add: about_to_release_def)
      then have "(fine_step wq G)\<^sup>*\<^sup>* ?L (?L\<lparr>seg := s', open_readers := (open_readers ?L)(r \<mapsto> q'),
          held := (held ?L)(r := None), received := (received ?L)(r := received ?L r @ []),
          pending := (pending ?L)(Reader r := None)\<rparr>)"
        by (rule releasing_run) (use rel in simp)
      then have "(fine_step wq G)\<^sup>*\<^sup>* ?L ?again"
        by (rule run_to_rest(1)) (use q in \<open>intro fine_eqI; simp add: fun_upd_idem\<close>)
      with load show ?thesis by (rule converse_rtranclp_into_rtranclp)
    qed
    from R q(1) poll show ?thesis
    proof (cases rule: poll_once_cases)
      case (padding q1 s1)
      with again [OF loading_steps(1) [OF R q near]] show ?thesis by simp
    next
      case (aborted q1 s1)
      with again [OF loading_steps(2) [OF R q near]] show ?thesis by simp
    qed simp_all
  qed
qed

lemma atomic_step_run:
  assumes \<sigma>: "reachable wq G \<sigma>" and step: "sys_step wq G \<sigma> \<sigma>'"
  shows "(fine_step wq G)\<^sup>*\<^sup>* (at_rest \<sigma>) (at_rest \<sigma>')"
proof -
  obtain A where R: "refines wq G \<sigma> A" using reachable_refines [OF \<sigma>] .
  show ?thesis
    using step
  proof cases
    case (reserve w sz s' t)
    show ?thesis
      by (rule run_to_rest(2) [OF fine_step.reserve [of "at_rest \<sigma>" w wq sz s' t G]])
        (use reserve in \<open>simp_all add: at_rest_def\<close>)
  next
    case (join r s' wr q0)
    show ?thesis
      by (rule run_to_rest(2) [OF fine_step.join [of "at_rest \<sigma>" r wq s' wr G q0]])
        (use join in \<open>simp_all add: at_rest_def\<close>)
  next
    case (leave r q s0 wr n q' s')
    show ?thesis
      by (rule run_to_rest(2) [OF fine_step.leave [of "at_rest \<sigma>" r q wq s0 wr n q' s' G]])
        (use leave in \<open>simp_all add: at_rest_def\<close>)
  next
    case writer_opens
    show ?thesis
      by (rule run_to_rest(2) [OF fine_step.writer_opens]) (use writer_opens in \<open>simp add: at_rest_def\<close>)
  next
    case writer_closes
    show ?thesis
      by (rule run_to_rest(2) [OF fine_step.writer_closes]) (use writer_closes in \<open>simp add: at_rest_def\<close>)
  next
    case (place w sz t s' b)
    show ?thesis
      by (rule run_to_rest(1) [OF placing_run [of "at_rest \<sigma>" w sz t wq s' "Some b" G]])
        (use place in \<open>simp_all add: at_rest_def fun_upd_idem\<close>)
  next
    case (skip w sz t s')
    show ?thesis
      by (rule run_to_rest(1) [OF placing_run [of "at_rest \<sigma>" w sz t wq s' None G]])
        (use skip in \<open>simp_all add: at_rest_def fun_upd_idem\<close>)
  next
    case (publish w b data s')
    show ?thesis
      by (rule run_to_rest(1) [OF publishing_run [of "at_rest \<sigma>" w b data s' wq G]])
        (use publish in \<open>simp_all add: at_rest_def fun_upd_idem\<close>)
  next
    case (abort w b)
    show ?thesis
      by (rule run_to_rest(1) [OF aborting_run [of "at_rest \<sigma>" w b wq G]])
        (use abort in \<open>simp_all add: at_rest_def fun_upd_idem\<close>)
  next
    case (poll_return r q q' s' got)
    with polling_run(1) [OF R poll_return(2-4)] show ?thesis by simp
  next
    case (poll_again r q q' s')
    with polling_run(2) [OF R poll_again(2-5)] show ?thesis by simp
  next
    case (release r q wr q' s' wr')
    have "about_to_release (at_rest \<sigma>) r q (wrapper_data wr) [get_as_view (seg \<sigma>) wr]"
      using release by (simp add: about_to_release_def)
    moreover have "release_buffer q (seg (at_rest \<sigma>)) (wrapper_data wr) = Inr (q', s')"
      using release(4) by (auto simp: wrapper_release_def bindE_eq_Inr)
    ultimately show ?thesis
      by (rule run_to_rest(1) [OF releasing_run])
        (use release in \<open>simp add: at_rest_def fun_upd_idem\<close>)
  qed
qed

lemma at_rest_reachable:
  assumes "reachable wq G \<sigma>"
  shows "fine_reachable wq G (at_rest \<sigma>)"
proof -
  obtain \<sigma>0 where init: "queue_init wq G \<sigma>0" and run: "(sys_step wq G)\<^sup>*\<^sup>* \<sigma>0 \<sigma>"
    using assms unfolding reachable_def by blast
  from run show ?thesis
  proof (induction rule: rtranclp_induct)
    case base
    have "fine_init wq G (at_rest \<sigma>0)" using init by (simp add: queue_init_def sys_init_def fine_init_def)
    then show ?case unfolding fine_reachable_def by blast
  next
    case (step \<sigma>1 \<sigma>2)
    have "reachable wq G \<sigma>1" using init step.hyps(1) unfolding reachable_def by blast
    from fine_reachable_steps [OF step.IH atomic_step_run [OF this step.hyps(2)]] show ?case .
  qed
qed

section \<open>Concrete states for the witnesses\<close>

text \<open>
  A reader holds the message of \<open>demo_system\<close>, and a second writer has started to publish: the
  stores of its payload and of its flag are still to come.
\<close>

definition demo_publishing :: Fine where
  "demo_publishing = (at_rest demo_writing)
     \<lparr>pending := [Writer 1 \<mapsto> Publishing demo_data (publish_stores 46 demo_data)]\<rparr>"

lemma demo_publishing_reachable: "fine_reachable (demo_writer 128) (grid 46) demo_publishing"
proof (rule fine_reachable_steps [OF at_rest_reachable [OF demo_writing_reachable]])
  have "fine_step (demo_writer 128) (grid 46) (at_rest demo_writing) demo_publishing"
    using fine_step.start_publishing [of "at_rest demo_writing" 1 demo_buffer2 demo_data "demo_writer 128" "grid 46"]
    by (simp add: demo_publishing_def demo_buffer2_def demo_data_def)
  then show "(fine_step (demo_writer 128) (grid 46))\<^sup>*\<^sup>* (at_rest demo_writing) demo_publishing" ..
qed

lemma demo_publishing_fields [simp]:
  "open_readers demo_publishing 0 = Some (demo_joined\<lparr>read_message_cnt := 1\<rparr>)"
  "held demo_publishing 0 = Some demo_wrapper"
  "pending demo_publishing (Writer 1) = Some (Publishing demo_data (publish_stores 46 demo_data))"
  "pending demo_publishing (Reader 0) = None"
  "sent demo_publishing = [0 \<mapsto> demo_data]"
  by (simp_all add: demo_publishing_def) (simp add: demo_writing_def)

section \<open>Guarantees between the stores\<close>

text \<open>
  C1. Broadcast delivery, whatever acts between the stores. In every state that writers and readers
  reach store by store, what a reader has released since it joined is exactly the sequence of the
  messages committed at the offsets between its joining offset and its read offset, in the order of
  their offsets, each once and with the bytes that were written.
\<close>

theorem broadcast_exactly_once:
  assumes "fine_reachable wq G \<phi>" "open_readers \<phi> r = Some q"
  shows "received \<phi> r = map (the \<circ> sent \<phi>)
    (sorted_list_of_set {x \<in> dom (sent \<phi>). joined \<phi> r \<le> x \<and> x < reader_at q})"
proof -
  obtain \<sigma> where F: "rel_fine wq G \<phi> \<sigma>" using fine_reachable_rel [OF assms(1)] .
  from rel_fineD(2) [OF F] delivered [OF rel_fineD(1) [OF F], of r q] assms(2)
  show ?thesis by (simp add: same_fields_def)
qed

theorem broadcast_exactly_once_witness:
  "fine_reachable (demo_writer 128) (grid 46) (at_rest demo_final) \<and> received (at_rest demo_final) 0 = [demo_data]"
proof -
  have "{x \<in> dom [0 \<mapsto> demo_data]. 0 \<le> x \<and> x < 46} = {0 :: nat}" by auto
  then show ?thesis
    using broadcast_exactly_once [OF at_rest_reachable [OF demo_final_reachable], of 0]
      at_rest_reachable [OF demo_final_reachable] by simp
qed

text \<open>
  C2. A message that is being read stays intact between the stores: as long as a reader holds a
  wrapper and has not started to release it, the view of its payload is the message that was
  committed at the reader's offset, however many stores other writers and readers have done and
  have still to do.
\<close>

theorem held_message_intact:
  assumes "fine_reachable wq G \<phi>" "open_readers \<phi> r = Some q" "held \<phi> r = Some wr"
    and "pending \<phi> (Reader r) = None"
  shows "sent \<phi> (reader_at q) = Some (get_as_view (seg \<phi>) wr)"
proof -
  obtain \<sigma> where F: "rel_fine wq G \<phi> \<sigma>" using fine_reachable_rel [OF assms(1)] .
  obtain A where R: "refines wq G \<sigma> A" using reachable_refines [OF rel_fineD(1) [OF F]] .
  have same: "same_fields \<phi> \<sigma>" by (rule rel_fineD(2) [OF F])
  have "about_to_release \<phi> r q (wrapper_data wr) [get_as_view (seg \<phi>) wr]"
    using assms(2-4) by (simp add: about_to_release_def)
  from about_facts(5) [OF F R this] have "get_as_view (seg \<phi>) wr = get_as_view (seg \<sigma>) wr"
    using same assms(3) by (simp add: releases_def same_fields_def)
  with held_view [OF rel_fineD(1) [OF F], of r q wr] same assms(2,3) show ?thesis
    by (simp add: same_fields_def)
qed

theorem held_message_intact_witness:
  "get_as_view (seg demo_publishing) demo_wrapper = demo_data"
  using held_message_intact [OF demo_publishing_reachable demo_publishing_fields(1,2,4)] by simp

text \<open>
  C4. Stores do not race. A byte of the ring that an operation in progress has still to write is
  written by no other operation in progress, and lies in no message that another reader holds. Past
  the ring, where the misplaced \<open>memset\<close> of a skip message reaches, only zeros are written.
\<close>

theorem stores_do_not_race:
  assumes "fine_reachable wq G \<phi>" "pending \<phi> ag = Some p" "st \<in> set (todo p)" "writes st i"
  shows "(q_cap wq \<le> i \<longrightarrow> store_mem st (ring (seg \<phi>)) i = 0) \<and>
    (i < q_cap wq \<longrightarrow>
      (\<forall>ag' p' st'. ag' \<noteq> ag \<and> pending \<phi> ag' = Some p' \<and> st' \<in> set (todo p') \<longrightarrow> \<not> writes st' i) \<and>
      (\<forall>r wr. ag \<noteq> Reader r \<and> held \<phi> r = Some wr \<longrightarrow>
         \<not> (wrapper_data wr \<le> i \<and> i < wrapper_data wr + unat (wrapper_size wr))))"
proof -
  obtain \<sigma> where F: "rel_fine wq G \<phi> \<sigma>" using fine_reachable_rel [OF assms(1)] .
  obtain A where R: "refines wq G \<sigma> A" and inv: "spec_inv (q_cap wq) A"
    using reachable_refines [OF rel_fineD(1) [OF F]] .
  have same: "same_fields \<phi> \<sigma>" by (rule rel_fineD(2) [OF F])
  have pend: "\<exists>full. pend_ok wq \<sigma> ag p full \<and> \<not> polling p \<and> st \<in> set full"
    if "pending \<phi> ag = Some p" "st \<in> set (todo p)" for ag p st
    using rel_fineD(3) [OF F that(1)] that(2) by (cases p) (auto simp: pend_rel_def)
  obtain full where p: "pend_ok wq \<sigma> ag p full" "\<not> polling p" "st \<in> set full"
    using pend [OF assms(2,3)] by blast
  note span = stores_in_span [OF R p assms(4), of "ring (seg \<phi>)"]
  have "\<not> in_span (span_of wq \<sigma> ag) i" if "q_cap wq \<le> i"
    using pend_entry [OF R p(1,2)] in_region_less [OF inv] in_span_region that by (metis not_le)
  moreover have "\<not> writes st' i"
    if i: "i < q_cap wq" and st': "ag' \<noteq> ag" "pending \<phi> ag' = Some p'" "st' \<in> set (todo p')" for ag' p' st'
  proof
    assume w: "writes st' i"
    obtain full' where p': "pend_ok wq \<sigma> ag' p' full'" "\<not> polling p'" "st' \<in> set full'"
      using pend [OF st'(2,3)] by blast
    have "relies wq \<sigma> ag' p' i"
      using stores_in_span [OF R p' w, of "ring (seg \<phi>)"] i p'(2) by (auto simp: relies_def)
    with relied_apart [OF R p(1,2) p'(1)] span i st'(1) show False by auto
  qed
  moreover have "\<not> (wrapper_data wr \<le> i \<and> i < wrapper_data wr + unat (wrapper_size wr))"
    if i: "i < q_cap wq" and r: "ag \<noteq> Reader r" "held \<phi> r = Some wr" for r wr
  proof -
    have "held \<sigma> r = Some wr" using r(2) same by (simp add: same_fields_def)
    then obtain x f bs where f: "s_pos A r = Some x" "f \<in> set (s_log A)" "e_start f = x"
      "e_state f = Published_Entry bs" "wrapper_data wr = x mod q_cap wq"
      "unat (wrapper_size wr) = e_len f"
      using R unfolding refines_def rel_held_def by metis
    have "s_lo A \<le> x" using inv f(1) by (simp add: spec_inv_def spec_readers_ok_def)
    then have "live A f" using f by (simp add: live_def)
    from reader_apart [OF R p(1,2) r(1) _ _ this, of i] f span i show ?thesis
      by (auto simp: in_region_def)
  qed
  ultimately show ?thesis using span by blast
qed

theorem stores_do_not_race_witness:
  "writes (Store_Byte 64 7) 64 \<and> Store_Byte 64 7 \<in> set (publish_stores 46 demo_data) \<and>
   \<not> (wrapper_data demo_wrapper \<le> 64 \<and> 64 < wrapper_data demo_wrapper + unat (wrapper_size demo_wrapper))"
proof -
  have w: "writes (Store_Byte 64 7) 64" by (simp add: writes_def)
  have "demo_data = 7 # replicate 27 7"
    by (simp add: demo_data_def replicate_Suc [symmetric] del: replicate_Suc)
  then have "Store_Byte 64 7 \<in> set (copy_stores 64 demo_data)"
    by (metis copy_stores.simps(2) list.set_intros(1))
  then have st: "Store_Byte 64 7 \<in> set (publish_stores 46 demo_data)" by (simp add: publish_stores_def)
  then have "Store_Byte 64 7 \<in> set (todo (Publishing demo_data (publish_stores 46 demo_data)))" by simp
  note race = stores_do_not_race [OF demo_publishing_reachable demo_publishing_fields(3) this w]
  have "64 < q_cap (demo_writer 128)" "Writer 1 \<noteq> Reader 0" by simp_all
  with race demo_publishing_fields(2) w st show ?thesis by blast
qed

lemma clearing_assertion:
  assumes F: "rel_fine wq G \<phi> \<sigma>" and p: "pending \<phi> (Reader r) = Some (Releasing q' vs [st])"
  shows "release_finish q' (seg \<phi>) [st] = Inr (q', exec_store st (seg \<phi>))"
proof -
  obtain A where R: "refines wq G \<sigma> A" using reachable_refines [OF rel_fineD(1) [OF F]] .
  obtain full ex where ok: "pend_ok wq \<sigma> (Reader r) (Releasing q' vs [st]) full" "full = ex @ [st]"
    using rel_fineD(3) [OF F p] unfolding pend_rel_def by auto
  from R ok(1) obtain q e where q: "open_readers \<sigma> r = Some q"
    and e: "e \<in> set (s_log A)" "e_start e = reader_at q" "final_state (e_state e)"
      "read_place q = e_start e mod q_cap wq"
    and rel: "\<And>s. release_buffer q (seg \<sigma>) (read_place q) = Inr s \<longleftrightarrow>
       s = (q', exec_stores full (seg \<sigma>)) \<and> read_offset_of (exec_stores full (seg \<sigma>)) = abs_read_offset q'"
    by (rule clearing_start) blast
  have "read_offset_of (exec_stores full (seg \<sigma>)) = abs_read_offset q'"
    using refines_release [OF R q e(1-3)] e(4) rel by metis
  then have "read_offset_of (exec_store st (seg \<phi>)) = abs_read_offset q'"
    using last_store_fields(1) [OF ok, of "seg \<phi>" "seg \<sigma>"] rel_fineD(2) [OF F]
    by (simp add: same_fields_def)
  then show ?thesis by (simp add: release_finish_def)
qed

lemma release_starts:
  assumes F: "rel_fine wq G \<phi> \<sigma>" and about: "about_to_release \<phi> r q a vs"
  shows "\<exists>q' s' sts. release_start q (seg \<phi>) a = Inr (q', s', sts)"
proof -
  obtain A where R: "refines wq G \<sigma> A" using reachable_refines [OF rel_fineD(1) [OF F]] .
  note ab = about_facts [OF F R about]
  from ready_entry [OF R ab(1,3)] obtain e where e: "e \<in> set (s_log A)" "e_start e = reader_at q"
    "final_state (e_state e)" "read_place q = e_start e mod q_cap wq" by metis
  obtain q1 s1 where "release_buffer q (seg \<sigma>) a = Inr (q1, s1)"
    using refines_release [OF R ab(1) e(1-3)] e(4) ab(4) by metis
  then obtain x where "release_start q (seg \<sigma>) a = Inr x" by (auto simp: release_by_stores bindE_eq_Inr)
  moreover obtain q' t sts where "x = (q', t, sts)" by (cases x)
  ultimately have "release_start q (seg \<sigma>) a = Inr (q', t, sts)" by simp
  from release_start_same(2) [OF this, of "seg \<phi>"] message_read(1,2) [OF F R ab(1-3)] ab(4)
  show ?thesis by simp
qed

lemma loaded_poll:
  assumes F: "rel_fine wq G \<phi> \<sigma>" and "pending \<phi> (Reader r) = Some Flag_Loaded" "open_readers \<phi> r = Some q"
  shows "poll_ready q (seg \<phi>) = Inr Ready_Padding \<or> (\<exists>wr. poll_ready q (seg \<phi>) = Inr (Ready_Message wr))"
proof -
  obtain A where R: "refines wq G \<sigma> A" using reachable_refines [OF rel_fineD(1) [OF F]] .
  note l = loaded_facts [OF F assms(2) _ assms(3), simplified]
  from ready_entry [OF R l(1,3)] obtain e where e: "live A e" "read_place q = e_start e mod q_cap wq"
    "live_ok (q_cap wq) (ring (seg \<sigma>)) (card (behind A (e_start e))) e" by metis
  have inv: "spec_inv (q_cap wq) A" using R by (simp add: refines_def)
  have "unat (msg_total (ring (seg \<sigma>)) (read_place q)) = e_len e"
    using e(2,3) by (simp add: live_ok_def Let_def)
  then have "msg_total (ring (seg \<sigma>)) (read_place q) \<le> available_queue_size_bytes q"
    using live_window(5) [OF inv e(1)] reader_facts(4) [OF R l(1)]
    by (simp add: word_le_nat_alt q_cap_def)
  with l(3,5,6) show ?thesis
    by (simp add: poll_ready_def message_ready_def msg_total_def Let_def)
qed

lemma placing_starts:
  assumes F: "rel_fine wq G \<phi> \<sigma>" and t: "threads \<phi> w = Some (Waiting sz t)"
    and free: "\<not> must_wait wq (seg \<phi>) t"
  shows "place_start wq sz t \<noteq> Inl e"
proof -
  have "threads \<sigma> w = Some (Waiting sz t)" "\<not> must_wait wq (seg \<sigma>) t"
    using rel_fineD(2) [OF F] t free by (simp_all add: same_fields_def must_wait_def)
  then have "place_claim wq (seg \<sigma>) sz t \<noteq> Inl e" using no_assertion_fails [OF rel_fineD(1) [OF F]] by blast
  then show ?thesis by (auto simp: place_by_stores)
qed

text \<open>
  C5. No assertion of the queue fails between the stores. In every state reached store by store: a
  writer whose wait is over gets through the assertion of \<open>insert_skip_message\<close>, whether its claim
  fits or is padded; a release that is due gets through the two assertions in front of its
  \<open>fetch_sub\<close>, and the one on the watermark behind its last store holds; a poll that has loaded a set
  flag finds its message and passes the assertion on its size.
\<close>

theorem no_assertion_fails_between_stores:
  assumes "fine_reachable wq G \<phi>"
  shows "(\<forall>w sz t e. threads \<phi> w = Some (Waiting sz t) \<and> \<not> must_wait wq (seg \<phi>) t \<longrightarrow>
       place_start wq sz t \<noteq> Inl e) \<and>
    (\<forall>r q a vs e. about_to_release \<phi> r q a vs \<longrightarrow> release_start q (seg \<phi>) a \<noteq> Inl e) \<and>
    (\<forall>r q vs st e. pending \<phi> (Reader r) = Some (Releasing q vs [st]) \<longrightarrow>
       release_finish q (seg \<phi>) [st] \<noteq> Inl e) \<and>
    (\<forall>r q e. pending \<phi> (Reader r) = Some Flag_Loaded \<and> open_readers \<phi> r = Some q \<longrightarrow>
       poll_ready q (seg \<phi>) \<noteq> Inl e \<and> poll_ready q (seg \<phi>) \<noteq> Inr Ready_Stale)"
proof -
  obtain \<sigma> where F: "rel_fine wq G \<phi> \<sigma>" using fine_reachable_rel [OF assms] .
  show ?thesis
  proof (intro conjI)
    show "\<forall>w sz t e. threads \<phi> w = Some (Waiting sz t) \<and> \<not> must_wait wq (seg \<phi>) t \<longrightarrow>
       place_start wq sz t \<noteq> Inl e" using placing_starts [OF F] by blast
  qed (use release_starts [OF F] clearing_assertion [OF F] loaded_poll [OF F] in fastforce)+
qed

theorem no_assertion_fails_between_stores_witness:
  "about_to_release demo_publishing 0 (demo_joined\<lparr>read_message_cnt := 1\<rparr>) 0 [demo_data] \<and>
   (\<exists>res. release_start (demo_joined\<lparr>read_message_cnt := 1\<rparr>) (seg demo_publishing) 0 = Inr res)"
proof -
  have "get_as_view (seg demo_publishing) demo_wrapper = demo_data"
    using held_view [OF demo_writing_reachable, of 0 _ demo_wrapper] demo_publishing_fields
    by (simp add: demo_publishing_def)
  then have about: "about_to_release demo_publishing 0 (demo_joined\<lparr>read_message_cnt := 1\<rparr>) 0 [demo_data]"
    by (simp add: about_to_release_def demo_wrapper_def mk_reader_wrapper_def)
  moreover have "release_start (demo_joined\<lparr>read_message_cnt := 1\<rparr>) (seg demo_publishing) 0 \<noteq> Inl e" for e
    using no_assertion_fails_between_stores [OF demo_publishing_reachable] about by blast
  ultimately show ?thesis
    by (cases "release_start (demo_joined\<lparr>read_message_cnt := 1\<rparr>) (seg demo_publishing) 0") auto
qed

lemma run_then_step:
  "(own_step wq G ag)\<^sup>*\<^sup>* \<phi> \<psi> \<Longrightarrow> own_step wq G ag \<psi> \<chi> \<Longrightarrow> pending \<chi> = pn \<Longrightarrow>
   \<exists>\<phi>'. (own_step wq G ag)\<^sup>*\<^sup>* \<phi> \<phi>' \<and> pending \<phi>' = pn"
  by (intro exI conjI, rule rtranclp.rtrancl_into_rtrancl)

lemma own_finish:
  "pending \<phi> (Writer w) = Some (Placing bo [st]) \<Longrightarrow>
   own_step wq G (Writer w) \<phi> (\<phi>\<lparr>seg := exec_store st (seg \<phi>),
     threads := (threads \<phi>)(w := map_option Holding bo), pending := (pending \<phi>)(Writer w := None)\<rparr>)"
  "pending \<phi> (Writer w) = Some (Publishing data [st]) \<Longrightarrow> threads \<phi> w = Some (Holding b) \<Longrightarrow>
   own_step wq G (Writer w) \<phi> (\<phi>\<lparr>seg := exec_store st (seg \<phi>), threads := (threads \<phi>)(w := None),
     sent := (sent \<phi>)(claimed_at (seg \<phi>) b \<mapsto> payload_after_write (seg \<phi>) b data),
     pending := (pending \<phi>)(Writer w := None)\<rparr>)"
  "pending \<phi> (Reader r) = Some (Releasing q' vs [st]) \<Longrightarrow>
   release_finish q' (seg \<phi>) [st] = Inr (q'', s') \<Longrightarrow>
   own_step wq G (Reader r) \<phi> (\<phi>\<lparr>seg := s', open_readers := (open_readers \<phi>)(r \<mapsto> q''),
     held := (held \<phi>)(r := None), received := (received \<phi>)(r := received \<phi> r @ vs),
     pending := (pending \<phi>)(Reader r := None)\<rparr>)"
  "pending \<phi> (Reader r) = Some Flag_Loaded \<Longrightarrow> open_readers \<phi> r = Some q \<Longrightarrow>
   poll_ready q (seg \<phi>) = Inr (Ready_Message wr) \<Longrightarrow>
   own_step wq G (Reader r) \<phi> (\<phi>\<lparr>
     open_readers := (open_readers \<phi>)(r \<mapsto> q\<lparr>read_message_cnt := read_message_cnt q + 1\<rparr>),
     held := (held \<phi>)(r \<mapsto> wr), pending := (pending \<phi>)(Reader r := None)\<rparr>)"
  "about_to_release \<phi> r q a vs \<Longrightarrow> release_start q (seg \<phi>) a = Inr (q', s', []) \<Longrightarrow>
   own_step wq G (Reader r) \<phi> (\<phi>\<lparr>seg := s', open_readers := (open_readers \<phi>)(r \<mapsto> q'),
     held := (held \<phi>)(r := None), received := (received \<phi>)(r := received \<phi> r @ vs),
     pending := (pending \<phi>)(Reader r := None)\<rparr>)"
  "about_to_release \<phi> r q a vs \<Longrightarrow> release_start q (seg \<phi>) a = Inr (q', s', sts) \<Longrightarrow> sts \<noteq> [] \<Longrightarrow>
   own_step wq G (Reader r) \<phi> (\<phi>\<lparr>seg := s', pending := (pending \<phi>)(Reader r \<mapsto> Releasing q' vs sts)\<rparr>)"
  "pending \<phi> (Writer w) = Some (Aborting [st]) \<Longrightarrow> threads \<phi> w = Some (Holding b) \<Longrightarrow>
   own_step wq G (Writer w) \<phi> (\<phi>\<lparr>seg := exec_store st (seg \<phi>), threads := (threads \<phi>)(w := None),
     dropped := insert (claimed_at (seg \<phi>) b) (dropped \<phi>), pending := (pending \<phi>)(Writer w := None)\<rparr>)"
  by (simp_all add: own_step_def fine_step.placed fine_step.published fine_step.aborted fine_step.cleared
      fine_step.take_message fine_step.count_release fine_step.start_clearing)

lemma clearing_completes:
  assumes \<phi>: "fine_reachable wq G \<phi>" and p: "pending \<phi> (Reader r) = Some (Releasing q vs sts)"
  shows "\<exists>\<phi>'. (own_step wq G (Reader r))\<^sup>*\<^sup>* \<phi> \<phi>' \<and> pending \<phi>' = (pending \<phi>)(Reader r := None)"
proof -
  obtain \<sigma> where "rel_fine wq G \<phi> \<sigma>" using fine_reachable_rel [OF \<phi>] .
  then have "sts \<noteq> []" using rel_fineD(3) [of wq G \<phi> \<sigma>, OF _ p] by (auto simp: pend_rel_def)
  then obtain ts st where snoc: "sts = ts @ [st]" by (metis rev_exhaust)
  let ?p = "Releasing q vs sts"
  let ?\<phi> = "\<phi>\<lparr>seg := exec_stores ts (seg \<phi>), pending := (pending \<phi>)(Reader r \<mapsto> with_todo [st] ?p)\<rparr>"
  have run: "(own_step wq G (Reader r))\<^sup>*\<^sup>* \<phi> ?\<phi>"
    by (rule own_stores_run [OF p]) (simp_all add: snoc)
  obtain \<sigma>' where F': "rel_fine wq G ?\<phi> \<sigma>'"
    using fine_reachable_rel [OF fine_reachable_steps [OF \<phi> own_steps [OF run]]] .
  have last: "pending ?\<phi> (Reader r) = Some (Releasing q vs [st])" by simp
  show ?thesis
    by (rule run_then_step [OF run own_finish(3) [OF last clearing_assertion [OF F' last]]]) simp
qed

lemma release_completes:
  assumes \<phi>: "fine_reachable wq G \<phi>" and about: "about_to_release \<phi> r q a vs"
  shows "\<exists>\<phi>'. (own_step wq G (Reader r))\<^sup>*\<^sup>* \<phi> \<phi>' \<and> pending \<phi>' = (pending \<phi>)(Reader r := None)"
proof -
  obtain \<sigma> where F: "rel_fine wq G \<phi> \<sigma>" using fine_reachable_rel [OF \<phi>] .
  obtain q' s' sts where start: "release_start q (seg \<phi>) a = Inr (q', s', sts)"
    using release_starts [OF F about] by blast
  show ?thesis
  proof (cases "sts = []")
    case True
    with run_then_step [OF rtranclp.rtrancl_refl own_finish(5) [OF about]] start
    show ?thesis by simp
  next
    case False
    let ?\<phi> = "\<phi>\<lparr>seg := s', pending := (pending \<phi>)(Reader r \<mapsto> Releasing q' vs sts)\<rparr>"
    have step: "own_step wq G (Reader r) \<phi> ?\<phi>" by (rule own_finish(6) [OF about start False])
    then have "fine_reachable wq G ?\<phi>" using fine_reachable_steps [OF \<phi> own_steps] by blast
    from clearing_completes [OF this, of r q' vs sts] obtain \<phi>'
      where "(own_step wq G (Reader r))\<^sup>*\<^sup>* ?\<phi> \<phi>'" "pending \<phi>' = (pending \<phi>)(Reader r := None)" by auto
    with step show ?thesis by (meson converse_rtranclp_into_rtranclp)
  qed
qed

text \<open>A writer finishes the operation it has in progress, and so does a reader.\<close>

lemma writer_completes:
  assumes F: "rel_fine wq G \<phi> \<sigma>" and p: "pending \<phi> (Writer w) = Some p"
  shows "\<exists>\<phi>'. (own_step wq G (Writer w))\<^sup>*\<^sup>* \<phi> \<phi>' \<and> pending \<phi>' = (pending \<phi>)(Writer w := None)"
proof -
  have same: "same_fields \<phi> \<sigma>" by (rule rel_fineD(2) [OF F])
  obtain full where ok: "pend_ok wq \<sigma> (Writer w) p full" and ne: "\<not> polling p \<Longrightarrow> todo p \<noteq> []"
    using rel_fineD(3) [OF F p] unfolding pend_rel_def by blast
  have np: "\<not> polling p" using ok by (cases p) auto
  obtain ts st where snoc: "todo p = ts @ [st]" using ne [OF np] by (metis rev_exhaust)
  let ?run = "\<phi>\<lparr>seg := exec_stores ts (seg \<phi>), pending := (pending \<phi>)(Writer w \<mapsto> with_todo [st] p)\<rparr>"
  have run: "(own_step wq G (Writer w))\<^sup>*\<^sup>* \<phi> ?run" using own_stores_run [OF p snoc] np by simp
  show ?thesis
  proof (cases p)
    case (Placing b sts)
    from run_then_step [OF run own_finish(1) [of ?run w b st]] show ?thesis by (simp add: Placing)
  next
    case (Publishing data sts)
    then obtain b where "threads \<phi> w = Some (Holding b)" using ok same by (auto simp: same_fields_def)
    with run_then_step [OF run own_finish(2) [of ?run w data st b]] show ?thesis by (simp add: Publishing)
  next
    case (Aborting sts)
    then obtain b where "threads \<phi> w = Some (Holding b)" using ok same by (auto simp: same_fields_def)
    with run_then_step [OF run own_finish(7) [of ?run w st b]] show ?thesis by (simp add: Aborting)
  qed (use ok in auto)
qed

lemma reader_completes:
  assumes \<phi>: "fine_reachable wq G \<phi>" and F: "rel_fine wq G \<phi> \<sigma>" and p: "pending \<phi> (Reader r) = Some p"
  shows "\<exists>\<phi>'. (own_step wq G (Reader r))\<^sup>*\<^sup>* \<phi> \<phi>' \<and> pending \<phi>' = (pending \<phi>)(Reader r := None)"
proof -
  have same: "same_fields \<phi> \<sigma>" by (rule rel_fineD(2) [OF F])
  obtain full where ok: "pend_ok wq \<sigma> (Reader r) p full"
    using rel_fineD(3) [OF F p] unfolding pend_rel_def by blast
  show ?thesis
  proof (cases p)
    case (Releasing q vs sts)
    with clearing_completes [OF \<phi>] p show ?thesis by blast
  next
    case Flag_Loaded
    then obtain q where q: "open_readers \<phi> r = Some q" "held \<phi> r = None"
      using ok same by (auto simp: same_fields_def)
    have fl: "pending \<phi> (Reader r) = Some Flag_Loaded" using p Flag_Loaded by simp
    from loaded_poll [OF F fl q(1)] show ?thesis
    proof
      assume "\<exists>wr. poll_ready q (seg \<phi>) = Inr (Ready_Message wr)"
      then obtain wr where "poll_ready q (seg \<phi>) = Inr (Ready_Message wr)" ..
      from run_then_step [OF rtranclp.rtrancl_refl own_finish(4) [OF fl q(1) this]] show ?thesis by simp
    next
      assume "poll_ready q (seg \<phi>) = Inr Ready_Padding"
      with fl q have "about_to_release \<phi> r q (read_place q) []" by (simp add: about_to_release_def)
      from release_completes [OF \<phi> this] show ?thesis .
    qed
  next
    case Abort_Loaded
    then obtain q where "open_readers \<phi> r = Some q" "held \<phi> r = None"
      using ok same by (auto simp: same_fields_def)
    then have "about_to_release \<phi> r q (read_place q) []"
      using p Abort_Loaded by (simp add: about_to_release_def)
    from release_completes [OF \<phi> this] show ?thesis .
  qed (use ok in auto)
qed

text \<open>
  C6. Operations complete. Once an operation is in progress, its agent can finish it by steps
  that leave the operations and the local state of all others as they are, whatever those have in
  progress: no operation waits for another between its stores.
\<close>

theorem operations_complete:
  assumes "fine_reachable wq G \<phi>" "pending \<phi> ag = Some p"
  shows "\<exists>\<phi>'. (own_step wq G ag)\<^sup>*\<^sup>* \<phi> \<phi>' \<and> pending \<phi>' = (pending \<phi>)(ag := None)"
proof -
  obtain \<sigma> where "rel_fine wq G \<phi> \<sigma>" using fine_reachable_rel [OF assms(1)] .
  with writer_completes reader_completes [OF assms(1)] assms(2) show ?thesis by (cases ag) blast+
qed

theorem operations_complete_witness:
  "\<exists>\<phi>'. (own_step (demo_writer 128) (grid 46) (Writer 1))\<^sup>*\<^sup>* demo_publishing \<phi>' \<and> pending \<phi>' = Map.empty"
  using operations_complete [OF demo_publishing_reachable demo_publishing_fields(3)]
  by (simp add: demo_publishing_def)

section \<open>What a reader finds\<close>

lemma stores_zero_or_old:
  assumes "\<forall>st\<in>set sts. writes st i \<longrightarrow> (\<forall>m. store_mem st m i = 0)"
  shows "stores_mem sts m i \<in> {m i, 0}"
  using assms
proof (induction sts arbitrary: m)
  case (Cons st sts)
  then have "stores_mem sts (store_mem st m) i \<in> {store_mem st m i, 0}" by simp
  with Cons.prems show ?case by (cases "writes st i") (auto simp: store_mem_out)
qed simp

lemma clear_stores_flag:
  assumes "st \<in> set (Store_Readers a 0 # clear_stores a len n)" "writes st (a + 17)"
  shows "store_mem st m (a + 17) = 0"
proof (cases "st \<in> set (fill_stores (a + 18) 0 len)")
  case True
  from fill_stores_write(1) [OF this assms(2)] show ?thesis by simp
next
  case False
  with assms show ?thesis by (auto simp: clear_stores_def writes_def set_commit_flag_def)
qed

lemma pending_flag:
  assumes F: "rel_fine wq G \<phi> \<sigma>" and R: "refines wq G \<sigma> A"
    and x: "boundary (s_log A) (s_hi A) x" "s_lo A \<le> x" "x < s_lo A + q_cap wq"
  shows "ring (seg \<phi>) (x mod q_cap wq + 17) \<in> {ring (seg \<sigma>) (x mod q_cap wq + 17), 0}"
proof (cases "\<exists>ag. storing \<phi> ag \<and> in_span (span_of wq \<sigma> ag) (x mod q_cap wq + 17)")
  case False
  with rel_fineD(4) [OF F] boundary_place(1) [OF R x(1)] show ?thesis by (simp add: ring_rel_def)
next
  case True
  let ?i = "x mod q_cap wq + 17"
  have inv: "spec_inv (q_cap wq) A" and off: "rel_offsets wq G (seg \<sigma>) A" using R by (simp_all add: refines_def)
  obtain ag p where ag: "pending \<phi> ag = Some p" "\<not> polling p" "in_span (span_of wq \<sigma> ag) ?i"
    using True unfolding storing_def by blast
  then obtain full ex where ok: "pend_ok wq \<sigma> ag p full" "full = ex @ todo p" "todo p \<noteq> []"
    and mem: "\<And>i. in_span (span_of wq \<sigma> ag) i \<Longrightarrow> ring (seg \<phi>) i = stores_mem ex (ring (seg \<sigma>)) i"
    using rel_fineD(3) [OF F] unfolding pend_rel_def by blast
  obtain e where e: "in_window (q_cap wq) A e"
    "span_of wq \<sigma> ag = (e_start e mod q_cap wq, e_len e)" using pend_entry [OF R ok(1) ag(2)] by metis
  have "e_start e mod q_cap wq \<in> G" "spaced G" using off e(1) by (auto simp: rel_offsets_def in_window_def)
  with flag_byte_region [OF inv _ x boundary_place [OF R x(1)]] e(1) ag(3) in_span_region [OF e(2)]
  have start: "e_start e = x" by (simp add: in_window_def)
  have "stores_mem ex (ring (seg \<sigma>)) ?i \<in> {ring (seg \<sigma>) ?i, 0}"
  proof (rule stores_zero_or_old, intro ballI impI allI)
    fix st m assume st: "st \<in> set ex" "writes st ?i"
    show "store_mem st m ?i = 0"
    proof (cases ag)
      case (Writer w)
      with writer_keeps_flag [OF R _ ok(2,3) _ st(1)] ok(1) e(2) start st(2) show ?thesis by metis
    next
      case (Reader r)
      then obtain q1 vs sts where "p = Releasing q1 vs sts" using ok(1) ag(2) by (cases p) auto
      with ok(1) Reader obtain q where q: "open_readers \<sigma> r = Some q"
        and full: "full = Store_Readers (read_place q) 0 # clear_stores (read_place q)
          (unat (hdr_message_size (ring (seg \<sigma>)) (read_place q)))
          (msg_total (ring (seg \<sigma>)) (read_place q))" by auto
      have x: "x mod q_cap wq = read_place q" using e(2) q Reader start by (simp add: span_of_def)
      have "st \<in> set full" using st(1) ok(2) by simp
      then show ?thesis
        unfolding x full by (rule clear_stores_flag) (use st(2) x in simp)
    qed
  qed
  with mem [OF ag(3)] show ?thesis by simp
qed

text \<open>
  The flag a registered reader finds has one of the three values, and with it set the header is the
  one of the entry at its place.
\<close>

lemma pending_poll_flag:
  assumes F: "rel_fine wq G \<phi> \<sigma>" and R: "refines wq G \<sigma> A" and q: "open_readers \<sigma> r = Some q"
  shows "poll_flag q (seg \<phi>) \<in> {Some NOT_READY, Some READY_FOR_CONSUMER, Some ABORTED}"
proof -
  note qf = reader_facts [OF R q] and place = read_place_at [OF R q]
  have inv: "spec_inv (q_cap wq) A" using R by (simp add: refines_def)
  have "ring (seg \<phi>) (read_place q + 17) \<in> {ring (seg \<sigma>) (read_place q + 17), 0}"
  proof (cases "reader_at q < s_lo A + q_cap wq")
    case True
    with pending_flag [OF F R qf(6,7)] place show ?thesis by simp
  next
    case False
    then have "reader_at q mod q_cap wq = s_lo A mod q_cap wq" using qf(9) by simp
    moreover have "boundary (s_log A) (s_hi A) (s_lo A)" "0 < q_cap wq"
      using inv R by (simp_all add: spec_inv_def spec_readers_ok_def refines_def rel_offsets_def sane_queue_def)
    ultimately show ?thesis using pending_flag [OF F R, of "s_lo A"] place by simp
  qed
  with flag_values [OF R q] show ?thesis by (auto simp: poll_flag_def hdr_commit_flag_def)
qed

lemma set_flag_header:
  assumes F: "rel_fine wq G \<phi> \<sigma>" and R: "refines wq G \<sigma> A" and q: "open_readers \<sigma> r = Some q"
    and idle: "\<not> storing \<phi> (Reader r)"
    and flag: "poll_flag q (seg \<phi>) \<noteq> Some NOT_READY" "reader_at q < seg_lo (seg \<phi>) + q_cap wq"
  shows "(\<exists>ty. hdr_type (ring (seg \<phi>)) (read_place q) = message_type_value ty) \<and>
    unat (hdr_abs_offset (ring (seg \<phi>)) (read_place q)) = reader_at q \<and>
    read_place q + 18 + unat (hdr_message_size (ring (seg \<phi>)) (read_place q)) \<le> q_cap wq \<and>
    1 \<le> unat (hdr_num_readers (ring (seg \<phi>)) (read_place q)) \<and>
    unat (hdr_num_readers (ring (seg \<phi>)) (read_place q)) \<le> card (dom (open_readers \<phi>))"
proof -
  have same: "same_fields \<phi> \<sigma>" by (rule rel_fineD(2) [OF F])
  have inv: "spec_inv (q_cap wq) A" and rd: "rel_readers wq \<sigma> A" using R by (simp_all add: refines_def)
  have "message_ready q (ring (seg \<sigma>))"
    using flag same by (intro flag_is_true(1) [OF F R q idle refl])
      (auto simp: poll_flag_def same_fields_def seg_lo_def)
  from ready_entry [OF R q this] obtain e where e: "e \<in> set (s_log A)" "e_start e = reader_at q"
    "live A e" "read_place q = e_start e mod q_cap wq" "final_state (e_state e)"
    and ok: "live_ok (q_cap wq) (ring (seg \<sigma>)) (card (behind A (e_start e))) e" by metis
  have eq: "ring (seg \<phi>) i = ring (seg \<sigma>) i" if "in_region (q_cap wq) e i" for i
    by (rule message_untouched [OF F R q idle e(2,5,3) that])
  have ok': "live_ok (q_cap wq) (ring (seg \<phi>)) (card (behind A (e_start e))) e"
    using ok live_ok_cong [OF eq live_window(4) [OF inv e(3)]] by simp
  have "r \<in> behind A (e_start e)" using reader_facts(1) [OF R q] e(2) by (simp add: behind_def)
  then have "1 \<le> card (behind A (e_start e))"
    using behind_finite(1) [OF rd] by (simp add: Suc_le_eq card_gt_0_iff) blast
  moreover have "card (behind A (e_start e)) \<le> card (dom (open_readers \<phi>))"
    using behind_finite(3) [OF rd] readers_pos(2) [OF rd] rd same
    by (intro card_mono) (simp_all add: rel_readers_def same_fields_def)
  moreover have "\<exists>ty. hdr_type (ring (seg \<phi>)) (read_place q) = message_type_value ty"
    using ok' e(4) by (simp only: live_ok_def Let_def) blast
  ultimately show ?thesis
    using ok' e(2,4) live_window(5) [OF inv e(3)] by (simp add: live_ok_def Let_def)
qed

text \<open>
  C7. Headers are well typed. Whenever a registered reader looks at its place, however far the
  operations of others have got, the flag byte is an enumerator of \<open>CommitFlag\<close>; and a set flag, of
  a committed or of an aborted message, within one ring's size of the slowest reader, comes
  with a header whose type is an enumerator, whose offset is the reader's, whose message lies inside
  the ring, and whose count of readers is at least one and at most the number of registered readers.
\<close>

theorem headers_are_well_typed:
  assumes "fine_reachable wq G \<phi>" "open_readers \<phi> r = Some q" "pending \<phi> (Reader r) = None"
  shows "poll_flag q (seg \<phi>) \<in> {Some NOT_READY, Some READY_FOR_CONSUMER, Some ABORTED} \<and>
    (poll_flag q (seg \<phi>) \<noteq> Some NOT_READY \<and> reader_at q < seg_lo (seg \<phi>) + q_cap wq \<longrightarrow>
       (\<exists>ty. hdr_type (ring (seg \<phi>)) (read_place q) = message_type_value ty) \<and>
       unat (hdr_abs_offset (ring (seg \<phi>)) (read_place q)) = reader_at q \<and>
       read_place q + 18 + unat (hdr_message_size (ring (seg \<phi>)) (read_place q)) \<le> q_cap wq \<and>
       1 \<le> unat (hdr_num_readers (ring (seg \<phi>)) (read_place q)) \<and>
       unat (hdr_num_readers (ring (seg \<phi>)) (read_place q)) \<le> card (dom (open_readers \<phi>)))"
proof -
  obtain \<sigma> where F: "rel_fine wq G \<phi> \<sigma>" using fine_reachable_rel [OF assms(1)] .
  obtain A where R: "refines wq G \<sigma> A" using reachable_refines [OF rel_fineD(1) [OF F]] .
  have "open_readers \<sigma> r = Some q" "\<not> storing \<phi> (Reader r)"
    using assms(2,3) rel_fineD(2) [OF F] by (simp_all add: same_fields_def storing_def)
  with pending_poll_flag [OF F R] set_flag_header [OF F R] show ?thesis by simp
qed

theorem headers_are_well_typed_witness:
  "poll_flag (demo_joined\<lparr>read_message_cnt := 1\<rparr>) (seg demo_publishing)
     \<in> {Some NOT_READY, Some READY_FOR_CONSUMER, Some ABORTED}"
  using headers_are_well_typed [OF demo_publishing_reachable demo_publishing_fields(1,4)] by blast

section \<open>The two machines\<close>

text \<open>
  C3. Refinement, store by store. Every state that writers and readers reach store by store stands
  for a reachable state of the broadcast log: the counters, the readers, what they hold and what
  they have received are those of a state in which every operation was atomic, and that state
  represents a state of the log.
\<close>

theorem stores_implement_broadcast_log:
  assumes "fine_init wq G \<phi>0" "(fine_step wq G)\<^sup>*\<^sup>* \<phi>0 \<phi>"
  shows "\<exists>A0 A \<sigma>. spec_init A0 \<and> (spec_step (q_cap wq))\<^sup>*\<^sup>* A0 A \<and> refines wq G \<sigma> A \<and>
    same_fields \<phi> \<sigma> \<and> (pending \<phi> = Map.empty \<longrightarrow> ring (seg \<phi>) = ring (seg \<sigma>))"
proof -
  obtain \<sigma>0 \<sigma> where \<sigma>: "queue_init wq G \<sigma>0" "(sys_step wq G)\<^sup>*\<^sup>* \<sigma>0 \<sigma>" and F: "rel_fine wq G \<phi> \<sigma>"
    using fine.reachable_sim [OF assms] by blast
  from ipc.reachable_sim [OF \<sigma>] rel_fineD(2) [OF F] rings_at_rest [OF F] show ?thesis by blast
qed

theorem stores_implement_broadcast_log_witness:
  "\<exists>A0 A \<sigma>. spec_init A0 \<and> (spec_step 128)\<^sup>*\<^sup>* A0 A \<and> refines (demo_writer 128) (grid 46) \<sigma> A \<and>
     same_fields (at_rest demo_start) \<sigma>"
proof -
  have "fine_init (demo_writer 128) (grid 46) (at_rest demo_start)"
    using demo_init by (simp add: queue_init_def sys_init_def fine_init_def)
  from stores_implement_broadcast_log [OF this rtranclp.rtrancl_refl] show ?thesis by auto
qed

text \<open>
  C8. Atomic operations and single stores reach the same states at rest. A state that atomic
  operations reach is reached store by store, and a state reached store by store in which no
  operation is in progress has the counters, the readers, the writers and the bytes of the ring of a
  state that atomic operations reach.
\<close>

theorem same_states_at_rest:
  "(reachable wq G \<sigma> \<longrightarrow> fine_reachable wq G (at_rest \<sigma>)) \<and>
   (fine_reachable wq G \<phi> \<and> pending \<phi> = Map.empty \<longrightarrow>
      (\<exists>\<sigma>. reachable wq G \<sigma> \<and> same_fields \<phi> \<sigma> \<and> ring (seg \<phi>) = ring (seg \<sigma>)))"
proof (intro conjI impI)
  show "fine_reachable wq G (at_rest \<sigma>)" if "reachable wq G \<sigma>" by (rule at_rest_reachable [OF that])
  assume \<phi>: "fine_reachable wq G \<phi> \<and> pending \<phi> = Map.empty"
  then obtain \<sigma> where F: "rel_fine wq G \<phi> \<sigma>" using fine_reachable_rel by blast
  with \<phi> rel_fineD(1,2) [OF F] rings_at_rest [OF F]
  show "\<exists>\<sigma>. reachable wq G \<sigma> \<and> same_fields \<phi> \<sigma> \<and> ring (seg \<phi>) = ring (seg \<sigma>)" by blast
qed

theorem same_states_at_rest_witness:
  "fine_reachable (demo_writer 128) (grid 46) (at_rest demo_final) \<and>
   (\<exists>\<sigma>. reachable (demo_writer 128) (grid 46) \<sigma> \<and> same_fields (at_rest demo_final) \<sigma>)"
proof -
  have f: "fine_reachable (demo_writer 128) (grid 46) (at_rest demo_final)"
    using same_states_at_rest [of "demo_writer 128" "grid 46" demo_final] demo_final_reachable by blast
  moreover have "pending (at_rest demo_final) = Map.empty" by simp
  ultimately show ?thesis
    using same_states_at_rest [of "demo_writer 128" "grid 46" demo_final "at_rest demo_final"] by blast
qed

end
