(* ===== verification/Ipc_First_Lap.thy ===== *)
theory Ipc_First_Lap
  imports Ipc_Fine_Guarantees
begin

text \<open>
  Messages of any sizes. The guarantees assume that the places where messages start are a header
  apart. Here the condition is dropped for as long as the ring has not been filled once: every run
  in which the write offset has not passed the ring's size is a run with such places, whatever the
  sizes that the writers ask for.
\<close>

section \<open>The write offset never goes back\<close>

lemma seg_hi_exec_store [simp]: "seg_hi (exec_store st s) = seg_hi s"
  by (simp add: seg_hi_def)

lemma seg_hi_set_writers [simp]: "seg_hi (set_writers n s) = seg_hi s"
  by (simp add: seg_hi_def packed_of_def set_writers_def)

lemma seg_hi_modify_readers: "modify_readers b s = (s', wr) \<Longrightarrow> seg_hi s' = seg_hi s"
  by (auto simp: modify_readers_def return_add_reader_def return_sub_reader_def seg_hi_def
      write_offset_repack_unwrap split: if_splits)

lemma seg_hi_release_buffer: "release_buffer q s a = Inr (q', s') \<Longrightarrow> seg_hi s' = seg_hi s"
  by (auto simp: release_buffer_eq after_last_release_def split: if_splits)

lemma seg_hi_drain:
  "decrement_readers_until n q s off = Some (Inr (q', s')) \<Longrightarrow> seg_hi s' = seg_hi s"
proof (induction n arbitrary: q s)
  case (Suc n)
  then show ?case
    by (auto simp: Let_def seg_hi_release_buffer split: if_splits sum.splits)
qed simp

lemma seg_hi_release_start: "release_start q s a = Inr (q', s', sts) \<Longrightarrow> seg_hi s' = seg_hi s"
  by (auto simp: release_start_def Let_def bindE_eq_Inr split: if_splits)

lemma seg_hi_release_finish: "release_finish q s sts = Inr (q', s') \<Longrightarrow> seg_hi s' = seg_hi s"
  by (auto simp: release_finish_def bindE_eq_Inr seg_hi_def split: if_splits)

text \<open>A step either reserves or leaves the write offset alone, and then the places do not matter.\<close>

lemma fine_step_offset:
  assumes step: "fine_step wq UNIV \<phi> \<phi>'" and sane: "sane_queue wq"
  shows "fine_step wq G \<phi> \<phi>' \<and> seg_hi (seg \<phi>') = seg_hi (seg \<phi>) \<or>
    (\<exists>n\<ge>18. seg_hi (seg \<phi>') = seg_hi (seg \<phi>) + region_len (q_cap wq) (seg_hi (seg \<phi>)) n) \<and>
    (seg_hi (seg \<phi>') mod q_cap wq \<in> G \<longrightarrow> fine_step wq G \<phi> \<phi>')"
  using step
proof cases
  case (reserve w sz s' t)
  have sz: "unat sz + 18 \<le> q_cap wq"
    using reserve(5) claim_checks_nat [OF sane, of sz] by (simp add: claim_checks_def)
  then have sz18: "unat (sz + sizeof_MessageHeader) = unat sz + 18"
    using sane by (simp add: unat_add_u64 sane_queue_def)
  moreover have "unat sz + 18 < 2 ^ 32" using sz sane by (simp add: sane_queue_def)
  moreover have "seg_hi (seg \<phi>) + region_len (q_cap wq) (seg_hi (seg \<phi>)) (unat sz + 18) < 2 ^ 56"
    using reserve(8) region_len_le [of "q_cap wq" "seg_hi (seg \<phi>)" "unat sz + 18"] by linarith
  ultimately have "seg_hi s' = seg_hi (seg \<phi>) + region_len (q_cap wq) (seg_hi (seg \<phi>)) (unat sz + 18)"
    using reserve_write_offset_nat(1) [OF sane _ _ reserve(6)] by simp
  moreover have "seg_hi s' mod q_cap wq \<in> G \<longrightarrow> fine_step wq G \<phi> \<phi>'"
    unfolding reserve(1) by (intro impI fine_step.reserve reserve(2-6) reserve(8))
  ultimately show ?thesis using reserve(1)
    by (intro disjI2 conjI exI [of _ "unat sz + 18"]) simp_all
qed (auto simp: seg_hi_modify_readers seg_hi_drain seg_hi_release_start seg_hi_release_finish
    intro: fine_step.intros)

lemma fine_step_mono:
  assumes "fine_step wq G \<phi> \<phi>'" "G \<subseteq> G'"
  shows "fine_step wq G' \<phi> \<phi>'"
  using assms(1)
proof cases
  case (reserve w sz s' t)
  with assms(2) show ?thesis unfolding reserve(1) by (intro fine_step.reserve) auto
qed (auto intro: fine_step.intros)

lemma header_fits:
  assumes "fine_reachable wq G \<phi>"
  shows "header_room (q_cap wq) (seg_hi (seg \<phi>))"
proof -
  obtain \<sigma> where F: "rel_fine wq G \<phi> \<sigma>" using fine_reachable_rel [OF assms] .
  obtain A where "refines wq G \<sigma> A" using reachable_refines [OF rel_fineD(1) [OF F]] .
  with rel_fineD(2) [OF F] show ?thesis
    by (simp add: refines_def rel_offsets_def same_fields_def seg_hi_def)
qed

section \<open>The first lap\<close>

lemma spaced_insert:
  assumes "spaced G" "\<forall>p\<in>G. p + 18 \<le> x"
  shows "spaced (insert x G)"
proof -
  have "\<not> x < p" if "p \<in> G" for p using assms(2) that by (auto dest: bspec [of _ _ p])
  with assms show ?thesis by (auto simp: spaced_def)
qed

text \<open>The places of a run in the first lap are its write offsets.\<close>

lemma first_lap_places:
  assumes init: "fine_init wq G0 \<phi>0" and run: "(fine_step wq UNIV)\<^sup>*\<^sup>* \<phi>0 \<phi>"
    and lap: "seg_hi (seg \<phi>) \<le> q_cap wq"
  shows "\<exists>G. fine_init wq G \<phi>0 \<and> (fine_step wq G)\<^sup>*\<^sup>* \<phi>0 \<phi> \<and> (\<forall>p\<in>G. p \<le> seg_hi (seg \<phi>))"
  using run lap
proof (induction rule: rtranclp_induct)
  case base
  have "fine_init wq {0} \<phi>0" using init by (simp add: fine_init_def spaced_def)
  then show ?case by blast
next
  case (step \<phi>1 \<phi>2)
  let ?c = "q_cap wq" and ?hi = "seg_hi (seg \<phi>1)" and ?hi' = "seg_hi (seg \<phi>2)"
  have sane: "sane_queue wq" using init by (simp add: fine_init_def)
  have "?hi \<le> ?hi'" using fine_step_offset [OF step.hyps(2) sane, of UNIV] by auto
  with step.prems step.IH obtain G where G: "fine_init wq G \<phi>0" "(fine_step wq G)\<^sup>*\<^sup>* \<phi>0 \<phi>1"
    "\<forall>p\<in>G. p \<le> ?hi" by auto
  then have "fine_reachable wq G \<phi>1" unfolding fine_reachable_def by blast
  then have sp: "spaced G" and room: "header_room ?c ?hi"
    using G(1) header_fits by (simp_all add: fine_init_def)
  have same: ?case if "fine_step wq G \<phi>1 \<phi>2"
    using rtranclp.rtrancl_into_rtrancl [OF G(2) that] G(1,3) \<open>?hi \<le> ?hi'\<close> by (meson le_trans)
  from fine_step_offset [OF step.hyps(2) sane, of G] show ?case
  proof (elim disjE conjE exE)
    fix n :: nat
    assume "18 \<le> n" "?hi' = ?hi + region_len ?c ?hi n"
    with region_len_ge [OF room] have grow: "?hi + 18 \<le> ?hi'" by simp
    show ?case
    proof (cases "?hi' mod ?c \<in> G")
      case True
      with same fine_step_offset [OF step.hyps(2) sane, of G] show ?thesis by blast
    next
      case False
      with spaced_zero [OF sp] step.prems have "?hi' mod ?c = ?hi'" by (cases "?hi' = ?c") auto
      then have "fine_step wq (insert ?hi' G) \<phi>1 \<phi>2"
        using fine_step_offset [OF step.hyps(2) sane, of "insert ?hi' G"] by auto
      moreover have "(fine_step wq (insert ?hi' G))\<^sup>*\<^sup>* \<phi>0 \<phi>1"
        using G(2) by (rule rtranclp_mono [THEN predicate2D, rotated])
          (blast intro: fine_step_mono)
      moreover have "spaced (insert ?hi' G)"
        using G(3) grow by (intro spaced_insert [OF sp]) fastforce
      then have "fine_init wq (insert ?hi' G) \<phi>0" using G(1) by (simp add: fine_init_def)
      ultimately show ?thesis using G(3) grow
        by (intro exI [of _ "insert ?hi' G"]) (auto intro: rtranclp.rtrancl_into_rtrancl)
    qed
  qed (use same in blast)
qed

text \<open>
  C9. Messages of any sizes. As long as the write offset has not passed the size of the ring, the
  condition on the places of messages is no condition: every state that the machine of single
  stores reaches with payloads of any sizes that fit is a state it reaches with places a header
  apart, so that all the guarantees hold of it. In particular every reader has received exactly the
  messages committed between its joining offset and its read offset, in order.
\<close>

theorem any_sizes_in_first_lap:
  assumes "fine_init wq G0 \<phi>0" "(fine_step wq UNIV)\<^sup>*\<^sup>* \<phi>0 \<phi>" "seg_hi (seg \<phi>) \<le> q_cap wq"
  shows "(\<exists>G. fine_reachable wq G \<phi>) \<and>
    (\<forall>r q. open_readers \<phi> r = Some q \<longrightarrow> received \<phi> r = map (the \<circ> sent \<phi>)
       (sorted_list_of_set {x \<in> dom (sent \<phi>). joined \<phi> r \<le> x \<and> x < reader_at q}))"
proof -
  from first_lap_places [OF assms] obtain G where G: "fine_reachable wq G \<phi>"
    unfolding fine_reachable_def by blast
  then obtain \<sigma> where F: "rel_fine wq G \<phi> \<sigma>" using fine_reachable_rel by blast
  from delivered [OF rel_fineD(1) [OF F]] rel_fineD(2) [OF F] G show ?thesis
    by (auto simp: same_fields_def)
qed

text \<open>
  After the message of 28 bytes at 0 one of 14 bytes is claimed at 46; the next one would start at
  78. No multiples of a number as large as a header are both 46 and 78.
\<close>

definition demo_mixed :: Fine where
  "demo_mixed = (at_rest demo_final)\<lparr>seg := set_packed 19969 (seg demo_final),
     threads := [0 \<mapsto> Waiting 14 \<lparr>claimed_word = \<lparr>num_readers = 1, write_offset = 46,
       original_value = 11777\<rparr>, claimed_end = 78\<rparr>]\<rparr>"

lemma demo_mixed_run:
  obtains \<phi>0 where "fine_init (demo_writer 128) (grid 46) \<phi>0"
    "(fine_step (demo_writer 128) UNIV)\<^sup>*\<^sup>* \<phi>0 demo_mixed"
proof -
  obtain \<phi>0 where \<phi>0: "fine_init (demo_writer 128) (grid 46) \<phi>0"
    "(fine_step (demo_writer 128) (grid 46))\<^sup>*\<^sup>* \<phi>0 (at_rest demo_final)"
    using at_rest_reachable [OF demo_final_reachable] unfolding fine_reachable_def by blast
  have "(fine_step (demo_writer 128) UNIV)\<^sup>*\<^sup>* \<phi>0 (at_rest demo_final)"
    using \<phi>0(2) by (rule rtranclp_mono [THEN predicate2D, rotated]) (blast intro: fine_step_mono)
  moreover have "fine_step (demo_writer 128) UNIV (at_rest demo_final) demo_mixed"
  proof -
    let ?t = "\<lparr>claimed_word = \<lparr>num_readers = 1, write_offset = 46, original_value = 11777\<rparr>,
       claimed_end = 78\<rparr>"
    have packed: "packed_of (seg demo_final) = 11777"
      by (simp add: demo_final_def after_last_release_def demo_published_packed)
    then have "reserve_write_offset (demo_writer 128) (seg demo_final) (14 + sizeof_MessageHeader)
        = (set_packed 19969 (seg demo_final), ?t)"
      by (simp add: reserve_write_offset_def return_add_offset_def unwrap_def repack_def Let_def
          bytes_to_bump_def bytes_remaining_at_end_def sizeof_MessageHeader_def)
    moreover have "claim_checks (demo_writer 128) 14"
      by (simp add: claim_checks_def sizeof_MessageHeader_def)
    moreover have "seg_hi (seg demo_final) = 46"
      using packed by (simp add: seg_hi_def unat_write_offset_unwrap)
    moreover have "threads demo_final = Map.empty" "open_readers demo_final \<noteq> Map.empty"
      by (simp_all add: demo_final_def demo_system_def)
    ultimately show ?thesis
      using fine_step.reserve [of "at_rest demo_final" 0 "demo_writer 128" 14
          "set_packed 19969 (seg demo_final)" ?t UNIV]
      by (simp add: demo_mixed_def)
  qed
  ultimately show ?thesis using that \<phi>0(1) by (meson rtranclp.rtrancl_into_rtrancl)
qed

theorem any_sizes_in_first_lap_witness:
  "(\<exists>G. fine_reachable (demo_writer 128) G demo_mixed) \<and> received demo_mixed 0 = [demo_data]"
proof -
  obtain \<phi>0 where run: "fine_init (demo_writer 128) (grid 46) \<phi>0"
    "(fine_step (demo_writer 128) UNIV)\<^sup>*\<^sup>* \<phi>0 demo_mixed" by (rule demo_mixed_run)
  have "seg_hi (seg demo_mixed) \<le> q_cap (demo_writer 128)" by (simp add: demo_mixed_def seg_hi_packed)
  note lap = any_sizes_in_first_lap [OF run this]
  have "{x \<in> dom [0 \<mapsto> demo_data]. 0 \<le> x \<and> x < 46} = {0 :: nat}" by auto
  with lap show ?thesis by (auto simp: demo_mixed_def)
qed

end
