(* ===== verification/Ipc_Hazards.thy ===== *)
theory Ipc_Hazards
  imports Ipc_Sessions Ipc_Stores
begin

text \<open>
  The conditions under which \<open>Ipc_System\<close> lets its agents act are not checked by the code. This
  theory runs the operations of the code on concrete histories that break one of them, and shows
  what happens. A history is a list of actions, executed one after the other on one segment; the
  fuel of every poll and drain is 10, which none of the histories uses up.
\<close>

section \<open>Histories\<close>

datatype Action =
    Reserve nat u64          \<comment> \<open>a writer thread reserves space for a payload of this size\<close>
  | Place nat                \<comment> \<open>it leaves the wait loop, if it may, and places its header\<close>
  | Commit nat               \<comment> \<open>it commits its buffer\<close>
  | Fill nat "u8 list"       \<comment> \<open>it writes a payload and commits\<close>
  | Abort nat                \<comment> \<open>it aborts its buffer\<close>
  | Join nat                 \<comment> \<open>a reader registers\<close>
  | Poll nat                 \<comment> \<open>it polls\<close>
  | Load_Flag nat            \<comment> \<open>it polls, and has loaded the flag\<close>
  | Load_Rest nat            \<comment> \<open>and goes on with the other fields, for a message that is not padding\<close>
  | Release nat              \<comment> \<open>it releases the message it holds\<close>
  | Unregister nat           \<comment> \<open>it closes: first it takes itself off the count\<close>
  | Drain nat                \<comment> \<open>then it releases what it has not read\<close>

record World =
  w_seg :: Segment
  w_reader :: "nat \<rightharpoonup> IpcQueue"
  w_held :: "nat \<rightharpoonup> ReaderWrapper"
  w_ticket :: "nat \<rightharpoonup> u64 \<times> Ticket"
  w_buffer :: "nat \<rightharpoonup> RaiiWrapper"
  w_leaving :: "nat \<rightharpoonup> u64"
  w_flag :: "nat \<rightharpoonup> CommitFlag"

definition new_world :: "u64 \<Rightarrow> World" where
  "new_world n =
     \<lparr>w_seg = demo_segment n, w_reader = Map.empty, w_held = Map.empty, w_ticket = Map.empty,
      w_buffer = Map.empty, w_leaving = Map.empty, w_flag = Map.empty\<rparr>"

text \<open>An action whose agent is not in the state for it changes nothing.\<close>

fun act :: "u64 \<Rightarrow> Action \<Rightarrow> World \<Rightarrow> error + World" where
  "act n (Reserve w sz) W =
     (let (s, t) = reserve_write_offset (demo_writer n) (w_seg W) (sz + sizeof_MessageHeader)
      in Inr (W\<lparr>w_seg := s, w_ticket := (w_ticket W)(w \<mapsto> (sz, t))\<rparr>))"
| "act n (Place w) W =
     (case w_ticket W w of
        None \<Rightarrow> Inr W
      | Some (sz, t) \<Rightarrow>
          if must_wait (demo_writer n) (w_seg W) t then Inr W
          else bindE (place_claim (demo_writer n) (w_seg W) sz t) (\<lambda>(s, b).
            Inr (W\<lparr>w_seg := s, w_ticket := (w_ticket W)(w := None), w_buffer := (w_buffer W)(w := b)\<rparr>)))"
| "act n (Fill w bs) W =
     (case w_buffer W w of
        None \<Rightarrow> Inr W
      | Some b \<Rightarrow> bindE (write_to_buffer (w_seg W) b bs) (\<lambda>s.
          Inr (W\<lparr>w_seg := s, w_buffer := (w_buffer W)(w := None)\<rparr>)))"
| "act n (Commit w) W =
     (case w_buffer W w of
        None \<Rightarrow> Inr W
      | Some b \<Rightarrow> Inr (W\<lparr>w_seg := wrapper_commit (w_seg W) b, w_buffer := (w_buffer W)(w := None)\<rparr>))"
| "act n (Abort w) W =
     (case w_buffer W w of
        None \<Rightarrow> Inr W
      | Some b \<Rightarrow> Inr (W\<lparr>w_seg := wrapper_abort (w_seg W) b, w_buffer := (w_buffer W)(w := None)\<rparr>))"
| "act n (Join r) W =
     (let (s, wr) = modify_readers True (w_seg W)
      in Inr (W\<lparr>w_seg := s,
           w_reader := (w_reader W)(r \<mapsto> joined_reader (demo_writer n) (demo_reader n) wr)\<rparr>))"
| "act n (Poll r) W =
     (case w_reader W r of
        None \<Rightarrow> Inr W
      | Some q \<Rightarrow>
          (case poll_buffer 10 q (w_seg W) of
             None \<Rightarrow> Inr W
           | Some res \<Rightarrow> bindE res (\<lambda>(q', s, got).
               Inr (W\<lparr>w_seg := s, w_reader := (w_reader W)(r \<mapsto> q'), w_held := (w_held W)(r := got)\<rparr>))))"
| "act n (Load_Flag r) W =
     (case w_reader W r of
        None \<Rightarrow> Inr W
      | Some q \<Rightarrow> Inr (W\<lparr>w_flag := (w_flag W)(r := poll_flag q (w_seg W))\<rparr>))"
| "act n (Load_Rest r) W =
     (case (w_reader W r, w_flag W r) of
        (Some q, Some READY_FOR_CONSUMER) \<Rightarrow> bindE (poll_ready q (w_seg W)) (\<lambda>p. case p of
          Ready_Message wr \<Rightarrow>
            Inr (W\<lparr>w_reader := (w_reader W)(r \<mapsto> q\<lparr>read_message_cnt := read_message_cnt q + 1\<rparr>),
                 w_held := (w_held W)(r \<mapsto> wr), w_flag := (w_flag W)(r := None)\<rparr>)
        | _ \<Rightarrow> Inr (W\<lparr>w_flag := (w_flag W)(r := None)\<rparr>))
      | _ \<Rightarrow> Inr W)"
| "act n (Release r) W =
     (case (w_reader W r, w_held W r) of
        (Some q, Some wr) \<Rightarrow> bindE (wrapper_release q (w_seg W) wr) (\<lambda>(q', s, wr').
          Inr (W\<lparr>w_seg := s, w_reader := (w_reader W)(r \<mapsto> q'), w_held := (w_held W)(r := None)\<rparr>))
      | _ \<Rightarrow> Inr W)"
| "act n (Unregister r) W =
     (let (s, wr) = modify_readers False (w_seg W)
      in Inr (W\<lparr>w_seg := s, w_leaving := (w_leaving W)(r \<mapsto> write_offset wr)\<rparr>))"
| "act n (Drain r) W =
     (case (w_reader W r, w_leaving W r) of
        (Some q, Some x) \<Rightarrow>
          (case decrement_readers_until 10 q (w_seg W) x of
             None \<Rightarrow> Inr W
           | Some res \<Rightarrow> bindE res (\<lambda>(q', s).
               Inr (W\<lparr>w_seg := s, w_reader := (w_reader W)(r := None), w_leaving := (w_leaving W)(r := None)\<rparr>)))
      | _ \<Rightarrow> Inr W)"

fun history :: "u64 \<Rightarrow> Action list \<Rightarrow> World \<Rightarrow> error + World" where
  "history n [] W = Inr W"
| "history n (a # as') W = bindE (act n a W) (history n as')"

text \<open>What is looked at in the end: for a reader, its offset and whether it holds a message.\<close>

definition offsets :: "World \<Rightarrow> nat \<times> nat" where
  "offsets W = (seg_lo (w_seg W), seg_hi (w_seg W))"

definition reader_view :: "nat \<Rightarrow> World \<Rightarrow> (nat \<times> bool) option" where
  "reader_view r W = map_option (\<lambda>q. (reader_at q, w_held W r \<noteq> None)) (w_reader W r)"

definition views :: "World \<Rightarrow> nat \<Rightarrow> u8 list option" where
  "views W r = map_option (get_as_view (w_seg W)) (w_held W r)"

definition publish :: "nat \<Rightarrow> u64 \<Rightarrow> Action list" where
  "publish w sz = [Reserve w sz, Place w, Commit w]"

definition outcome_of :: "(World \<Rightarrow> 'a) \<Rightarrow> error + World \<Rightarrow> error + 'a" where
  "outcome_of f res = map_sum id f res"

definition low_watermark_assertion :: error where
  "low_watermark_assertion =
     Assert_Failed ''prev_read_low_watermark + total_message_len == abs_read_offset''"

text \<open>A history that meets the conditions: two readers get a message, both release it.\<close>

lemma orderly_history:
  "outcome_of (\<lambda>W. (offsets W, reader_view 0 W, reader_view 1 W)) (history 128
     ([Join 0, Join 1] @ publish 0 14 @ [Poll 0, Release 0, Poll 1, Release 1]) (new_world 128))
   = Inr ((32, 32), Some (32, False), Some (32, False))"
  by code_simp

section \<open>Claiming without a reader\<close>

text \<open>
  A message that is claimed before any reader registered is never released, so the watermark
  stays behind it. A reader that registers afterwards starts behind the message; its first release
  as the last reader fails the assertion on the watermark. With a reader registered first, the same
  messages pass.
\<close>

lemma claim_without_reader_fails:
  "outcome_of offsets (history 128
     (publish 0 14 @ [Join 0] @ publish 0 14 @ [Poll 0, Release 0]) (new_world 128))
     = Inl low_watermark_assertion \<and>
   outcome_of offsets (history 128
     ([Join 0] @ publish 0 14 @ publish 0 14 @ [Poll 0, Release 0, Poll 0, Release 0]) (new_world 128))
     = Inr (64, 64)"
  by (rule conjI; code_simp)

text \<open>The 256th reader makes the count zero.\<close>

lemma reader_count_wraps:
  assumes "seg_readers s = 255"
  shows "seg_readers (fst (modify_readers True s)) = 0"
  using assms
  by (simp add: modify_readers_def case_prod_beta seg_readers_def packed_readers_add)

section \<open>Closing while others are at work\<close>

text \<open>
  Closing is safe only under the conditions of a leaving reader, in four histories. On a full ring the loop of the
  closing reader comes round to a message that another reader has still to read, releases it a
  second time, and fails the assertion on the watermark. A message that a writer commits between
  the two halves of \<open>close\<close> is released by the closing reader, who is not counted in it, and the
  remaining reader never gets it, without any error. A claim that is in progress when a reader
  closes counts a reader that will not come, and the next release by the last reader fails. And the
  loop stops at an aborted message: the messages behind it stay counted for the closed reader, no
  reader is their last, and the watermark no longer moves.
\<close>

lemma closing_races:
  "outcome_of offsets (history 64
     ([Join 0, Join 1] @ publish 0 14 @ [Reserve 0 14, Place 0, Poll 0, Release 0, Poll 0,
      Unregister 0, Drain 0]) (new_world 64))
     = Inl low_watermark_assertion \<and>
   outcome_of (\<lambda>W. (offsets W, reader_view 1 W)) (history 128
     ([Join 0, Join 1, Unregister 0] @ publish 0 14 @ [Drain 0, Poll 1]) (new_world 128))
     = Inr ((32, 32), Some (0, False)) \<and>
   outcome_of offsets (history 128
     ([Join 0, Join 1, Reserve 0 14, Unregister 0, Drain 0, Place 0, Commit 0, Poll 1, Release 1] @
      publish 0 14 @ [Poll 1, Release 1]) (new_world 128))
     = Inl low_watermark_assertion \<and>
   outcome_of (\<lambda>W. (offsets W, reader_view 1 W)) (history 128
     ([Join 0, Join 1, Reserve 0 14, Place 0, Abort 0] @ publish 0 14 @
      [Unregister 0, Drain 0, Poll 1, Release 1, Poll 1]) (new_world 128))
     = Inr ((0, 64), Some (64, False))"
  by (intro conjI; code_simp)

section \<open>Flags that are not the message's\<close>

text \<open>
  A poll believes an aborted flag without comparing offsets, and two flags are not what they
  seem. A reader that is one lap ahead of another finds the flag of a message it released before,
  releases it again, and fails the assertion on the watermark. And when messages have lengths that
  do not keep their headers on a grid, a byte of an old offset field is read as the flag of a
  header that was never written: the reader releases a message that does not exist, moves past the
  write offset, and does not see the next message.
\<close>

lemma aborted_flag_is_trusted:
  "outcome_of offsets (history 64
     [Join 0, Join 1, Reserve 0 14, Place 0, Abort 0, Reserve 0 14, Place 0, Poll 0] (new_world 64))
     = Inl low_watermark_assertion \<and>
   outcome_of (\<lambda>W. (offsets W, reader_view 0 W)) (history 512
     ([Join 0] @ publish 0 240 @ publish 0 218 @ [Poll 0, Release 0, Poll 0, Release 0, Reserve 0 223, Place 0] @
       publish 0 223 @ [Poll 0, Release 0, Poll 0] @ publish 0 14 @ [Poll 0]) (new_world 512))
     = Inr ((771, 785), Some (771, False))"
  by (intro conjI; code_simp)

section \<open>A poll that is overtaken\<close>

text \<open>
  A poll loads the flag before the offset, and between the two loads the message can be
  replaced. A reader one lap ahead loads the flag of the old message at its place; the last reader
  of that message releases it and a writer that was waiting places its header there; now the
  offset matches, and the poll returns a message whose payload is not written yet. The reader sees
  zeros and releases the message, and the payload that is written afterwards never reaches it. Had
  the poll run as a whole before or after the others, it would have returned nothing.
\<close>

theorem overtaken_poll_reads_unwritten:
  "outcome_of (\<lambda>W. (views W 0, w_buffer W 1 \<noteq> None)) (history 64
     ([Join 0, Join 1] @ publish 0 14 @ [Reserve 0 14, Place 0, Poll 0, Release 0, Poll 0,
      Reserve 1 14, Load_Flag 0, Poll 1, Release 1, Place 1, Load_Rest 0]) (new_world 64))
     = Inr (Some (replicate 14 0), True) \<and>
   outcome_of (\<lambda>W. (views W 1, reader_view 0 W)) (history 64
     ([Join 0, Join 1] @ publish 0 14 @ [Reserve 0 14, Place 0, Poll 0, Release 0, Poll 0,
      Reserve 1 14, Load_Flag 0, Poll 1, Release 1, Place 1, Load_Rest 0, Release 0,
      Fill 1 (replicate 14 7), Poll 1, Poll 0]) (new_world 64))
     = Inr (Some (replicate 14 7), Some (96, False)) \<and>
   outcome_of (\<lambda>W. views W 0) (history 64
     ([Join 0, Join 1] @ publish 0 14 @ [Reserve 0 14, Place 0, Poll 0, Release 0, Poll 0,
      Reserve 1 14, Poll 0, Poll 1, Release 1, Place 1, Poll 0]) (new_world 64))
     = Inr None"
  by (intro conjI; code_simp)

end
