(* ===== verification/Publication_Runs.thy ===== *)
theory Publication_Runs
  imports Archive
begin

text \<open>
  What a publication does is a run of the queue system: every claim, with all its levels, is a run
  of one writer, and committing the buffers that were claimed and filled publishes them one after
  the other, in the order of the claims.
\<close>

section \<open>Claims as runs\<close>

lemma place_claim_offset: "place_claim q s sz t = Inr (s', b) \<Longrightarrow> seg_hi s' = seg_hi s"
  by (auto simp: place_claim_def insert_skip_message_def commit_buffer_def Let_def bindE_eq_Inr
      split: if_splits)

lemma place_claim_watermark: "place_claim q s sz t = Inr (s', b) \<Longrightarrow> seg_lo s' = seg_lo s"
  by (auto simp: place_claim_def insert_skip_message_def commit_buffer_def Let_def bindE_eq_Inr
      split: if_splits)

text \<open>
  One level of a claim is two steps of a writer: a reservation, and a header or a skip message. Only
  the place after a message has to be one of \<open>G\<close>; the place after a padding is the start of the
  ring.
\<close>

lemma claim_level_run:
  assumes reach: "reachable wq G \<sigma>" "threads \<sigma> w = None" "open_readers \<sigma> \<noteq> Map.empty"
    and checks: "claim_checks wq sz"
    and res: "reserve_write_offset wq (seg \<sigma>) (sz + sizeof_MessageHeader) = (s1, t)"
    and go: "\<not> must_wait wq s1 t" and place: "place_claim wq s1 sz t = Inr (s2, got)"
    and far: "seg_hi (seg \<sigma>) + 2 * q_cap wq < 2 ^ 56"
    and G: "\<And>b. got = Some b \<Longrightarrow> (wrapper_data b + unat (wrapper_size b)) mod q_cap wq \<in> G"
  shows "reachable wq G (\<sigma>\<lparr>seg := s2, threads := (threads \<sigma>)(w := map_option Holding got)\<rparr>)"
    and "seg_lo s2 = seg_lo (seg \<sigma>)" "seg_hi (seg \<sigma>) \<le> seg_hi s2" "seg_hi s2 \<le> seg_hi (seg \<sigma>) + q_cap wq"
    and "got = Some b \<Longrightarrow> claimed_at s2 b = seg_hi (seg \<sigma>) \<and> seg_hi (seg \<sigma>) < seg_hi s2 \<and>
      unat (wrapper_size b) = unat sz + 18"
proof -
  let ?c = "q_cap wq" and ?s = "seg \<sigma>"
  obtain A where "refines wq G \<sigma> A" using reachable_refines [OF reach(1)] .
  then have sane: "sane_queue wq" and header: "header_room ?c (seg_hi ?s)" and c: "0 < ?c" and zero: "0 \<in> G"
    by (auto simp: refines_def rel_offsets_def sane_queue_def intro: spaced_zero)
  have small: "unat sz < 2 ^ 31"
    using checks claim_checks_nat [OF sane, of sz] sane by (simp add: claim_checks_def sane_queue_def)
  then have sz18: "unat (sz + sizeof_MessageHeader) = unat sz + 18" by (simp add: unat_add_u64)
  note step = region_len_le [of ?c "seg_hi ?s" "unat (sz + sizeof_MessageHeader)"]
  have small': "unat (sz + sizeof_MessageHeader) < 2 ^ 32" using small sz18 by simp
  have "seg_hi ?s + region_len ?c (seg_hi ?s) (unat (sz + sizeof_MessageHeader)) < 2 ^ 56"
    using far step by linarith
  note r = reserve_write_offset_nat [OF sane small' this res, unfolded sz18]
  have hi2: "seg_hi s2 = seg_hi s1" by (rule place_claim_offset [OF place])
  show "seg_lo s2 = seg_lo ?s" using place_claim_watermark [OF place] r(6) by simp
  show "seg_hi ?s \<le> seg_hi s2" "seg_hi s2 \<le> seg_hi ?s + ?c" using hi2 r(1) step sz18 by simp_all
  have message: "claim_fits ?c (ticket_start t) (unat sz) \<and> wrapper_data b = seg_hi ?s mod ?c \<and>
      unat (wrapper_size b) = unat sz + 18 \<and> claimed_at s2 b = seg_hi ?s \<and> seg_hi s1 = seg_hi ?s + (unat sz + 18)"
    if "got = Some b" for b
  proof -
    have fits: "claim_fits ?c (ticket_start t) (unat sz)"
      using place_claim_skips [OF sane small, of t s1] header place that r(3) by auto
    with place_claim_fits [OF sane small this, of s1] place that r(1-3) sz18 show ?thesis
      by (auto simp: claimed_at_def header_ring_header ticket_start_def seg_hi_def region_len_fits)
  qed
  then show "got = Some b \<Longrightarrow> claimed_at s2 b = seg_hi ?s \<and> seg_hi ?s < seg_hi s2 \<and>
      unat (wrapper_size b) = unat sz + 18" using hi2 by simp
  have "seg_hi s1 mod ?c \<in> G"
  proof (cases got)
    case None
    then have "\<not> claim_fits ?c (ticket_start t) (unat sz)"
      using place_claim_fits [OF sane small, of t s1] place by auto
    with r(1,3) mod_to_end [OF c, of "seg_hi ?s"] zero show ?thesis by (simp add: region_len_not_fits)
  next
    case (Some b)
    with message G show ?thesis by (metis mod_add_left_eq)
  qed
  then have 1: "reachable wq G (\<sigma>\<lparr>seg := s1, threads := (threads \<sigma>)(w \<mapsto> Waiting sz t)\<rparr>)" (is "reachable _ _ ?\<sigma>1")
    by (rule reachable_step [OF reach(1) sys_step.reserve [OF reach(2,3) checks res _ far]])
  have "sys_step wq G ?\<sigma>1 (?\<sigma>1\<lparr>seg := s2, threads := (threads ?\<sigma>1)(w := map_option Holding got)\<rparr>)"
    using go place sys_step.skip [of ?\<sigma>1 w sz t wq s2 G] sys_step.place [of ?\<sigma>1 w sz t wq s2 _ G]
    by (cases got) simp_all
  from reachable_step [OF 1 this]
  show "reachable wq G (\<sigma>\<lparr>seg := s2, threads := (threads \<sigma>)(w := map_option Holding got)\<rparr>)"
    by (simp add: fun_upd_def cong: if_cong)
qed

text \<open>A claim that hands out a buffer is a run of one writer, of at most as many levels as the fuel.\<close>

lemma claim_run:
  assumes "reachable wq G \<sigma>" "threads \<sigma> w = None" "open_readers \<sigma> \<noteq> Map.empty"
    and "claim_buffer n wq (seg \<sigma>) sz = Some (Inr (Claimed s' b))"
    and "(wrapper_data b + unat (wrapper_size b)) mod q_cap wq \<in> G" "seg_hi (seg \<sigma>) + (n + 1) * q_cap wq < 2 ^ 56"
  shows "reachable wq G (\<sigma>\<lparr>seg := s', threads := (threads \<sigma>)(w \<mapsto> Holding b)\<rparr>) \<and>
    seg_hi (seg \<sigma>) \<le> claimed_at s' b \<and> claimed_at s' b < seg_hi s' \<and>
    seg_hi s' \<le> seg_hi (seg \<sigma>) + n * q_cap wq \<and> seg_lo s' = seg_lo (seg \<sigma>) \<and>
    unat (wrapper_size b) = unat sz + 18"
  using assms
proof (induction n arbitrary: \<sigma>)
  case 0
  then show ?case by simp
next
  case (Suc n)
  obtain s1 t where res: "reserve_write_offset wq (seg \<sigma>) (sz + sizeof_MessageHeader) = (s1, t)" by fastforce
  have checks: "claim_checks wq sz" and resume: "claim_resume n wq s1 sz t = Some (Inr (Claimed s' b))"
    using Suc.prems(4) by (auto simp: claim_buffer.simps claim_checks_def res split: if_splits)
  have go: "\<not> must_wait wq s1 t" using resume by (auto simp: claim_resume.simps)
  obtain s2 got where place: "place_claim wq s1 sz t = Inr (s2, got)"
    using resume go by (auto simp: claim_resume.simps split: sum.splits)
  have "seg_hi (seg \<sigma>) + 2 * q_cap wq \<le> seg_hi (seg \<sigma>) + (Suc n + 1) * q_cap wq" by simp
  with Suc.prems(6) have far: "seg_hi (seg \<sigma>) + 2 * q_cap wq < 2 ^ 56" by linarith
  have got: "b' = b" if "got = Some b'" for b'
    using that resume go place by (simp add: claim_resume.simps)
  with Suc.prems(5) have G: "(wrapper_data b' + unat (wrapper_size b')) mod q_cap wq \<in> G" if "got = Some b'" for b'
    using that by simp
  note level = claim_level_run [OF Suc.prems(1-3) checks res go place far G]
  show ?case
  proof (cases got)
    case (Some b')
    with resume go place got have "s2 = s'" "got = Some b" by (auto simp: claim_resume.simps)
    with level(1-4) level(5) [of b] show ?thesis by (simp del: fun_upd_apply)
  next
    case None
    then have "reachable wq G (\<sigma>\<lparr>seg := s2\<rparr>)" using level(1) Suc.prems(2) by (simp add: fun_upd_idem)
    moreover have "claim_buffer n wq s2 sz = Some (Inr (Claimed s' b))"
      using resume go place None by (simp add: claim_resume.simps)
    moreover have "seg_hi s2 + (n + 1) * q_cap wq < 2 ^ 56" using Suc.prems(6) level(4) by simp
    ultimately show ?thesis using Suc.IH [of "\<sigma>\<lparr>seg := s2\<rparr>"] Suc.prems(2,3,5) level(2-4) by auto
  qed
qed

section \<open>The buffers a publication holds\<close>

text \<open>Every buffer that is held counts as one writer; \<open>bs\<close> are those of the writers from \<open>j\<close> on.\<close>

definition holding :: "nat \<Rightarrow> RaiiWrapper list \<Rightarrow> nat \<rightharpoonup> WriterPhase" where
  "holding j bs w = (if j \<le> w \<and> w < j + length bs then Some (Holding (bs ! (w - j))) else None)"

lemma holding_Nil [simp]: "holding j [] = Map.empty"
  by (simp add: holding_def fun_eq_iff)

lemma holding_snoc: "holding j (bs @ [b]) = (holding j bs)(j + length bs \<mapsto> Holding b)"
  by (auto simp: holding_def fun_eq_iff nth_append)

lemma holding_tail: "(holding j (b # bs))(j := None) = holding (Suc j) bs"
  by (auto simp: holding_def fun_eq_iff nth_Cons')

lemma holding_head: "holding j (b # bs) j = Some (Holding b)" "holding j bs (j + length bs) = None"
  by (simp_all add: holding_def)

lemma holding_mem: "b \<in> set bs \<Longrightarrow> \<exists>w\<ge>j. holding j bs w = Some (Holding b)"
proof -
  assume "b \<in> set bs"
  then obtain i where "i < length bs" "b = bs ! i" by (auto simp: in_set_conv_nth)
  then show ?thesis by (intro exI [of _ "j + i"]) (simp add: holding_def)
qed

text \<open>
  The header of a buffer that is held says where it was claimed, within one lap of the slowest
  reader; so as long as no reader makes progress it goes on saying so, whatever others claim and
  publish.
\<close>

lemma held_place:
  assumes "reachable wq G \<sigma>" "threads \<sigma> w = Some (Holding b)"
  shows "claimed_at (seg \<sigma>) b mod q_cap wq = wrapper_data b"
    "seg_lo (seg \<sigma>) \<le> claimed_at (seg \<sigma>) b" "claimed_at (seg \<sigma>) b < seg_lo (seg \<sigma>) + q_cap wq"
proof -
  obtain A where R: "refines wq G \<sigma> A" using reachable_refines [OF assms(1)] .
  obtain e where e: "live A e" "e_state e = Claimed_Entry" "wrapper_data b = e_start e mod q_cap wq"
    using holding_entry [OF R assms(2)] by blast
  have inv: "spec_inv (q_cap wq) A" and lo: "seg_lo (seg \<sigma>) = s_lo A"
    and "live_ok (q_cap wq) (ring (seg \<sigma>)) (card (behind A (e_start e))) e"
    using R e(1) by (simp_all add: refines_def rel_offsets_def rel_mem_def)
  then have "claimed_at (seg \<sigma>) b = e_start e" by (simp add: claimed_at_def e(3) live_ok_def Let_def)
  with e(3) lo live_window [OF inv e(1)] show "claimed_at (seg \<sigma>) b mod q_cap wq = wrapper_data b"
    "seg_lo (seg \<sigma>) \<le> claimed_at (seg \<sigma>) b" "claimed_at (seg \<sigma>) b < seg_lo (seg \<sigma>) + q_cap wq"
    by (simp_all add: e_end_def)
qed

lemma held_place_stable:
  assumes "reachable wq G \<sigma>" "threads \<sigma> w = Some (Holding b)"
    and "reachable wq G \<sigma>'" "threads \<sigma>' w' = Some (Holding b)" "seg_lo (seg \<sigma>') = seg_lo (seg \<sigma>)"
  shows "claimed_at (seg \<sigma>') b = claimed_at (seg \<sigma>) b"
  using held_place [OF assms(1,2)] held_place [OF assms(3,4)] assms(5) by (metis mod_window)

lemma held_apart:
  assumes "reachable wq G \<sigma>" "threads \<sigma> w = Some (Holding b)" "threads \<sigma> w' = Some (Holding b')" "w \<noteq> w'"
  shows "disjoint_spans b b'"
proof -
  obtain A where R: "refines wq G \<sigma> A" using reachable_refines [OF assms(1)] .
  then have inv: "spec_inv (q_cap wq) A" by (simp add: refines_def)
  obtain e where e: "s_owner A w = Some (e_start e)" "live A e" "wrapper_data b = e_start e mod q_cap wq"
    "unat (wrapper_size b) = e_len e" using holding_entry [OF R assms(2)] by blast
  obtain f where f: "s_owner A w' = Some (e_start f)" "live A f" "wrapper_data b' = e_start f mod q_cap wq"
    "unat (wrapper_size b') = e_len f" using holding_entry [OF R assms(3)] by blast
  have "e \<noteq> f" using inv e(1) f(1) assms(4) by (auto simp: spec_inv_def spec_owner_ok_def)
  from spans_apart [OF inv e(2) f(2) this e(3,4) f(3,4)] show ?thesis .
qed

lemma holding_apart:
  assumes "reachable wq G \<sigma>" "threads \<sigma> = holding j bs"
  shows "sorted_wrt disjoint_spans bs"
  unfolding sorted_wrt_iff_nth_less
proof (intro allI impI)
  fix i k assume "i < k" "k < length bs"
  with assms(2) show "disjoint_spans (bs ! i) (bs ! k)"
    by (intro held_apart [OF assms(1), of "j + i" _ "j + k"]) (simp_all add: holding_def)
qed

section \<open>Claiming several buffers\<close>

fun pub_claims ::
    "nat \<Rightarrow> ArchivePublication \<Rightarrow> Segment \<Rightarrow> u64 list \<Rightarrow> (ArchivePublication \<times> Segment \<times> (nat \<times> u64) list) option" where
  "pub_claims fuel p s [] = Some (p, s, [])"
| "pub_claims fuel p s (sz # szs) =
     (case pub_claim_buffer fuel p s sz of
        Some (Inr (Pub_Span p' s' span)) \<Rightarrow>
          map_option (\<lambda>(p'', s'', spans). (p'', s'', span # spans)) (pub_claims fuel p' s' szs)
      | _ \<Rightarrow> None)"

lemma pub_claim_buffer_span:
  "pub_claim_buffer k p s sz = Some (Inr (Pub_Span p' s' span)) \<longleftrightarrow>
   (\<exists>b. claim_buffer k (pub_queue p) s sz = Some (Inr (Claimed s' b)) \<and>
      p' = p\<lparr>to_commit := to_commit p @ [b]\<rparr> \<and> span = get_as_span b)"
  by (auto simp: pub_claim_buffer_def split: option.splits sum.splits ClaimResult.splits)

lemma span_place:
  assumes "unat (wrapper_size b) = n + 18" "get_as_span b = (a, len)"
  shows "a + unat len = wrapper_data b + unat (wrapper_size b)" "unat len = n" "a = wrapper_data b + 18"
  using assms by (auto simp: get_as_span_def unat_sub_u64)

lemma claim_buffer_size:
  "claim_buffer n q s sz = Some (Inr (Claimed s' b)) \<Longrightarrow>
     wrapper_size b = sz + sizeof_MessageHeader \<and> claim_checks q sz"
proof (induction n arbitrary: s)
  case (Suc n)
  then show ?case
    by (auto simp: claim_buffer.simps claim_resume.simps claim_checks_def Let_def dest: place_claim_size
        split: if_splits prod.splits sum.splits option.splits)
qed simp

text \<open>
  Claims that all hand out a span are a run that ends with the buffers held, in the order of their
  places.
\<close>

lemma claims_run:
  assumes "reachable wq G \<sigma>" "threads \<sigma> = holding 0 (to_commit p)" "open_readers \<sigma> \<noteq> Map.empty"
    and "pub_queue p = wq" "pub_claims k p (seg \<sigma>) szs = Some (p', s', spans)"
    and "\<forall>(a, len)\<in>set spans. (a + unat len) mod q_cap wq \<in> G"
    and "seg_hi (seg \<sigma>) + (k * length szs + 1) * q_cap wq < 2 ^ 56"
  shows "\<exists>bs. to_commit p' = to_commit p @ bs \<and> pub_queue p' = wq \<and> spans = map get_as_span bs \<and>
    reachable wq G (\<sigma>\<lparr>seg := s', threads := holding 0 (to_commit p')\<rparr>) \<and> seg_lo s' = seg_lo (seg \<sigma>) \<and>
    map (\<lambda>b. unat (wrapper_size b)) bs = map (\<lambda>sz. unat sz + 18) szs \<and>
    sorted_wrt (<) (map (claimed_at s') bs) \<and> (\<forall>b\<in>set bs. seg_hi (seg \<sigma>) \<le> claimed_at s' b)"
  using assms
proof (induction szs arbitrary: \<sigma> p spans)
  case Nil
  then show ?case by (cases \<sigma>) simp
next
  case (Cons sz szs)
  let ?c = "q_cap wq"
  obtain p1 s1 span spans1 where claim: "pub_claim_buffer k p (seg \<sigma>) sz = Some (Inr (Pub_Span p1 s1 span))"
    and rest: "pub_claims k p1 s1 szs = Some (p', s', spans1)" and spans: "spans = span # spans1"
    using Cons.prems(5) by (auto split: option.splits sum.splits PubClaim.splits)
  then obtain b where b: "claim_buffer k wq (seg \<sigma>) sz = Some (Inr (Claimed s1 b))"
    and p1: "p1 = p\<lparr>to_commit := to_commit p @ [b]\<rparr>" and span: "span = get_as_span b"
    using Cons.prems(4) pub_claim_buffer_span by blast
  let ?w = "length (to_commit p)"
  have free: "threads \<sigma> ?w = None" using Cons.prems(2) by (simp add: holding_def)
  obtain A where "refines wq G \<sigma> A" using reachable_refines [OF Cons.prems(1)] .
  then have sane: "sane_queue wq" by (simp add: refines_def rel_offsets_def)
  have "unat sz + 18 \<le> ?c" using claim_buffer_size [OF b] claim_checks_nat [OF sane, of sz] by (simp add: claim_checks_def)
  then have size: "unat (wrapper_size b) = unat sz + 18"
    using claim_buffer_size [OF b] sane by (simp add: unat_add_u64 sane_queue_def)
  obtain a len where al: "span = (a, len)" by fastforce
  have place: "(wrapper_data b + unat (wrapper_size b)) mod ?c \<in> G"
    using Cons.prems(6) span_place(1) [OF size, of a len] spans span al by auto
  have "(k + 1) * ?c \<le> (k * length (sz # szs) + 1) * ?c" by (intro mult_le_mono) simp_all
  with Cons.prems(7) have far: "seg_hi (seg \<sigma>) + (k + 1) * ?c < 2 ^ 56" by linarith
  let ?\<sigma>1 = "\<sigma>\<lparr>seg := s1, threads := (threads \<sigma>)(?w \<mapsto> Holding b)\<rparr>"
  note one = claim_run [OF Cons.prems(1) free Cons.prems(3) b place far]
  have hold1: "threads ?\<sigma>1 = holding 0 (to_commit p1)"
    using Cons.prems(2) by (simp add: p1 holding_snoc)
  have "seg_hi s1 + (k * length szs + 1) * ?c < 2 ^ 56"
    using one Cons.prems(7) by (simp add: algebra_simps)
  then obtain bs where bs: "to_commit p' = to_commit p1 @ bs" "pub_queue p' = wq" "spans1 = map get_as_span bs"
    "reachable wq G (?\<sigma>1\<lparr>seg := s', threads := holding 0 (to_commit p')\<rparr>)" "seg_lo s' = seg_lo s1"
    "map (\<lambda>b. unat (wrapper_size b)) bs = map (\<lambda>sz. unat sz + 18) szs"
    "sorted_wrt (<) (map (claimed_at s') bs)" "\<forall>b\<in>set bs. seg_hi s1 \<le> claimed_at s' b"
    using Cons.IH [of ?\<sigma>1 p1 spans1] one hold1 Cons.prems(3,4,6) rest spans by (auto simp: p1)
  let ?\<sigma>' = "\<sigma>\<lparr>seg := s', threads := holding 0 (to_commit p')\<rparr>"
  have reach': "reachable wq G ?\<sigma>'" using bs(4) by simp
  have "holding 0 (to_commit p') ?w = Some (Holding b)" by (simp add: bs(1) p1 holding_def nth_append)
  then have "claimed_at s' b = claimed_at s1 b"
    using held_place_stable [of wq G ?\<sigma>1 ?w b ?\<sigma>' ?w] one reach' bs(5) by simp
  with bs(7,8) one have "sorted_wrt (<) (map (claimed_at s') (b # bs))"
    "\<forall>b\<in>set (b # bs). seg_hi (seg \<sigma>) \<le> claimed_at s' b"
    by (auto intro: less_le_trans order_trans)
  with reach' bs one size spans span show ?case
    by (intro exI [of _ "b # bs"]) (simp add: p1)
qed

section \<open>Filling and committing them\<close>

text \<open>The user writes into the spans; then the publication sets the flags.\<close>

fun fill_spans :: "(nat \<times> u64) list \<Rightarrow> u8 list list \<Rightarrow> mem \<Rightarrow> mem" where
  "fill_spans ((a, len) # spans) (data # rest) m = fill_spans spans rest (write_bytes m a data)"
| "fill_spans _ _ m = m"

text \<open>Publishing one buffer after the other, and the record of what was sent.\<close>

fun publish_each :: "RaiiWrapper list \<Rightarrow> u8 list list \<Rightarrow> Segment \<Rightarrow> Segment" where
  "publish_each (b # bs) (data # rest) s =
     publish_each bs rest (wrapper_commit (s\<lparr>ring := write_bytes (ring s) (wrapper_data b + 18) data\<rparr>) b)"
| "publish_each _ _ s = s"

fun sent_each :: "nat list \<Rightarrow> u8 list list \<Rightarrow> (nat \<rightharpoonup> u8 list) \<Rightarrow> (nat \<rightharpoonup> u8 list)" where
  "sent_each (x # xs) (data # rest) m = sent_each xs rest (m(x \<mapsto> data))"
| "sent_each _ _ m = m"

definition fits_in :: "RaiiWrapper \<Rightarrow> u8 list \<Rightarrow> bool" where
  "fits_in b data \<longleftrightarrow> unat (wrapper_size b) = length data + 18"

lemma spans_fit:
  assumes "map (\<lambda>b. unat (wrapper_size b)) bs = map (\<lambda>sz. unat sz + 18) (szs :: u64 list)"
    and "list_all2 (\<lambda>(a, len) data. length data = unat len) (map get_as_span bs) datas"
  shows "list_all2 fits_in bs datas"
proof (rule list_all2_all_nthI)
  show n: "length bs = length datas" using assms(2) by (auto dest: list_all2_lengthD)
  fix i assume i: "i < length bs"
  with assms(1) have size: "unat (wrapper_size (bs ! i)) = unat (szs ! i) + 18"
    by (metis length_map nth_map)
  obtain a len where span: "get_as_span (bs ! i) = (a, len)" by fastforce
  have "length (datas ! i) = unat len"
    using list_all2_nthD [OF assms(2), of i] i span by simp
  with span_place(2) [OF size span] size show "fits_in (bs ! i) (datas ! i)" by (simp add: fits_in_def)
qed

lemma fill_spans_step [simp]:
  "fill_spans (get_as_span b # spans) (data # rest) m =
     fill_spans spans rest (write_bytes m (wrapper_data b + 18) data)"
  by (simp add: get_as_span_def)

lemma fill_spans_upd:
  assumes "list_all2 fits_in bs datas"
    and "\<forall>b\<in>set bs. \<not> (wrapper_data b + 18 \<le> i \<and> i < wrapper_data b + unat (wrapper_size b))"
  shows "fill_spans (map get_as_span bs) datas (m(i := v)) = (fill_spans (map get_as_span bs) datas m)(i := v)"
  using assms
proof (induction arbitrary: m rule: list_all2_induct)
  case (Cons b bs data datas)
  have "write_bytes (m(i := v)) (wrapper_data b + 18) data = (write_bytes m (wrapper_data b + 18) data)(i := v)"
    using Cons.hyps(1) Cons.prems by (auto simp: fun_eq_iff write_bytes_def fits_in_def)
  with Cons show ?case by (simp del: fun_upd_apply)
qed simp

lemma fill_then_commit:
  assumes "list_all2 fits_in bs datas" "sorted_wrt disjoint_spans bs"
  shows "publish_each bs datas s =
    foldl wrapper_commit (s\<lparr>ring := fill_spans (map get_as_span bs) datas (ring s)\<rparr>) bs"
  using assms
proof (induction arbitrary: s rule: list_all2_induct)
  case (Cons b bs data datas)
  let ?m = "write_bytes (ring s) (wrapper_data b + 18) data"
  have apart: "\<forall>b'\<in>set bs. \<not> (wrapper_data b' + 18 \<le> wrapper_data b + 17 \<and>
      wrapper_data b + 17 < wrapper_data b' + unat (wrapper_size b'))"
    using Cons.prems Cons.hyps(1) by (fastforce simp: disjoint_spans_def fits_in_def)
  have IH: "publish_each bs datas (wrapper_commit (s\<lparr>ring := ?m\<rparr>) b) =
      foldl wrapper_commit ((wrapper_commit (s\<lparr>ring := ?m\<rparr>) b)\<lparr>ring :=
        fill_spans (map get_as_span bs) datas (ring (wrapper_commit (s\<lparr>ring := ?m\<rparr>) b))\<rparr>) bs"
    using Cons.IH Cons.prems by simp
  have "fill_spans (map get_as_span bs) datas (?m(wrapper_data b + 17 := 1)) =
      (fill_spans (map get_as_span bs) datas ?m)(wrapper_data b + 17 := 1)"
    by (rule fill_spans_upd [OF Cons.hyps(2) apart])
  then have "(wrapper_commit (s\<lparr>ring := ?m\<rparr>) b)\<lparr>ring :=
        fill_spans (map get_as_span bs) datas (ring (wrapper_commit (s\<lparr>ring := ?m\<rparr>) b))\<rparr> =
      wrapper_commit (s\<lparr>ring := fill_spans (map get_as_span bs) datas ?m\<rparr>) b"
    by (simp add: wrapper_commit_def commit_buffer_def set_commit_flag_def del: fun_upd_apply)
  with IH show ?case by simp
qed simp

text \<open>Writing into a buffer that is held and committing it publishes what was written.\<close>

lemma publish_step:
  assumes "reachable wq G \<sigma>" "threads \<sigma> w = Some (Holding b)" "fits_in b data"
  shows "reachable wq G (\<sigma>\<lparr>
      seg := wrapper_commit ((seg \<sigma>)\<lparr>ring := write_bytes (ring (seg \<sigma>)) (wrapper_data b + 18) data\<rparr>) b,
      threads := (threads \<sigma>)(w := None), sent := (sent \<sigma>)(claimed_at (seg \<sigma>) b \<mapsto> data)\<rparr>)"
proof -
  have "write_to_buffer (seg \<sigma>) b data =
      Inr (wrapper_commit ((seg \<sigma>)\<lparr>ring := write_bytes (ring (seg \<sigma>)) (wrapper_data b + 18) data\<rparr>) b)"
    "payload_after_write (seg \<sigma>) b data = data"
    using assms(3) by (simp_all add: fits_in_def write_to_buffer_def wrapper_commit_def payload_after_write_def)
  with sys_step.publish [OF assms(2), of data _ wq G] show ?thesis
    by (intro reachable_step [OF assms(1)]) simp
qed

lemma seg_lo_commit [simp]: "seg_lo (wrapper_commit (s\<lparr>ring := m\<rparr>) b) = seg_lo s"
  by (simp add: seg_lo_def wrapper_commit_def commit_buffer_def)

text \<open>Committing all the buffers that are held, once they are filled, publishes them in order.\<close>

lemma publishes_run:
  assumes "list_all2 fits_in bs datas" "reachable wq G \<sigma>" "threads \<sigma> = holding j bs"
  shows "reachable wq G (\<sigma>\<lparr>seg := publish_each bs datas (seg \<sigma>), threads := Map.empty,
    sent := sent_each (map (claimed_at (seg \<sigma>)) bs) datas (sent \<sigma>)\<rparr>)"
  using assms
proof (induction arbitrary: j \<sigma> rule: list_all2_induct)
  case Nil
  then show ?case by (cases \<sigma>) simp
next
  case (Cons b bs data datas)
  let ?s1 = "wrapper_commit ((seg \<sigma>)\<lparr>ring := write_bytes (ring (seg \<sigma>)) (wrapper_data b + 18) data\<rparr>) b"
  let ?\<sigma>1 = "\<sigma>\<lparr>seg := ?s1, threads := holding (Suc j) bs, sent := (sent \<sigma>)(claimed_at (seg \<sigma>) b \<mapsto> data)\<rparr>"
  have reach1: "reachable wq G ?\<sigma>1"
    using publish_step [OF Cons.prems(1) _ Cons.hyps(1), of j] Cons.prems(2) holding_tail [of j b bs]
    by (simp add: holding_head del: fun_upd_apply)
  have "claimed_at ?s1 b' = claimed_at (seg \<sigma>) b'" if in_bs: "b' \<in> set bs" for b'
  proof -
    obtain w where w: "w \<ge> Suc j" "holding (Suc j) bs w = Some (Holding b')"
      using holding_mem [OF in_bs, of "Suc j"] by blast
    then have "threads \<sigma> w = Some (Holding b')"
      using Cons.prems(2) holding_tail [of j b bs] by (metis Suc_n_not_le_n fun_upd_apply)
    from held_place_stable [OF Cons.prems(1) this reach1, of w] w(2) show ?thesis by simp
  qed
  then have "map (claimed_at ?s1) bs = map (claimed_at (seg \<sigma>)) bs" by simp
  with Cons.IH [OF reach1, of "Suc j"] show ?case by (simp del: fun_upd_apply)
qed

section \<open>What was sent, in order\<close>

text \<open>The messages of \<open>m\<close> at the offsets that satisfy \<open>P\<close>, in the order of the offsets.\<close>

definition listed :: "(nat \<Rightarrow> bool) \<Rightarrow> (nat \<rightharpoonup> u8 list) \<Rightarrow> u8 list list" where
  "listed P m = map (the \<circ> m) (sorted_list_of_set {x \<in> dom m. P x})"

lemma sorted_list_of_set_split:
  fixes M :: "nat set"
  assumes "finite M"
  shows "sorted_list_of_set {x \<in> M. x < p} @ sorted_list_of_set {x \<in> M. p \<le> x} = sorted_list_of_set M"
  using assms by (intro sorted_distinct_set_unique) (auto simp: sorted_append)

lemma sorted_list_of_set_snoc:
  fixes M :: "nat set"
  assumes "finite M" "\<And>y. y \<in> M \<Longrightarrow> y < x"
  shows "sorted_list_of_set (insert x M) = sorted_list_of_set M @ [x]"
proof -
  have "{z \<in> insert x M. z < x} = M" "{z \<in> insert x M. x \<le> z} = {x}"
    using assms(2) by (fastforce simp: not_le [symmetric])+
  with sorted_list_of_set_split [of "insert x M" x] assms(1) show ?thesis by simp
qed

lemma listed_upd:
  assumes "finite (dom m)" "\<forall>y\<in>dom m. y < x" "P x"
  shows "listed P (m(x \<mapsto> data)) = listed P m @ [data]"
proof -
  let ?M = "{y \<in> dom m. P y}"
  have "{y \<in> dom (m(x \<mapsto> data)). P y} = insert x ?M" using assms(3) by auto
  moreover have "sorted_list_of_set (insert x ?M) = sorted_list_of_set ?M @ [x]"
    using assms(1,2) by (intro sorted_list_of_set_snoc) auto
  moreover have "map (the \<circ> m(x \<mapsto> data)) (sorted_list_of_set ?M) = map (the \<circ> m) (sorted_list_of_set ?M)"
    using assms(1,2) by (intro map_cong) auto
  ultimately show ?thesis by (simp add: listed_def)
qed

lemma listed_sent_each:
  assumes "length xs = length datas" "finite (dom m)" "\<forall>x\<in>set xs. \<forall>y\<in>dom m. y < x"
    and "sorted_wrt (<) xs" "\<forall>x\<in>set xs. P x"
  shows "listed P (sent_each xs datas m) = listed P m @ datas"
  using assms
proof (induction xs datas arbitrary: m rule: list_induct2)
  case (Cons x xs data datas)
  have "listed P (sent_each xs datas (m(x \<mapsto> data))) = listed P (m(x \<mapsto> data)) @ datas"
    using Cons.prems by (intro Cons.IH) (auto simp del: fun_upd_apply)
  with Cons.prems show ?case by (simp add: listed_upd)
qed simp

end
