(* ===== verification/Ipc_Closing.thy ===== *)
theory Ipc_Closing
  imports Ipc_Sessions Publication_Runs
begin

text \<open>
  Why a leaving reader must not meet a full ring (\<open>close\<close> and \<open>decrement_readers_until\<close> of
  message_transport/ipc_queue.cpp): the loop of \<open>close\<close> looks at the flag and not at the offset of
  the header it comes to, and on a full ring the place behind the last message is that of the oldest.
\<close>

section \<open>The drain up to the write offset\<close>

text \<open>With another reader at the low watermark the drain gets to the write offset and goes on.\<close>

lemma drain_to_hi:
  assumes "refines wq G \<sigma> A" "open_readers \<sigma> r = Some q" "held \<sigma> r = None" "unat x = s_hi A"
    and "\<forall>e\<in>set (s_log A). final_state (e_state e) \<and> (reader_at q \<le> e_start e \<longrightarrow> e_state e \<noteq> Aborted_Entry)"
    and "r' \<noteq> r" "s_pos A r' = Some (s_lo A)" "s_hi A - reader_at q < 18 * n"
  shows "\<exists>m q1 \<sigma>1 A1. decrement_readers_until n q (seg \<sigma>) x = decrement_readers_until (Suc m) q1 (seg \<sigma>1) x \<and>
    open_readers \<sigma>1 r = Some q1 \<and> reader_at q1 = s_hi A \<and> refines wq G \<sigma>1 A1 \<and>
    s_log A1 = s_log A \<and> s_lo A1 = s_lo A \<and> s_hi A1 = s_hi A \<and> s_pos A1 = (s_pos A)(r \<mapsto> s_hi A)"
  using assms
proof (induction n arbitrary: \<sigma> A q)
  case 0
  then show ?case by simp
next
  case (Suc n)
  note R = Suc.prems(1) and q = Suc.prems(2)
  note qf = reader_facts [OF R q]
  let ?a = "reader_at q mod q_cap wq"
  have inv: "spec_inv (q_cap wq) A" using R by (simp add: refines_def)
  show ?case
  proof (cases "reader_at q = s_hi A")
    case True
    with R q qf(1) show ?thesis
      by (intro exI [of _ n] exI [of _ q] exI [of _ \<sigma>] exI [of _ A]) (simp add: fun_upd_idem)
  next
    case False
    then obtain e where e: "e \<in> set (s_log A)" "e_start e = reader_at q"
      using qf(6) by (auto simp: boundary_def)
    then have fin: "final_state (e_state e)" and nab: "e_state e \<noteq> Aborted_Entry"
      using Suc.prems(5) by auto
    then have "e_state e \<noteq> Reserved_Entry" by auto
    from live_at_reader(2) [OF R q e this] e(2) fin nab
    have flag1: "hdr_commit_flag (ring (seg \<sigma>)) ?a = 1"
      by (cases "e_state e") (simp_all add: live_ok_def Let_def)
    have le: "abs_read_offset q \<le> x"
      using qf(8) Suc.prems(4) by (simp add: word_le_nat_alt reader_at_def)
    obtain q1 s1 where rel: "release_buffer q (seg \<sigma>) ?a = Inr (q1, s1)"
      and R1: "refines wq G (\<sigma>\<lparr>seg := s1, open_readers := (open_readers \<sigma>)(r \<mapsto> q1),
        held := (held \<sigma>)(r := None),
        received := (received \<sigma>)(r := received \<sigma> r @ payload_of (e_state e))\<rparr>) (advanced r e A)"
      using refines_release [OF R q e fin] e(2) by metis
    let ?\<sigma> = "\<sigma>\<lparr>seg := s1, open_readers := (open_readers \<sigma>)(r \<mapsto> q1), held := (held \<sigma>)(r := None),
        received := (received \<sigma>)(r := received \<sigma> r @ payload_of (e_state e))\<rparr>"
    have next': "decrement_readers_until (Suc n) q (seg \<sigma>) x = decrement_readers_until n q1 (seg ?\<sigma>) x"
      using le qf(5) flag1 rel by (simp add: Let_def)
    have at': "reader_at q1 = e_end e" using reader_facts(1) [OF R1, of r q1] by simp
    have len: "18 \<le> e_len e" "e_end e \<le> s_hi A" using spec_log_facts(1,3) [OF inv e(1)] .
    have "\<not> last_at A r (e_start e)" using Suc.prems(6,7) qf(7) e(2) by (auto simp: last_at_def)
    then have lo: "s_lo (advanced r e A) = s_lo A" by simp
    have later: "\<forall>f\<in>set (s_log A). final_state (e_state f) \<and>
        (reader_at q1 \<le> e_start f \<longrightarrow> e_state f \<noteq> Aborted_Entry)"
      using Suc.prems(5) at' e(2) by (auto simp: e_end_def)
    have "s_hi A - reader_at q1 < 18 * n" using Suc.prems(8) at' e(2) len by (simp add: e_end_def)
    with Suc.IH [OF R1, of q1] Suc.prems(4,6,7) later lo next' show ?thesis
      by (simp del: decrement_readers_until.simps cong: if_cong)
  qed
qed

section \<open>The oldest message again\<close>

lemma drain_of_full_ring:
  assumes R: "refines wq G \<sigma> A" and q: "open_readers \<sigma> r = Some q" and x: "unat x = s_hi A"
    and at_hi: "reader_at q = s_hi A" "s_hi A = s_lo A + q_cap wq"
    and fin: "\<forall>e\<in>set (s_log A). final_state (e_state e)" "\<forall>e\<in>set (s_log A). s_lo A \<le> e_start e \<longrightarrow> e_state e \<noteq> Aborted_Entry"
    and pos: "s_pos A r' = Some (s_lo A)" "\<And>i p. s_pos A i = Some p \<Longrightarrow> i \<noteq> r' \<Longrightarrow> s_lo A < p"
  shows "decrement_readers_until (Suc m) q (seg \<sigma>) x = Some (Inl
    (Assert_Failed ''prev_read_low_watermark + total_message_len == abs_read_offset''))"
proof -
  let ?c = "q_cap wq"
  note qf = reader_facts [OF R q]
  have inv: "spec_inv ?c A" and off: "rel_offsets wq G (seg \<sigma>) A" and mem: "rel_mem ?c G (ring (seg \<sigma>)) A"
    using R by (simp_all add: refines_def)
  have c: "0 < ?c" using off by (simp add: rel_offsets_def sane_queue_def)
  have place: "unat (abs_read_offset q mod available_queue_size_bytes q) = s_lo A mod ?c"
    using qf(5) at_hi by simp
  have "boundary (s_log A) (s_hi A) (s_lo A)"
    using inv pos(1) by (auto simp: spec_inv_def spec_readers_ok_def)
  then obtain e where e: "e \<in> set (s_log A)" "e_start e = s_lo A" using at_hi c by (auto simp: boundary_def)
  then have live: "live A e" using fin by (auto simp: live_def)
  have "behind A (s_lo A) = {r'}" using pos by (force simp: behind_def)
  moreover have "live_ok ?c (ring (seg \<sigma>)) (card (behind A (e_start e))) e"
    using mem live unfolding rel_mem_def by blast
  ultimately have ok: "live_ok ?c (ring (seg \<sigma>)) 1 e" using e(2) by simp
  then have hdr: "hdr_commit_flag (ring (seg \<sigma>)) (s_lo A mod ?c) = 1"
    "unat (hdr_num_readers (ring (seg \<sigma>)) (s_lo A mod ?c)) = 1"
    "unat (msg_total (ring (seg \<sigma>)) (s_lo A mod ?c)) = e_len e"
    using fin e by (cases "e_state e"; force simp: live_ok_def Let_def)+
  have "msg_total (ring (seg \<sigma>)) (s_lo A mod ?c) \<le> available_queue_size_bytes q"
    using hdr(3) live_window(5) [OF inv live] qf(3) by (simp add: word_le_nat_alt q_cap_def)
  moreover have "unat (read_offset_of (seg \<sigma>)) = s_lo A" using off by (simp add: rel_offsets_def seg_lo_def)
  then have "read_offset_of (seg \<sigma>) \<noteq> abs_read_offset q" using at_hi c by (auto simp: reader_at_def)
  moreover have "\<not> hdr_num_readers (ring (seg \<sigma>)) (s_lo A mod ?c) > 1" using hdr(2) by (simp add: word_less_nat_alt)
  moreover have "abs_read_offset q \<le> x" using x at_hi by (simp add: word_le_nat_alt reader_at_def)
  ultimately show ?thesis using place hdr(1) by (simp add: Let_def release_buffer_eq)
qed

text \<open>
  C30. Closing a reader on a full ring fails. When no writer is at work, the ring is full, no aborted
  message is unread, and exactly one reader besides the leaving one stands at the low watermark
  (others may be registered, but have read the oldest message), then \<open>close\<close>, with one round of its
  loop per 18 unread bytes and one more, fails the assertion on the watermark: the loop releases what the
  leaving reader has not read, comes round to the oldest message, which the other reader has still
  to read, and takes it for the next one. This holds of every such state that can be reached and
  needs no race, since \<open>close\<close> runs alone.
\<close>

theorem full_ring_close_fails:
  assumes "reachable wq G \<sigma>" "threads \<sigma> = Map.empty" "\<forall>x\<in>dropped \<sigma>. x < seg_lo (seg \<sigma>)"
    and q: "open_readers \<sigma> r = Some q" "held \<sigma> r = None"
    and q': "open_readers \<sigma> r' = Some q'" "r' \<noteq> r" "reader_at q' = seg_lo (seg \<sigma>)"
    and others: "\<forall>i p. open_readers \<sigma> i = Some p \<and> i \<noteq> r \<and> i \<noteq> r' \<longrightarrow> seg_lo (seg \<sigma>) < reader_at p"
    and full: "seg_hi (seg \<sigma>) = seg_lo (seg \<sigma>) + q_cap wq"
    and fuel: "seg_hi (seg \<sigma>) - reader_at q < 18 * n" and mapped: "fd q = int k" "objects h k = seg \<sigma>"
  shows "close_queue n q h = Some (Inl
    (Assert_Failed ''prev_read_low_watermark + total_message_len == abs_read_offset''))"
proof -
  obtain A where R: "refines wq G \<sigma> A" using reachable_refines [OF assms(1)] .
  note qf = reader_facts [OF R q(1)]
  have off: "seg_hi (seg \<sigma>) = s_hi A" "seg_lo (seg \<sigma>) = s_lo A" and rd: "rel_readers wq \<sigma> A"
    using R by (simp_all add: refines_def rel_offsets_def)
  have pos: "s_pos A = map_option reader_at \<circ> open_readers \<sigma>" using rd by (simp add: rel_readers_def)
  have "\<forall>e\<in>set (s_log A). e_state e = Aborted_Entry \<longrightarrow> e_start e \<in> dropped \<sigma>"
    using R by (auto simp: refines_def rel_sent_def)
  then have fin: "\<forall>e\<in>set (s_log A). final_state (e_state e)"
      "\<forall>e\<in>set (s_log A). s_lo A \<le> e_start e \<longrightarrow> e_state e \<noteq> Aborted_Entry"
    using no_writer_all_final(2) [OF R assms(2)] assms(3) off by (auto simp: not_less [symmetric])
  then have later: "\<forall>e\<in>set (s_log A). final_state (e_state e) \<and>
      (reader_at q \<le> e_start e \<longrightarrow> e_state e \<noteq> Aborted_Entry)"
    using qf(7) by (meson order_trans)
  obtain s0 wr where mod: "modify_readers False (seg \<sigma>) = (s0, wr)" by fastforce
  then obtain v where s0: "s0 = set_packed v (seg \<sigma>)"
    and x: "unat (write_offset wr) = s_hi A"
    using off(1) by (auto simp: modify_readers_def return_sub_reader_def Let_def seg_hi_def)
  from drain_to_hi [OF R q x later q'(2), of n] pos q'(1,3) fuel off
  obtain m q1 \<sigma>1 A1 where drain: "decrement_readers_until n q (seg \<sigma>) (write_offset wr) =
      decrement_readers_until (Suc m) q1 (seg \<sigma>1) (write_offset wr)"
    and at_hi: "open_readers \<sigma>1 r = Some q1" "reader_at q1 = s_hi A" "refines wq G \<sigma>1 A1"
      "s_log A1 = s_log A" "s_lo A1 = s_lo A" "s_hi A1 = s_hi A" "s_pos A1 = (s_pos A)(r \<mapsto> s_hi A)"
    by (auto simp del: decrement_readers_until.simps)
  have "0 < q_cap wq" using R by (simp add: refines_def rel_offsets_def sane_queue_def)
  then have "s_lo A < p" if "s_pos A1 i = Some p" "i \<noteq> r'" for i p
    using that at_hi(7) pos others full off by (auto split: if_splits)
  then have "decrement_readers_until (Suc m) q1 (seg \<sigma>1) (write_offset wr) = Some (Inl
      (Assert_Failed ''prev_read_low_watermark + total_message_len == abs_read_offset''))"
    by (intro drain_of_full_ring [OF at_hi(3,1), where r' = r'])
      (use x at_hi fin pos off q' full in simp_all)
  then have "decrement_readers_until n q s0 (write_offset wr) = Some (Inl
      (Assert_Failed ''prev_read_low_watermark + total_message_len == abs_read_offset''))"
    using drain by (simp add: s0 decrement_readers_packed del: decrement_readers_until.simps)
  then show ?thesis using qf(2) mapped mod by (simp add: close_queue_def mapped_def Let_def)
qed

text \<open>
  A run to such a state: on a ring of 64 bytes two readers join, and a writer publishes a message of
  14 bytes and pads the rest of the ring for a second one.
\<close>

definition full_reader :: IpcQueue where
  "full_reader = joined_reader (demo_writer 64) ((demo_reader 64)\<lparr>fd := 0\<rparr>)
     \<lparr>num_readers = 1, write_offset = 0, original_value = 0\<rparr>"

definition full_joined :: Sys where
  "full_joined = demo_start\<lparr>seg := set_packed 2 (demo_segment 64),
     open_readers := [0 \<mapsto> full_reader, 1 \<mapsto> full_reader]\<rparr>"

definition full_reserved :: Segment where
  "full_reserved = set_packed 8194 (demo_segment 64)"

definition full_placed :: Segment where
  "full_placed = set_count 1 (full_reserved\<lparr>ring := header_ring 0 0 14 2 (ring full_reserved)\<rparr>)"

definition full_published :: Segment where
  "full_published = commit_buffer (full_placed\<lparr>ring := write_bytes (ring full_placed) 18 (replicate 14 7)\<rparr>) 0"

lemma full_joined_reachable: "reachable (demo_writer 64) (grid 32) full_joined"
proof -
  let ?w = "demo_writer 64" and ?q0 = "(demo_reader 64)\<lparr>fd := 0\<rparr>"
  let ?s0 = "demo_start\<lparr>seg := demo_segment 64\<rparr>"
  let ?s1 = "?s0\<lparr>seg := set_packed 1 (demo_segment 64), open_readers := [0 \<mapsto> full_reader]\<rparr>"
  have init: "queue_init ?w (grid 32) ?s0"
    by (simp add: queue_init_def sane_queue_def sys_init_def demo_start_def demo_segment_def)
  have join: "modify_readers True (demo_segment 64) = (set_packed 1 (demo_segment 64),
      \<lparr>num_readers = 1, write_offset = 0, original_value = 0\<rparr>)"
    "modify_readers True (set_packed 1 (demo_segment 64)) = (set_packed 2 (demo_segment 64),
      \<lparr>num_readers = 2, write_offset = 0, original_value = 1\<rparr>)"
    by (simp_all add: modify_readers_def return_add_reader_def unwrap_def repack_def Let_def)
  have hi: "seg_hi (set_packed 1 (demo_segment 64)) = 0"
    by (simp add: seg_hi_def unat_write_offset_unwrap)
  have "sys_step ?w (grid 32) ?s0 ?s1"
    using sys_step.join [of ?s0 0 ?w "set_packed 1 (demo_segment 64)" _ "grid 32" ?q0] join(1)
    by (simp add: demo_start_def full_reader_def joined_reader_def fun_upd_idem)
  moreover have "sys_step ?w (grid 32) ?s1 full_joined"
    using sys_step.join [of ?s1 1 ?w "set_packed 2 (demo_segment 64)" _ "grid 32" ?q0] join(2) hi
    by (simp add: demo_start_def full_joined_def full_reader_def joined_reader_def fun_upd_idem)
  ultimately show ?thesis using init reachable_init reachable_step by blast
qed

definition full_ticket :: "u64 \<Rightarrow> Ticket" where
  "full_ticket n = \<lparr>claimed_word = \<lparr>num_readers = 2, write_offset = n, original_value = 256 * n + 2\<rparr>,
     claimed_end = n + 32\<rparr>"

definition full_sent :: Sys where
  "full_sent = full_joined\<lparr>seg := full_published, sent := [0 \<mapsto> replicate 14 7]\<rparr>"

lemma full_sent_reachable: "reachable (demo_writer 64) (grid 32) full_sent"
proof -
  let ?w = "demo_writer 64" and ?b = "\<lparr>wrapper_data = 0, wrapper_size = 32\<rparr>"
  let ?s1 = "full_joined\<lparr>seg := full_reserved, threads := [0 \<mapsto> Waiting 14 (full_ticket 0)]\<rparr>"
  let ?s2 = "full_joined\<lparr>seg := full_placed, threads := [0 \<mapsto> Holding ?b]\<rparr>"
  have "reserve_write_offset ?w (seg full_joined) (14 + sizeof_MessageHeader) = (full_reserved, full_ticket 0)"
    by (simp add: reserve_write_offset_def return_add_offset_def unwrap_def repack_def Let_def
        bytes_to_bump_def bytes_remaining_at_end_def sizeof_MessageHeader_def full_joined_def
        full_reserved_def full_ticket_def)
  then have "sys_step ?w (grid 32) full_joined ?s1"
    using sys_step.reserve [of full_joined 0 ?w 14 full_reserved "full_ticket 0" "grid 32"]
    by (simp add: full_joined_def demo_start_def claim_checks_def sizeof_MessageHeader_def seg_hi_def
        full_reserved_def unat_write_offset_unwrap)
  moreover have "sys_step ?w (grid 32) ?s1 ?s2"
  proof -
    have "place_claim ?w full_reserved 14 (full_ticket 0) = Inr (full_placed, Some ?b)"
      "\<not> must_wait ?w full_reserved (full_ticket 0)"
      by (simp_all add: place_claim_def Let_def sizeof_MessageHeader_def header_ring_def full_ticket_def
          full_placed_def full_reserved_def must_wait_def)
    with sys_step.place [of ?s1 0 14 "full_ticket 0" ?w full_placed ?b "grid 32"] show ?thesis by simp
  qed
  moreover have "sys_step ?w (grid 32) ?s2 full_sent"
  proof -
    have "claimed_at full_placed ?b = 0" "payload_after_write full_placed ?b (replicate 14 7) = replicate 14 7"
      "write_to_buffer full_placed ?b (replicate 14 7) = Inr full_published"
      by (simp_all add: claimed_at_def full_placed_def header_ring_header payload_after_write_def
          write_to_buffer_def full_published_def)
    with sys_step.publish [of ?s2 0 ?b "replicate 14 7" full_published ?w "grid 32"] show ?thesis
      by (simp add: full_sent_def full_joined_def demo_start_def)
  qed
  ultimately show ?thesis using full_joined_reachable reachable_step by blast
qed

lemma full_padded_reachable:
  obtains s where "reachable (demo_writer 64) (grid 32) (full_sent\<lparr>seg := s\<rparr>)" "seg_lo s = 0" "seg_hi s = 64"
proof -
  let ?w = "demo_writer 64" and ?s3 = "set_packed 16386 full_published"
  let ?\<sigma> = "full_sent\<lparr>seg := ?s3, threads := [0 \<mapsto> Waiting 14 (full_ticket 32)]\<rparr>"
  have "reserve_write_offset ?w (seg full_sent) (14 + sizeof_MessageHeader) =
      (?s3, full_ticket 32)"
    by (simp add: reserve_write_offset_def return_add_offset_def unwrap_def repack_def Let_def
        bytes_to_bump_def bytes_remaining_at_end_def sizeof_MessageHeader_def full_sent_def full_published_def
        full_placed_def commit_buffer_def full_reserved_def full_ticket_def)
  then have "sys_step ?w (grid 32) full_sent ?\<sigma>"
    using sys_step.reserve [of full_sent 0 ?w 14 ?s3 "full_ticket 32" "grid 32"]
    by (simp add: full_sent_def full_joined_def demo_start_def claim_checks_def sizeof_MessageHeader_def
        seg_hi_def full_published_def full_placed_def commit_buffer_def full_reserved_def
        unat_write_offset_unwrap full_ticket_def)
  then have reach: "reachable ?w (grid 32) ?\<sigma>" using full_sent_reachable reachable_step by blast
  obtain s where place: "place_claim ?w ?s3 14 (full_ticket 32) = Inr (s, None)"
    by (simp add: place_claim_def insert_skip_message_def Let_def sizeof_MessageHeader_def full_ticket_def)
  have free: "\<not> must_wait ?w ?s3 (full_ticket 32)"
    by (simp add: must_wait_def full_ticket_def full_published_def commit_buffer_def full_placed_def
        full_reserved_def)
  have "sys_step ?w (grid 32) ?\<sigma> (full_sent\<lparr>seg := s\<rparr>)"
    using sys_step.skip [of ?\<sigma> 0 14 "full_ticket 32" ?w s "grid 32"] place free
    by (simp add: full_sent_def full_joined_def demo_start_def)
  then have "reachable ?w (grid 32) (full_sent\<lparr>seg := s\<rparr>)" by (rule reachable_step [OF reach])
  moreover have "seg_lo s = 0" "seg_hi s = 64"
    using place_claim_watermark [OF place] place_claim_offset [OF place]
    by (simp_all add: seg_lo_def seg_hi_def unat_write_offset_unwrap full_published_def commit_buffer_def
        full_placed_def full_reserved_def)
  ultimately show thesis by (rule that)
qed

theorem full_ring_close_fails_witness:
  "\<exists>\<sigma> q h. reachable (demo_writer 64) (grid 32) \<sigma> \<and> open_readers \<sigma> 0 = Some q \<and> objects h 0 = seg \<sigma> \<and>
    close_queue 4 q h = Some (Inl
      (Assert_Failed ''prev_read_low_watermark + total_message_len == abs_read_offset''))"
proof -
  obtain s where s: "reachable (demo_writer 64) (grid 32) (full_sent\<lparr>seg := s\<rparr>)" "seg_lo s = 0" "seg_hi s = 64"
    by (rule full_padded_reachable)
  have "close_queue 4 full_reader (demo_machine s) = Some (Inl
      (Assert_Failed ''prev_read_low_watermark + total_message_len == abs_read_offset''))"
    using full_ring_close_fails [OF s(1), of 0 full_reader 1 full_reader 4 0 "demo_machine s"] s(2,3)
    by (simp add: full_sent_def full_joined_def demo_start_def full_reader_def joined_reader_def
        reader_at_def demo_machine_def q_cap_def)
  with s(1) show ?thesis
    by (intro exI [of _ "full_sent\<lparr>seg := s\<rparr>"] exI [of _ full_reader] exI [of _ "demo_machine s"])
      (simp add: full_sent_def full_joined_def demo_machine_def)
qed

end
