(* ===== verification/Benchmark.thy ===== *)
theory Benchmark
  imports Ipc_Sessions
begin

text \<open>
  message_transport/benchmark/consumer_benchmark.cpp: one process whose main thread reads a queue
  that its producer threads fill, all with messages of one size. It is a client of the queue: every
  run of it meets the conditions of \<open>Ipc_System\<close>, so the guarantees of the queue hold in it.

  The timer, the pinning of threads and the sleeps are left out. An exception or a failed assertion
  ends the process; here it is recorded in \<open>crashed\<close>. The runs that are considered are, as in
  \<open>Ipc_System\<close>, those in which the write offset stays below 2 to the power 56. The destructors at the end are those of \<open>Ipc_Lifecycle\<close>.
\<close>

section \<open>The program\<close>

definition bench_params :: "bool \<Rightarrow> IpcQueueParameters" where
  "bench_params w =
     \<lparr>param_file_name = ''/queue_benchmark'', param_queue_size = 1048576, param_is_writer = w,
      param_agent_name = (if w then ''benchmark_writer'' else ''benchmark_reader'')\<rparr>"

definition write_queue :: IpcQueue where
  "write_queue = IpcQueue_members (bench_params True)"

definition bench_message :: "u64 \<Rightarrow> u8 list" where
  "bench_message message_size = replicate (unat message_size) 0xAB"

datatype ProducerPhase =
    Preparing        \<comment> \<open>before it arrives at the barrier\<close>
  | At_Barrier
  | Awaiting_Start   \<comment> \<open>in the loop on \<open>start\<close>\<close>
  | Checking_Stop
  | Claiming         \<comment> \<open>in \<open>claim_buffer\<close>\<close>
  | Writing          \<comment> \<open>it has a wrapper\<close>
  | Counting
  | Exited

datatype MainPhase =
    Opening_Reader   \<comment> \<open>the producers are running\<close>
  | Arriving
  | Main_At_Barrier
  | Starting
  | Measuring nat    \<comment> \<open>iterations left\<close>
  | Copying nat      \<comment> \<open>it has a wrapper, and iterations are left after this one\<close>
  | Tallying nat
  | Destroying nat
  | Joining
  | Reported

record Bench =
  queue_state :: Sys
  main_phase :: MainPhase
  producer_phase :: "nat \<Rightarrow> ProducerPhase"
  arrived :: nat
  start_flag :: bool
  stop_flag :: bool
  produced :: u64
  consumed :: u64
  read_message_buffer :: "u8 list"
  crashed :: "error option"

text \<open>After the constructor of \<open>write_queue\<close>: the file is new and has one writer.\<close>

definition bench_init :: "u64 \<Rightarrow> Bench \<Rightarrow> bool" where
  "bench_init message_size \<beta> \<longleftrightarrow>
     (\<exists>\<sigma>. sys_init write_queue \<sigma> \<and>
        queue_state \<beta> = \<sigma>\<lparr>seg := set_writers (writers_of (seg \<sigma>) + 1) (seg \<sigma>)\<rparr>) \<and>
     main_phase \<beta> = Opening_Reader \<and> producer_phase \<beta> = (\<lambda>_. Preparing) \<and> arrived \<beta> = 0 \<and>
     \<not> start_flag \<beta> \<and> \<not> stop_flag \<beta> \<and> produced \<beta> = 0 \<and> consumed \<beta> = 0 \<and>
     read_message_buffer \<beta> = replicate (unat message_size) 0 \<and> crashed \<beta> = None"

text \<open>The parameters are the number of producers, the message size and the number of iterations.\<close>

inductive main_step :: "nat \<Rightarrow> u64 \<Rightarrow> nat \<Rightarrow> Bench \<Rightarrow> Bench \<Rightarrow> bool"
  for producers :: nat and message_size :: u64 and iterations :: nat where
  open_reader:
    "main_phase \<beta> = Opening_Reader \<Longrightarrow> queue_state \<beta> = \<sigma> \<Longrightarrow>
     modify_readers True (seg \<sigma>) = (s', wr) \<Longrightarrow>
     main_step producers message_size iterations \<beta> (\<beta>\<lparr>queue_state := \<sigma>\<lparr>seg := s',
         open_readers := (open_readers \<sigma>)(0 \<mapsto>
           joined_reader write_queue (IpcQueue_members (bench_params False)) wr),
         received := (received \<sigma>)(0 := []), joined := (joined \<sigma>)(0 := seg_hi (seg \<sigma>))\<rparr>,
       main_phase := Arriving\<rparr>)"
| main_arrives:
    "main_phase \<beta> = Arriving \<Longrightarrow>
     main_step producers message_size iterations \<beta>
       (\<beta>\<lparr>arrived := arrived \<beta> + 1, main_phase := Main_At_Barrier\<rparr>)"
| main_passes:
    "main_phase \<beta> = Main_At_Barrier \<Longrightarrow> arrived \<beta> = producers + 1 \<Longrightarrow>
     main_step producers message_size iterations \<beta> (\<beta>\<lparr>main_phase := Starting\<rparr>)"
| starts:
    "main_phase \<beta> = Starting \<Longrightarrow>
     main_step producers message_size iterations \<beta>
       (\<beta>\<lparr>start_flag := True, main_phase := Measuring iterations\<rparr>)"
| reads:
    "main_phase \<beta> = Measuring (Suc k) \<Longrightarrow> queue_state \<beta> = \<sigma> \<Longrightarrow> open_readers \<sigma> 0 = Some q \<Longrightarrow>
     poll_once q (seg \<sigma>) = Inr (Poll_Return q' s' got) \<Longrightarrow>
     main_step producers message_size iterations \<beta> (\<beta>\<lparr>queue_state := \<sigma>\<lparr>seg := s',
         open_readers := (open_readers \<sigma>)(0 \<mapsto> q'), held := (held \<sigma>)(0 := got)\<rparr>,
       main_phase := (if got = None then Measuring (Suc k) else Copying k)\<rparr>)"
| reads_on:
    "main_phase \<beta> = Measuring (Suc k) \<Longrightarrow> queue_state \<beta> = \<sigma> \<Longrightarrow> open_readers \<sigma> 0 = Some q \<Longrightarrow>
     poll_once q (seg \<sigma>) = Inr (Poll_Again q' s') \<Longrightarrow>
     main_step producers message_size iterations \<beta> (\<beta>\<lparr>queue_state := \<sigma>\<lparr>seg := s',
       open_readers := (open_readers \<sigma>)(0 \<mapsto> q')\<rparr>\<rparr>)"
| read_fails:
    "main_phase \<beta> = Measuring (Suc k) \<Longrightarrow> open_readers (queue_state \<beta>) 0 = Some q \<Longrightarrow>
     poll_once q (seg (queue_state \<beta>)) = Inl e \<Longrightarrow>
     main_step producers message_size iterations \<beta> (\<beta>\<lparr>crashed := Some e\<rparr>)"
| copies:
    "main_phase \<beta> = Copying k \<Longrightarrow> held (queue_state \<beta>) 0 = Some wr \<Longrightarrow>
     copy_contents_into (seg (queue_state \<beta>)) wr message_size = Inr (bytes, n) \<Longrightarrow>
     main_step producers message_size iterations \<beta>
       (\<beta>\<lparr>read_message_buffer := bytes @ drop (length bytes) (read_message_buffer \<beta>),
          main_phase := Tallying k\<rparr>)"
| copy_fails:
    "main_phase \<beta> = Copying k \<Longrightarrow> held (queue_state \<beta>) 0 = Some wr \<Longrightarrow>
     copy_contents_into (seg (queue_state \<beta>)) wr message_size = Inl e \<Longrightarrow>
     main_step producers message_size iterations \<beta> (\<beta>\<lparr>crashed := Some e\<rparr>)"
| tallies:
    "main_phase \<beta> = Tallying k \<Longrightarrow>
     main_step producers message_size iterations \<beta>
       (\<beta>\<lparr>consumed := consumed \<beta> + 1, main_phase := Destroying k\<rparr>)"
| destroys:
    "main_phase \<beta> = Destroying k \<Longrightarrow> queue_state \<beta> = \<sigma> \<Longrightarrow> open_readers \<sigma> 0 = Some q \<Longrightarrow>
     held \<sigma> 0 = Some wr \<Longrightarrow> wrapper_destruct q (seg \<sigma>) wr = Inr (q', s') \<Longrightarrow>
     main_step producers message_size iterations \<beta> (\<beta>\<lparr>queue_state := \<sigma>\<lparr>seg := s',
         open_readers := (open_readers \<sigma>)(0 \<mapsto> q'), held := (held \<sigma>)(0 := None),
         received := (received \<sigma>)(0 := received \<sigma> 0 @ [get_as_view (seg \<sigma>) wr])\<rparr>,
       main_phase := Measuring k\<rparr>)"
| destroy_fails:
    "main_phase \<beta> = Destroying k \<Longrightarrow> open_readers (queue_state \<beta>) 0 = Some q \<Longrightarrow>
     held (queue_state \<beta>) 0 = Some wr \<Longrightarrow> wrapper_destruct q (seg (queue_state \<beta>)) wr = Inl e \<Longrightarrow>
     main_step producers message_size iterations \<beta> (\<beta>\<lparr>crashed := Some e\<rparr>)"
| stops:
    "main_phase \<beta> = Measuring 0 \<Longrightarrow>
     main_step producers message_size iterations \<beta> (\<beta>\<lparr>stop_flag := True, main_phase := Joining\<rparr>)"
| reports:
    "main_phase \<beta> = Joining \<Longrightarrow> \<forall>i<producers. producer_phase \<beta> i = Exited \<Longrightarrow>
     main_step producers message_size iterations \<beta> (\<beta>\<lparr>main_phase := Reported\<rparr>)"

definition set_phase :: "nat \<Rightarrow> ProducerPhase \<Rightarrow> Bench \<Rightarrow> Bench" where
  "set_phase i ph \<beta> = \<beta>\<lparr>producer_phase := (producer_phase \<beta>)(i := ph)\<rparr>"

lemma set_phase_simps [simp]:
  "queue_state (set_phase i ph \<beta>) = queue_state \<beta>" "main_phase (set_phase i ph \<beta>) = main_phase \<beta>"
  "producer_phase (set_phase i ph \<beta>) = (producer_phase \<beta>)(i := ph)"
  "arrived (set_phase i ph \<beta>) = arrived \<beta>" "start_flag (set_phase i ph \<beta>) = start_flag \<beta>"
  "stop_flag (set_phase i ph \<beta>) = stop_flag \<beta>" "produced (set_phase i ph \<beta>) = produced \<beta>"
  "consumed (set_phase i ph \<beta>) = consumed \<beta>"
  "read_message_buffer (set_phase i ph \<beta>) = read_message_buffer \<beta>"
  "crashed (set_phase i ph \<beta>) = crashed \<beta>"
  by (simp_all add: set_phase_def)

inductive producer_step :: "nat \<Rightarrow> u64 \<Rightarrow> nat \<Rightarrow> Bench \<Rightarrow> Bench \<Rightarrow> bool"
  for producers :: nat and message_size :: u64 and i :: nat where
  arrives:
    "producer_phase \<beta> i = Preparing \<Longrightarrow>
     producer_step producers message_size i \<beta> (set_phase i At_Barrier (\<beta>\<lparr>arrived := arrived \<beta> + 1\<rparr>))"
| passes:
    "producer_phase \<beta> i = At_Barrier \<Longrightarrow> arrived \<beta> = producers + 1 \<Longrightarrow>
     producer_step producers message_size i \<beta> (set_phase i Awaiting_Start \<beta>)"
| sees_start:
    "producer_phase \<beta> i = Awaiting_Start \<Longrightarrow> start_flag \<beta> \<Longrightarrow>
     producer_step producers message_size i \<beta> (set_phase i Checking_Stop \<beta>)"
| sees_stop:
    "producer_phase \<beta> i = Checking_Stop \<Longrightarrow> stop_flag \<beta> \<Longrightarrow>
     producer_step producers message_size i \<beta> (set_phase i Exited \<beta>)"
| loops:
    "producer_phase \<beta> i = Checking_Stop \<Longrightarrow> \<not> stop_flag \<beta> \<Longrightarrow>
     producer_step producers message_size i \<beta> (set_phase i Claiming \<beta>)"
| reserves:
    "producer_phase \<beta> i = Claiming \<Longrightarrow> queue_state \<beta> = \<sigma> \<Longrightarrow> threads \<sigma> i = None \<Longrightarrow>
     claim_checks write_queue message_size \<Longrightarrow>
     reserve_write_offset write_queue (seg \<sigma>) (message_size + sizeof_MessageHeader) = (s', t) \<Longrightarrow>
     producer_step producers message_size i \<beta>
       (\<beta>\<lparr>queue_state := \<sigma>\<lparr>seg := s', threads := (threads \<sigma>)(i \<mapsto> Waiting message_size t)\<rparr>\<rparr>)"
| claim_fails:
    "producer_phase \<beta> i = Claiming \<Longrightarrow> threads (queue_state \<beta>) i = None \<Longrightarrow>
     \<not> claim_checks write_queue message_size \<Longrightarrow>
     producer_step producers message_size i \<beta>
       (\<beta>\<lparr>crashed := Some (if message_size = 0 then Message_Empty else Message_Too_Large)\<rparr>)"
| places:
    "producer_phase \<beta> i = Claiming \<Longrightarrow> queue_state \<beta> = \<sigma> \<Longrightarrow> threads \<sigma> i = Some (Waiting sz t) \<Longrightarrow>
     \<not> must_wait write_queue (seg \<sigma>) t \<Longrightarrow> place_claim write_queue (seg \<sigma>) sz t = Inr (s', Some b) \<Longrightarrow>
     producer_step producers message_size i \<beta> (set_phase i Writing
       (\<beta>\<lparr>queue_state := \<sigma>\<lparr>seg := s', threads := (threads \<sigma>)(i \<mapsto> Holding b)\<rparr>\<rparr>))"
| skips:
    "producer_phase \<beta> i = Claiming \<Longrightarrow> queue_state \<beta> = \<sigma> \<Longrightarrow> threads \<sigma> i = Some (Waiting sz t) \<Longrightarrow>
     \<not> must_wait write_queue (seg \<sigma>) t \<Longrightarrow> place_claim write_queue (seg \<sigma>) sz t = Inr (s', None) \<Longrightarrow>
     producer_step producers message_size i \<beta>
       (\<beta>\<lparr>queue_state := \<sigma>\<lparr>seg := s', threads := (threads \<sigma>)(i := None)\<rparr>\<rparr>)"
| place_fails:
    "producer_phase \<beta> i = Claiming \<Longrightarrow> threads (queue_state \<beta>) i = Some (Waiting sz t) \<Longrightarrow>
     \<not> must_wait write_queue (seg (queue_state \<beta>)) t \<Longrightarrow>
     place_claim write_queue (seg (queue_state \<beta>)) sz t = Inl e \<Longrightarrow>
     producer_step producers message_size i \<beta> (\<beta>\<lparr>crashed := Some e\<rparr>)"
| writes_message:
    "producer_phase \<beta> i = Writing \<Longrightarrow> queue_state \<beta> = \<sigma> \<Longrightarrow> threads \<sigma> i = Some (Holding b) \<Longrightarrow>
     write_to_buffer (seg \<sigma>) b (bench_message message_size) = Inr s' \<Longrightarrow>
     producer_step producers message_size i \<beta> (set_phase i Counting
       (\<beta>\<lparr>queue_state := \<sigma>\<lparr>seg := s', threads := (threads \<sigma>)(i := None),
          sent := (sent \<sigma>)(claimed_at (seg \<sigma>) b \<mapsto>
            payload_after_write (seg \<sigma>) b (bench_message message_size))\<rparr>\<rparr>))"
| write_fails:
    "producer_phase \<beta> i = Writing \<Longrightarrow> threads (queue_state \<beta>) i = Some (Holding b) \<Longrightarrow>
     write_to_buffer (seg (queue_state \<beta>)) b (bench_message message_size) = Inl e \<Longrightarrow>
     producer_step producers message_size i \<beta> (\<beta>\<lparr>crashed := Some e\<rparr>)"
| counts:
    "producer_phase \<beta> i = Counting \<Longrightarrow>
     producer_step producers message_size i \<beta> (set_phase i Checking_Stop (\<beta>\<lparr>produced := produced \<beta> + 1\<rparr>))"

definition bench_step :: "nat \<Rightarrow> u64 \<Rightarrow> nat \<Rightarrow> Bench \<Rightarrow> Bench \<Rightarrow> bool" where
  "bench_step producers message_size iterations \<beta> \<beta>' \<longleftrightarrow>
     main_step producers message_size iterations \<beta> \<beta>' \<or>
     (\<exists>i<producers. producer_step producers message_size i \<beta> \<beta>')"

text \<open>A run in which a producer reserves space only while the write offset is far from its limit.\<close>

definition reserves_in :: "Bench \<Rightarrow> Bench \<Rightarrow> bool" where
  "reserves_in \<beta> \<beta>' \<longleftrightarrow>
     (\<exists>i. threads (queue_state \<beta>) i = None \<and> threads (queue_state \<beta>') i \<noteq> None)"

definition offset_room :: "Bench \<Rightarrow> bool" where
  "offset_room \<beta> \<longleftrightarrow> seg_hi (seg (queue_state \<beta>)) + 2 * q_cap write_queue < 2 ^ 56"

definition bounded_step :: "nat \<Rightarrow> u64 \<Rightarrow> nat \<Rightarrow> Bench \<Rightarrow> Bench \<Rightarrow> bool" where
  "bounded_step producers message_size iterations \<beta> \<beta>' \<longleftrightarrow>
     bench_step producers message_size iterations \<beta> \<beta>' \<and> (reserves_in \<beta> \<beta>' \<longrightarrow> offset_room \<beta>)"

section \<open>The conditions of the system\<close>

text \<open>What a producer has in the queue, by where it is in its loop.\<close>

primrec thread_ok :: "u64 \<Rightarrow> ProducerPhase \<Rightarrow> WriterPhase option \<Rightarrow> bool" where
  "thread_ok sz Preparing th \<longleftrightarrow> th = None"
| "thread_ok sz At_Barrier th \<longleftrightarrow> th = None"
| "thread_ok sz Awaiting_Start th \<longleftrightarrow> th = None"
| "thread_ok sz Checking_Stop th \<longleftrightarrow> th = None"
| "thread_ok sz Claiming th \<longleftrightarrow> th = None \<or> (\<exists>t. th = Some (Waiting sz t))"
| "thread_ok sz Writing th \<longleftrightarrow>
     (\<exists>b. th = Some (Holding b) \<and> wrapper_size b = sz + sizeof_MessageHeader)"
| "thread_ok sz Counting th \<longleftrightarrow> th = None"
| "thread_ok sz Exited th \<longleftrightarrow> th = None"

definition running :: "ProducerPhase \<Rightarrow> bool" where
  "running ph \<longleftrightarrow> ph \<noteq> Preparing \<and> ph \<noteq> At_Barrier \<and> ph \<noteq> Awaiting_Start"

definition reader_open :: "MainPhase \<Rightarrow> bool" where
  "reader_open ph \<longleftrightarrow> ph \<noteq> Opening_Reader"

text \<open>How many messages are still to be released, and to be counted.\<close>

primrec to_release :: "nat \<Rightarrow> MainPhase \<Rightarrow> nat" where
  "to_release n Opening_Reader = n"
| "to_release n Arriving = n"
| "to_release n Main_At_Barrier = n"
| "to_release n Starting = n"
| "to_release n (Measuring k) = k"
| "to_release n (Copying k) = Suc k"
| "to_release n (Tallying k) = Suc k"
| "to_release n (Destroying k) = Suc k"
| "to_release n Joining = 0"
| "to_release n Reported = 0"

definition to_count :: "nat \<Rightarrow> MainPhase \<Rightarrow> nat" where
  "to_count n ph = (case ph of Destroying k \<Rightarrow> k | _ \<Rightarrow> to_release n ph)"

primrec started :: "MainPhase \<Rightarrow> bool" where
  "started Opening_Reader \<longleftrightarrow> False"
| "started Arriving \<longleftrightarrow> False"
| "started Main_At_Barrier \<longleftrightarrow> False"
| "started Starting \<longleftrightarrow> False"
| "started (Measuring k) \<longleftrightarrow> True"
| "started (Copying k) \<longleftrightarrow> True"
| "started (Tallying k) \<longleftrightarrow> True"
| "started (Destroying k) \<longleftrightarrow> True"
| "started Joining \<longleftrightarrow> True"
| "started Reported \<longleftrightarrow> True"

primrec has_wrapper :: "MainPhase \<Rightarrow> bool" where
  "has_wrapper Opening_Reader \<longleftrightarrow> False"
| "has_wrapper Arriving \<longleftrightarrow> False"
| "has_wrapper Main_At_Barrier \<longleftrightarrow> False"
| "has_wrapper Starting \<longleftrightarrow> False"
| "has_wrapper (Measuring k) \<longleftrightarrow> False"
| "has_wrapper (Copying k) \<longleftrightarrow> True"
| "has_wrapper (Tallying k) \<longleftrightarrow> True"
| "has_wrapper (Destroying k) \<longleftrightarrow> True"
| "has_wrapper Joining \<longleftrightarrow> False"
| "has_wrapper Reported \<longleftrightarrow> False"

text \<open>The buffer holds the last message that was copied.\<close>

definition has_copied :: "nat \<Rightarrow> MainPhase \<Rightarrow> bool" where
  "has_copied n ph \<longleftrightarrow> to_release n ph < n \<or> (\<exists>k. ph = Tallying k \<or> ph = Destroying k)"

definition queue_ok :: "u64 \<Rightarrow> Sys \<Rightarrow> bool" where
  "queue_ok sz \<sigma> \<longleftrightarrow> reachable write_queue (grid (unat sz + 18)) \<sigma> \<and> dropped \<sigma> = {} \<and>
     (\<forall>x bs. sent \<sigma> x = Some bs \<longrightarrow> bs = bench_message sz)"

definition producers_ok :: "u64 \<Rightarrow> Bench \<Rightarrow> bool" where
  "producers_ok sz \<beta> \<longleftrightarrow>
     (\<forall>i. thread_ok sz (producer_phase \<beta> i) (threads (queue_state \<beta>) i)) \<and>
     (\<forall>i. running (producer_phase \<beta> i) \<longrightarrow> start_flag \<beta>) \<and>
     (start_flag \<beta> \<longrightarrow> started (main_phase \<beta>))"

definition reader_ok :: "MainPhase \<Rightarrow> Sys \<Rightarrow> bool" where
  "reader_ok ph \<sigma> \<longleftrightarrow>
     (if reader_open ph then \<exists>q. open_readers \<sigma> = [0 \<mapsto> q] else open_readers \<sigma> = Map.empty) \<and>
     (if has_wrapper ph then \<exists>wr. held \<sigma> = [0 \<mapsto> wr] \<and> \<not> released wr else held \<sigma> = Map.empty)"

definition counters_ok :: "u64 \<Rightarrow> nat \<Rightarrow> Bench \<Rightarrow> bool" where
  "counters_ok sz n \<beta> \<longleftrightarrow>
     to_release n (main_phase \<beta>) \<le> n \<and>
     (reader_open (main_phase \<beta>) \<longrightarrow>
        length (received (queue_state \<beta>) 0) + to_release n (main_phase \<beta>) = n) \<and>
     consumed \<beta> = of_nat (n - to_count n (main_phase \<beta>)) \<and>
     length (read_message_buffer \<beta>) = unat sz \<and>
     (has_copied n (main_phase \<beta>) \<longrightarrow> read_message_buffer \<beta> = bench_message sz)"

definition bench_inv :: "u64 \<Rightarrow> nat \<Rightarrow> Bench \<Rightarrow> bool" where
  "bench_inv sz n \<beta> \<longleftrightarrow> queue_ok sz (queue_state \<beta>) \<and> producers_ok sz \<beta> \<and>
     reader_ok (main_phase \<beta>) (queue_state \<beta>) \<and> counters_ok sz n \<beta> \<and> crashed \<beta> = None"

lemmas bench_inv_defs = bench_inv_def producers_ok_def reader_ok_def counters_ok_def

lemma write_queue_simps [simp]:
  "q_cap write_queue = 1048576" "is_writer write_queue" "sane_queue write_queue"
  by (simp_all add: write_queue_def bench_params_def IpcQueue_members_def q_cap_def sane_queue_def)

text \<open>The sizes of the benchmark, and all others that \<open>claim_buffer\<close> takes.\<close>

definition bench_size :: "u64 \<Rightarrow> bool" where
  "bench_size sz \<longleftrightarrow> claim_checks write_queue sz"

lemma bench_size_nat: "bench_size sz \<longleftrightarrow> 0 < unat sz \<and> unat sz \<le> 1048558"
  by (auto simp: bench_size_def claim_checks_def write_queue_def bench_params_def IpcQueue_members_def
      sizeof_MessageHeader_def word_less_nat_alt word_le_nat_alt unat_gt_0)

lemma bench_init_inv:
  assumes "bench_init sz \<beta>"
  shows "bench_inv sz n \<beta>"
proof -
  obtain \<sigma> where init: "sys_init write_queue \<sigma>"
    and \<beta>: "queue_state \<beta> = \<sigma>\<lparr>seg := set_writers (writers_of (seg \<sigma>) + 1) (seg \<sigma>)\<rparr>"
    using assms unfolding bench_init_def by blast
  have "queue_init write_queue (grid (unat sz + 18)) \<sigma>" using init by (simp add: queue_init_def)
  then have "reachable write_queue (grid (unat sz + 18)) (queue_state \<beta>)"
    unfolding \<beta> by (rule reachable_step [OF reachable_init sys_step.writer_opens])
  with init \<beta> assms show ?thesis
    by (simp add: bench_inv_defs bench_init_def sys_init_def queue_ok_def reader_open_def running_def
        has_copied_def to_count_def)
qed

section \<open>Every step keeps them\<close>

lemma queue_ok_step:
  assumes "queue_ok sz \<sigma>" "sys_step write_queue (grid (unat sz + 18)) \<sigma> \<sigma>'" "dropped \<sigma>' = {}"
    and "\<And>x bs. sent \<sigma>' x = Some bs \<Longrightarrow> bs = bench_message sz"
  shows "queue_ok sz \<sigma>'"
  using assms reachable_step unfolding queue_ok_def by blast

lemma queue_ok_same:
  assumes "queue_ok sz \<sigma>" "sys_step write_queue (grid (unat sz + 18)) \<sigma> \<sigma>'" "dropped \<sigma>' = dropped \<sigma>" "sent \<sigma>' = sent \<sigma>"
  shows "queue_ok sz \<sigma>'"
  using assms by (intro queue_ok_step [OF assms(1,2)]) (simp_all add: queue_ok_def)

lemma poll_not_released:
  "poll_once q s = Inr (Poll_Return q' s' (Some wr)) \<Longrightarrow> \<not> released wr"
  by (auto simp: poll_once_def mk_reader_wrapper_def bindE_eq_Inr Let_def
      split: if_splits option.splits CommitFlag.splits)

text \<open>What the reader polls and holds.\<close>

lemma bench_poll:
  assumes "queue_ok sz \<sigma>" "open_readers \<sigma> r = Some q"
  shows "poll_once q (seg \<sigma>) \<noteq> Inl e"
    "poll_once q (seg \<sigma>) = Inr (Poll_Again q' s') \<Longrightarrow> reader_at q < seg_lo (seg \<sigma>) + q_cap write_queue"
proof -
  have reach: "reachable write_queue (grid (unat sz + 18)) \<sigma>" and safe: "poll_safe write_queue \<sigma> q"
    using assms(1) by (simp_all add: queue_ok_def poll_safe_def)
  obtain A where R: "refines write_queue (grid (unat sz + 18)) \<sigma> A" using reachable_refines [OF reach] .
  show "poll_once q (seg \<sigma>) \<noteq> Inl e" using no_assertion_fails [OF reach] assms(2) safe by blast
  show "poll_once q (seg \<sigma>) = Inr (Poll_Again q' s') \<Longrightarrow> reader_at q < seg_lo (seg \<sigma>) + q_cap write_queue"
    by (rule poll_again_near [OF R assms(2) safe])
qed

lemma bench_held:
  assumes "queue_ok sz \<sigma>" "open_readers \<sigma> r = Some q" "held \<sigma> r = Some wr"
  shows "get_as_view (seg \<sigma>) wr = bench_message sz"
    "unat (wrapper_size wr - sizeof_MessageHeader) = unat sz"
    "copy_contents_into (seg \<sigma>) wr sz = Inr (bench_message sz, sz)"
    "wrapper_release q (seg \<sigma>) wr \<noteq> Inl e"
proof -
  have reach: "reachable write_queue (grid (unat sz + 18)) \<sigma>" using assms(1) by (simp add: queue_ok_def)
  from held_view [OF reach assms(2,3)] show view: "get_as_view (seg \<sigma>) wr = bench_message sz"
    using assms(1) by (simp add: queue_ok_def)
  then have "length (get_as_view (seg \<sigma>) wr) = unat sz" by (simp add: bench_message_def)
  then show n: "unat (wrapper_size wr - sizeof_MessageHeader) = unat sz" by (simp add: get_as_view_def)
  then have "wrapper_size wr - sizeof_MessageHeader = sz" by (simp add: word_unat_eq_iff)
  with view show "copy_contents_into (seg \<sigma>) wr sz = Inr (bench_message sz, sz)"
    by (simp add: copy_contents_into_def get_as_view_def)
  show "wrapper_release q (seg \<sigma>) wr \<noteq> Inl e" using no_assertion_fails [OF reach] assms(2,3) by blast
qed

lemma bench_open:
  assumes \<sigma>: "queue_ok sz \<sigma>" and none: "open_readers \<sigma> = Map.empty" "held \<sigma> = Map.empty"
    and join: "modify_readers True (seg \<sigma>) = (s', wr)"
  shows "queue_ok sz (\<sigma>\<lparr>seg := s',
      open_readers := (open_readers \<sigma>)(0 \<mapsto> joined_reader write_queue q0 wr),
      received := (received \<sigma>)(0 := []), joined := (joined \<sigma>)(0 := seg_hi (seg \<sigma>))\<rparr>)"
proof (rule queue_ok_same [OF \<sigma> sys_step.join [OF _ _ _ _ join]])
  have "reachable write_queue (grid (unat sz + 18)) \<sigma>" using \<sigma> by (simp add: queue_ok_def)
  from watermark_is_slowest_reader [OF this] none(1)
  show "seg_hi (seg \<sigma>) \<le> seg_lo (seg \<sigma>) + q_cap write_queue" by (auto simp: not_less)
qed (use none in simp_all)

lemma main_step_inv:
  assumes "bench_inv sz n \<beta>" "main_step producers sz n \<beta> \<beta>'"
  shows "bench_inv sz n \<beta>'"
  using assms(2)
proof cases
  case (open_reader \<sigma> s' wr)
  with assms(1) bench_open [of sz \<sigma> s' wr] show ?thesis
    by (auto simp: bench_inv_defs reader_open_def has_copied_def to_count_def)
next
  case main_arrives
  with assms(1) show ?thesis by (auto simp: bench_inv_defs reader_open_def has_copied_def to_count_def)
next
  case main_passes
  with assms(1) show ?thesis by (auto simp: bench_inv_defs reader_open_def has_copied_def to_count_def)
next
  case starts
  with assms(1) show ?thesis by (auto simp: bench_inv_defs reader_open_def has_copied_def to_count_def)
next
  case (reads k \<sigma> q q' s' got)
  have \<sigma>: "queue_ok sz \<sigma>" "held \<sigma> = Map.empty" "open_readers \<sigma> = [0 \<mapsto> q]"
    using assms(1) reads by (auto simp: bench_inv_defs reader_open_def)
  then have "queue_ok sz (\<sigma>\<lparr>seg := s', open_readers := (open_readers \<sigma>)(0 \<mapsto> q'), held := (held \<sigma>)(0 := got)\<rparr>)"
    by (intro queue_ok_same [OF \<sigma>(1) sys_step.poll_return [OF reads(4) _ reads(5)]]) simp_all
  with assms(1) reads \<sigma> show ?thesis
    by (cases got) (auto simp: bench_inv_defs reader_open_def has_copied_def to_count_def
        dest: poll_not_released)
next
  case (reads_on k \<sigma> q q' s')
  have \<sigma>: "queue_ok sz \<sigma>" "held \<sigma> = Map.empty" "open_readers \<sigma> = [0 \<mapsto> q]"
    using assms(1) reads_on by (auto simp: bench_inv_defs reader_open_def)
  then have "queue_ok sz (\<sigma>\<lparr>seg := s', open_readers := (open_readers \<sigma>)(0 \<mapsto> q')\<rparr>)"
    using bench_poll(2) [OF \<sigma>(1) reads_on(4,5)]
    by (intro queue_ok_same [OF \<sigma>(1) sys_step.poll_again [OF reads_on(4) _ _ reads_on(5)]]) simp_all
  with assms(1) reads_on \<sigma> show ?thesis by (auto simp: bench_inv_defs reader_open_def)
next
  case (read_fails k q e)
  with assms(1) bench_poll(1) [of sz "queue_state \<beta>"] show ?thesis by (simp add: bench_inv_def)
next
  case (copies k wr bytes m)
  obtain q where q: "open_readers (queue_state \<beta>) 0 = Some q"
    using assms(1) copies(2) by (auto simp: bench_inv_defs reader_open_def)
  have "queue_ok sz (queue_state \<beta>)" using assms(1) by (simp add: bench_inv_def)
  from bench_held(3) [OF this q copies(3)] copies(4) have "bytes = bench_message sz" by simp
  with assms(1) copies show ?thesis
    by (auto simp: bench_inv_defs reader_open_def has_copied_def to_count_def bench_message_def)
next
  case (copy_fails k wr e)
  obtain q where q: "open_readers (queue_state \<beta>) 0 = Some q"
    using assms(1) copy_fails(2) by (auto simp: bench_inv_defs reader_open_def)
  have "queue_ok sz (queue_state \<beta>)" using assms(1) by (simp add: bench_inv_def)
  from bench_held(3) [OF this q copy_fails(3)] copy_fails(4) show ?thesis by simp
next
  case (tallies k)
  then have "n - k = Suc (n - Suc k)" using assms(1) by (auto simp: bench_inv_defs)
  with assms(1) tallies show ?thesis
    by (auto simp: bench_inv_defs reader_open_def has_copied_def to_count_def)
next
  case (destroys k \<sigma> q wr q' s')
  have \<sigma>: "queue_ok sz \<sigma>" "held \<sigma> = [0 \<mapsto> wr]" "\<not> released wr" "open_readers \<sigma> = [0 \<mapsto> q]"
    using assms(1) destroys by (auto simp: bench_inv_defs reader_open_def)
  then obtain wr' where "wrapper_release q (seg \<sigma>) wr = Inr (q', s', wr')"
    using destroys(6) by (auto simp: wrapper_destruct_def bindE_eq_Inr)
  then have "queue_ok sz (\<sigma>\<lparr>seg := s', open_readers := (open_readers \<sigma>)(0 \<mapsto> q'),
      held := (held \<sigma>)(0 := None), received := (received \<sigma>)(0 := received \<sigma> 0 @ [get_as_view (seg \<sigma>) wr])\<rparr>)"
    by (intro queue_ok_same [OF \<sigma>(1) sys_step.release [OF destroys(4,5)]]) simp_all
  with assms(1) destroys \<sigma> show ?thesis
    by (auto simp: bench_inv_defs reader_open_def has_copied_def to_count_def)
next
  case (destroy_fails k q wr e)
  have \<sigma>: "queue_ok sz (queue_state \<beta>)" "\<not> released wr"
    using assms(1) destroy_fails by (auto simp: bench_inv_defs reader_open_def)
  from bench_held(4) [OF \<sigma>(1) destroy_fails(3,4)] destroy_fails(5) \<sigma>(2) show ?thesis
    by (cases "wrapper_release q (seg (queue_state \<beta>)) wr") (auto simp: wrapper_destruct_def)
next
  case stops
  with assms(1) show ?thesis by (auto simp: bench_inv_defs reader_open_def has_copied_def to_count_def)
next
  case reports
  with assms(1) show ?thesis by (auto simp: bench_inv_defs reader_open_def has_copied_def to_count_def)
qed

lemma thread_okD:
  assumes "producers_ok sz \<beta>" "threads (queue_state \<beta>) i = Some ph"
  shows "ph = Waiting sz' t \<Longrightarrow> sz' = sz"
    "ph = Holding b \<Longrightarrow> wrapper_size b = sz + sizeof_MessageHeader"
proof -
  have ok: "thread_ok sz (producer_phase \<beta> i) (Some ph)" using assms by (metis producers_ok_def)
  show "sz' = sz" if "ph = Waiting sz' t" using ok that by (cases "producer_phase \<beta> i") simp_all
  show "wrapper_size b = sz + sizeof_MessageHeader" if "ph = Holding b"
    using ok that by (cases "producer_phase \<beta> i") simp_all
qed

lemma producers_ok_step:
  assumes "producers_ok sz \<beta>" "main_phase \<beta>' = main_phase \<beta>" "start_flag \<beta>' = start_flag \<beta>"
    and "\<And>j. j \<noteq> i \<Longrightarrow> producer_phase \<beta>' j = producer_phase \<beta> j"
    and "\<And>j. j \<noteq> i \<Longrightarrow> threads (queue_state \<beta>') j = threads (queue_state \<beta>) j"
    and "thread_ok sz (producer_phase \<beta>' i) (threads (queue_state \<beta>') i)"
    and "running (producer_phase \<beta>' i) \<Longrightarrow> start_flag \<beta>"
  shows "producers_ok sz \<beta>'"
  using assms unfolding producers_ok_def by metis

text \<open>The message is as long as the payload of the buffer, so it is what readers get.\<close>

lemma whole_payload:
  assumes "wrapper_size b = sz + sizeof_MessageHeader" "unat sz + 18 < 2 ^ 64"
  shows "unat (wrapper_size b) = unat sz + 18"
    "payload_after_write s b (bench_message sz) = bench_message sz"
  using assms by (simp_all add: payload_after_write_def bench_message_def sizeof_MessageHeader_def
      unat_add_u64)

text \<open>The two steps of a producer that need the conditions of the system.\<close>

lemma reserve_keeps_queue_ok:
  assumes inv: "bench_inv sz n \<beta>" and size: "bench_size sz" and start: "start_flag \<beta>"
    and th: "threads (queue_state \<beta>) i = None" and checks: "claim_checks write_queue sz"
    and res: "reserve_write_offset write_queue (seg (queue_state \<beta>)) (sz + sizeof_MessageHeader) = (s', t)"
    and far: "seg_hi (seg (queue_state \<beta>)) + 2 * q_cap write_queue < 2 ^ 56"
  shows "queue_ok sz ((queue_state \<beta>)\<lparr>seg := s', threads := (threads (queue_state \<beta>))(i \<mapsto> Waiting sz t)\<rparr>)"
proof -
  have \<sigma>: "queue_ok sz (queue_state \<beta>)" and pr: "producers_ok sz \<beta>"
    using inv by (simp_all add: bench_inv_def)
  from start pr have "started (main_phase \<beta>)" by (simp add: producers_ok_def)
  then have "reader_open (main_phase \<beta>)" by (cases "main_phase \<beta>") (simp_all add: reader_open_def)
  then obtain q where "open_readers (queue_state \<beta>) = [0 \<mapsto> q]"
    using inv by (auto simp: bench_inv_def reader_ok_def)
  then have readers: "open_readers (queue_state \<beta>) \<noteq> Map.empty" by simp
  obtain A where R: "refines write_queue (grid (unat sz + 18)) (queue_state \<beta>) A"
    using reachable_refines \<sigma> by (metis queue_ok_def)
  have nat: "unat (sz + sizeof_MessageHeader) = unat sz + 18" "unat sz + 18 < 2 ^ 32"
    using size by (simp_all add: bench_size_nat sizeof_MessageHeader_def unat_add_u64)
  have grid: "seg_hi s' mod q_cap write_queue \<in> grid (unat sz + 18)"
    unfolding grid_iff by (rule aligned_sizes_keep_grid [OF _ _ _ _ _ _ res])
      (use R nat far in \<open>simp_all add: refines_def rel_offsets_def\<close>)
  show ?thesis
    by (rule queue_ok_same [OF \<sigma> sys_step.reserve [OF th readers checks res grid far]]) simp_all
qed

lemma publish_keeps_queue_ok:
  assumes \<sigma>: "queue_ok sz \<sigma>" and size: "bench_size sz" and b: "wrapper_size b = sz + sizeof_MessageHeader"
    and th: "threads \<sigma> i = Some (Holding b)" and wr: "write_to_buffer (seg \<sigma>) b (bench_message sz) = Inr s'"
  shows "queue_ok sz (\<sigma>\<lparr>seg := s', threads := (threads \<sigma>)(i := None),
    sent := (sent \<sigma>)(claimed_at (seg \<sigma>) b \<mapsto> payload_after_write (seg \<sigma>) b (bench_message sz))\<rparr>)"
proof -
  have "payload_after_write (seg \<sigma>) b (bench_message sz) = bench_message sz"
    using whole_payload(2) [OF b] size by (simp add: bench_size_nat)
  moreover have "sent \<sigma> x = Some bs \<Longrightarrow> bs = bench_message sz" for x bs using \<sigma> by (simp add: queue_ok_def)
  moreover have "dropped \<sigma> = {}" using \<sigma> by (simp add: queue_ok_def)
  ultimately show ?thesis
    by (intro queue_ok_step [OF \<sigma> sys_step.publish [OF th wr]]) (auto split: if_splits)
qed

lemma producer_step_inv:
  assumes inv: "bench_inv sz n \<beta>" and size: "bench_size sz" and step: "producer_step producers sz i \<beta> \<beta>'"
    and room: "reserves_in \<beta> \<beta>' \<Longrightarrow> offset_room \<beta>"
  shows "bench_inv sz n \<beta>'"
proof -
  have \<sigma>: "queue_ok sz (queue_state \<beta>)" and pr: "producers_ok sz \<beta>"
    using inv by (simp_all add: bench_inv_def)
  have reach: "reachable write_queue (grid (unat sz + 18)) (queue_state \<beta>)" using \<sigma> by (simp add: queue_ok_def)
  have own: "thread_ok sz (producer_phase \<beta> i) (threads (queue_state \<beta>) i)"
    "running (producer_phase \<beta> i) \<Longrightarrow> start_flag \<beta>"
    using pr unfolding producers_ok_def by blast+
  have keep: "bench_inv sz n \<beta>'"
    if "queue_ok sz (queue_state \<beta>')" "producers_ok sz \<beta>'" "main_phase \<beta>' = main_phase \<beta>"
      "open_readers (queue_state \<beta>') = open_readers (queue_state \<beta>)"
      "held (queue_state \<beta>') = held (queue_state \<beta>)"
      "received (queue_state \<beta>') = received (queue_state \<beta>)" "consumed \<beta>' = consumed \<beta>"
      "read_message_buffer \<beta>' = read_message_buffer \<beta>" "crashed \<beta>' = crashed \<beta>"
    using inv that by (simp add: bench_inv_def reader_ok_def counters_ok_def)
  have keep_phase: "bench_inv sz n \<beta>'"
    if "queue_state \<beta>' = queue_state \<beta>" "thread_ok sz ph (threads (queue_state \<beta>) i)"
      "running ph \<Longrightarrow> start_flag \<beta>" "producer_phase \<beta>' = (producer_phase \<beta>)(i := ph)"
      "start_flag \<beta>' = start_flag \<beta>" "main_phase \<beta>' = main_phase \<beta>" "consumed \<beta>' = consumed \<beta>"
      "read_message_buffer \<beta>' = read_message_buffer \<beta>" "crashed \<beta>' = crashed \<beta>" for ph
    using that \<sigma> by (intro keep producers_ok_step [OF pr, of _ i]) simp_all
  from step show ?thesis
  proof cases
    case arrives
    then show ?thesis using own by (intro keep_phase [of At_Barrier]) (simp_all add: running_def)
  next
    case passes
    then show ?thesis using own by (intro keep_phase [of Awaiting_Start]) (simp_all add: running_def)
  next
    case sees_start
    then show ?thesis using own by (intro keep_phase [of Checking_Stop]) simp_all
  next
    case sees_stop
    then show ?thesis using own by (intro keep_phase [of Exited]) (simp_all add: running_def)
  next
    case loops
    then show ?thesis using own by (intro keep_phase [of Claiming]) (simp_all add: running_def)
  next
    case (reserves \<sigma>1 s' t)
    have start: "start_flag \<beta>" using own(2) reserves(2) by (simp add: running_def)
    have "reserves_in \<beta> \<beta>'" unfolding reserves_in_def using reserves(1,3,4) by (intro exI [of _ i]) simp
    with room have "seg_hi (seg \<sigma>1) + 2 * q_cap write_queue < 2 ^ 56"
      using reserves(3) by (simp add: offset_room_def)
    then have "queue_ok sz (\<sigma>1\<lparr>seg := s', threads := (threads \<sigma>1)(i \<mapsto> Waiting sz t)\<rparr>)"
      using reserve_keeps_queue_ok [OF inv size start, of i s' t] reserves(3-6) by simp
    moreover have "producers_ok sz \<beta>'"
      using reserves(1-3) start by (intro producers_ok_step [OF pr, of _ i]) simp_all
    ultimately show ?thesis using reserves(1,3) by (intro keep) simp_all
  next
    case claim_fails
    with size show ?thesis by (simp add: bench_size_def)
  next
    case (places \<sigma>1 sz' t s' b)
    have sz: "sz' = sz" using thread_okD(1) [OF pr, of i "Waiting sz' t"] places by simp
    have "queue_ok sz (\<sigma>1\<lparr>seg := s', threads := (threads \<sigma>1)(i \<mapsto> Holding b)\<rparr>)"
      by (rule queue_ok_same [OF \<sigma> [unfolded places(3)] sys_step.place [OF places(4-6)]]) simp_all
    then show ?thesis
      using places(1-3) own place_claim_size [OF places(6)] sz
      by (intro keep producers_ok_step [OF pr, of _ i]) (simp_all add: running_def)
  next
    case (skips \<sigma>1 sz' t s')
    have "queue_ok sz (\<sigma>1\<lparr>seg := s', threads := (threads \<sigma>1)(i := None)\<rparr>)"
      by (rule queue_ok_same [OF \<sigma> [unfolded skips(3)] sys_step.skip [OF skips(4-6)]]) simp_all
    then show ?thesis
      using skips(1-3) own by (intro keep producers_ok_step [OF pr, of _ i]) (simp_all add: running_def)
  next
    case (place_fails sz' t e)
    with no_assertion_fails [OF reach] show ?thesis by blast
  next
    case (writes_message \<sigma>1 b s')
    have size_b: "wrapper_size b = sz + sizeof_MessageHeader"
      using thread_okD(2) [OF pr, of i "Holding b"] writes_message by simp
    from publish_keeps_queue_ok [OF \<sigma> [unfolded writes_message(3)] size size_b writes_message(4,5)]
    have "queue_ok sz (\<sigma>1\<lparr>seg := s', threads := (threads \<sigma>1)(i := None),
      sent := (sent \<sigma>1)(claimed_at (seg \<sigma>1) b \<mapsto> payload_after_write (seg \<sigma>1) b (bench_message sz))\<rparr>)" .
    then show ?thesis
      using writes_message(1-3) own by (intro keep producers_ok_step [OF pr, of _ i]) (simp_all add: running_def)
  next
    case (write_fails b e)
    have size_b: "wrapper_size b = sz + sizeof_MessageHeader"
      using thread_okD(2) [OF pr, of i "Holding b"] write_fails by simp
    then have "unat (wrapper_size b) = unat sz + 18"
      using whole_payload(1) [OF size_b] size by (simp add: bench_size_nat)
    with write_fails(4) show ?thesis
      by (simp add: write_to_buffer_def bench_message_def sizeof_MessageHeader_def)
  next
    case counts
    then show ?thesis using own by (intro keep_phase [of Checking_Stop]) (simp_all add: running_def)
  qed
qed

interpretation bench: invariant_machine "bench_init sz"
    "\<lambda>\<beta> \<beta>'. bench_size sz \<and> bounded_step producers sz n \<beta> \<beta>'" "bench_inv sz n" for producers sz n
  by unfold_locales (auto simp: bounded_step_def bench_step_def intro: bench_init_inv main_step_inv producer_step_inv)

definition bench_reachable :: "nat \<Rightarrow> u64 \<Rightarrow> nat \<Rightarrow> Bench \<Rightarrow> bool" where
  "bench_reachable producers sz n \<beta> \<longleftrightarrow>
     (\<exists>\<beta>0. bench_init sz \<beta>0 \<and> (bounded_step producers sz n)\<^sup>*\<^sup>* \<beta>0 \<beta>)"

lemma bench_reachable_inv:
  assumes "bench_reachable producers sz n \<beta>" "bench_size sz"
  shows "bench_inv sz n \<beta>"
proof -
  obtain \<beta>0 where "bench_init sz \<beta>0" "(bounded_step producers sz n)\<^sup>*\<^sup>* \<beta>0 \<beta>"
    using assms(1) unfolding bench_reachable_def by blast
  with bench.reachable_inv [of sz \<beta>0 producers n \<beta>] assms(2) show ?thesis by simp
qed

text \<open>
  C27. The benchmark measures what it means to. In every state that its threads can reach no
  exception was thrown and no assertion failed, and the queue is in a state that \<open>Ipc_System\<close> can
  reach, so every guarantee of the queue holds: no thread claims before the reader is registered,
  the messages keep to a grid, and the reader polls only where it may. When the main thread has
  joined the producers it has counted one message for each iteration, every one of them was the
  producers' message, and its buffer holds a copy.
\<close>

theorem benchmark_measures:
  assumes "bench_reachable producers sz n \<beta>" "bench_size sz"
  shows "crashed \<beta> = None \<and> reachable write_queue (grid (unat sz + 18)) (queue_state \<beta>) \<and>
    (main_phase \<beta> = Reported \<longrightarrow> consumed \<beta> = of_nat n \<and>
       received (queue_state \<beta>) 0 = replicate n (bench_message sz) \<and>
       (0 < n \<longrightarrow> read_message_buffer \<beta> = bench_message sz))"
proof -
  have inv: "bench_inv sz n \<beta>" by (rule bench_reachable_inv [OF assms])
  then have reach: "reachable write_queue (grid (unat sz + 18)) (queue_state \<beta>)"
    and sent: "\<And>x bs. sent (queue_state \<beta>) x = Some bs \<Longrightarrow> bs = bench_message sz"
    and count: "counters_ok sz n \<beta>" and reader: "reader_ok (main_phase \<beta>) (queue_state \<beta>)"
    by (simp_all add: bench_inv_def queue_ok_def)
  have "received (queue_state \<beta>) 0 = replicate n (bench_message sz)" if fin: "main_phase \<beta> = Reported"
  proof (rule replicate_eqI)
    obtain q where q: "open_readers (queue_state \<beta>) 0 = Some q"
      using reader fin by (auto simp: reader_ok_def reader_open_def)
    show "length (received (queue_state \<beta>) 0) = n"
      using count fin by (simp add: counters_ok_def reader_open_def)
    fix bs assume "bs \<in> set (received (queue_state \<beta>) 0)"
    moreover have "finite {x \<in> dom (sent (queue_state \<beta>)). joined (queue_state \<beta>) 0 \<le> x \<and> x < reader_at q}"
      by (rule finite_subset [of _ "{..<reader_at q}"]) auto
    ultimately obtain x where "x \<in> dom (sent (queue_state \<beta>))" "bs = the (sent (queue_state \<beta>) x)"
      unfolding delivered [OF reach q] by auto
    then show "bs = bench_message sz" using sent by auto
  qed
  with inv reach show ?thesis
    by (auto simp: bench_inv_def counters_ok_def to_count_def has_copied_def)
qed

section \<open>Runs of one producer\<close>

definition others_same :: "Bench \<Rightarrow> Bench \<Rightarrow> bool" where
  "others_same \<beta> \<beta>' \<longleftrightarrow> main_phase \<beta>' = main_phase \<beta> \<and> stop_flag \<beta>' = stop_flag \<beta> \<and>
     open_readers (queue_state \<beta>') = open_readers (queue_state \<beta>) \<and>
     seg_lo (seg (queue_state \<beta>')) = seg_lo (seg (queue_state \<beta>))"

lemma others_same_trans: "others_same \<beta> \<beta>1 \<Longrightarrow> others_same \<beta>1 \<beta>2 \<Longrightarrow> others_same \<beta> \<beta>2"
  by (simp add: others_same_def)

abbreviation solo_step :: "u64 \<Rightarrow> nat \<Rightarrow> Bench \<Rightarrow> Bench \<Rightarrow> bool" where
  "solo_step \<equiv> bounded_step 1"

text \<open>Only a claim makes a thread wait.\<close>

lemma main_reserves_nothing: "main_step producers sz n \<beta> \<beta>' \<Longrightarrow> threads (queue_state \<beta>') = threads (queue_state \<beta>)"
  by (cases rule: main_step.cases) auto

lemma producer_reserves:
  "producer_step producers sz i \<beta> \<beta>' \<Longrightarrow> reserves_in \<beta> \<beta>' \<Longrightarrow>
     producer_phase \<beta> i = Claiming \<and> threads (queue_state \<beta>) i = None"
  by (cases rule: producer_step.cases) (auto simp: reserves_in_def split: if_splits)

lemma solo_reserver: "producer_step 1 sz 0 \<beta> \<beta>' \<Longrightarrow> offset_room \<beta> \<Longrightarrow> solo_step sz n \<beta> \<beta>'"
  and solo_main: "main_step 1 sz n \<beta> \<beta>' \<Longrightarrow> solo_step sz n \<beta> \<beta>'"
  by (auto simp: bounded_step_def bench_step_def reserves_in_def dest: main_reserves_nothing)

lemma solo_producer:
  assumes "producer_step 1 sz 0 \<beta> \<beta>'" "producer_phase \<beta> 0 \<noteq> Claiming \<or> threads (queue_state \<beta>) 0 \<noteq> None"
  shows "solo_step sz n \<beta> \<beta>'"
  using assms producer_reserves [OF assms(1)] by (auto simp: bounded_step_def bench_step_def)

lemma solo_inv:
  "bench_inv sz n \<beta> \<Longrightarrow> bench_size sz \<Longrightarrow> (solo_step sz n)\<^sup>*\<^sup>* \<beta> \<beta>' \<Longrightarrow> bench_inv sz n \<beta>'"
  using bench.steps_inv [of sz 1 n \<beta> \<beta>'] by simp

lemma bench_reach: "bench_inv sz n \<beta> \<Longrightarrow> reachable write_queue (grid (unat sz + 18)) (queue_state \<beta>)"
  by (simp add: bench_inv_def queue_ok_def)

text \<open>A claim reserves a region, and waits or goes on.\<close>

lemma solo_reserve:
  assumes inv: "bench_inv sz n \<beta>" and size: "bench_size sz"
    and "producer_phase \<beta> 0 = Claiming" "threads (queue_state \<beta>) 0 = None"
    and room: "seg_hi (seg (queue_state \<beta>)) + 2 * 1048576 < 2 ^ 56"
  obtains \<beta>' t where "solo_step sz n \<beta> \<beta>'" "others_same \<beta> \<beta>'" "producer_phase \<beta>' 0 = Claiming"
    "threads (queue_state \<beta>') 0 = Some (Waiting sz t)" "ticket_start t = seg_hi (seg (queue_state \<beta>))"
    "ticket_end t = seg_hi (seg (queue_state \<beta>'))"
    "seg_hi (seg (queue_state \<beta>')) = seg_hi (seg (queue_state \<beta>)) +
       region_len 1048576 (seg_hi (seg (queue_state \<beta>))) (unat sz + 18)"
proof -
  let ?\<sigma> = "queue_state \<beta>"
  obtain s' t where eq: "reserve_write_offset write_queue (seg ?\<sigma>) (sz + sizeof_MessageHeader) = (s', t)"
    by (cases "reserve_write_offset write_queue (seg ?\<sigma>) (sz + sizeof_MessageHeader)")
  let ?\<beta> = "\<beta>\<lparr>queue_state := ?\<sigma>\<lparr>seg := s', threads := (threads ?\<sigma>)(0 \<mapsto> Waiting sz t)\<rparr>\<rparr>"
  have n: "unat (sz + sizeof_MessageHeader) = unat sz + 18" "unat sz + 18 < 2 ^ 32"
    using size by (simp_all add: bench_size_nat sizeof_MessageHeader_def unat_add_u64)
  have "seg_hi (seg ?\<sigma>) + region_len (q_cap write_queue) (seg_hi (seg ?\<sigma>)) (unat (sz + sizeof_MessageHeader)) < 2 ^ 56"
    using room region_len_le [of 1048576 "seg_hi (seg ?\<sigma>)" "unat sz + 18"] n by simp
  note nat = reserve_write_offset_nat [OF _ _ this eq, unfolded n(1), simplified]
  have "producer_step 1 sz 0 \<beta> ?\<beta>"
    using producer_step.reserves [OF assms(3) refl assms(4) _ eq] size room
    by (simp add: bench_size_def)
  moreover have "offset_room \<beta>" using room by (simp add: offset_room_def)
  ultimately have "solo_step sz n \<beta> ?\<beta>" by (rule solo_reserver)
  from that [OF this, of t] assms(3) nat n(2) show ?thesis
    by (simp add: others_same_def)
qed

lemma solo_place:
  assumes inv: "bench_inv sz n \<beta>" and ph: "producer_phase \<beta> 0 = Claiming"
    and th: "threads (queue_state \<beta>) 0 = Some (Waiting sz t)"
    and go: "\<not> must_wait write_queue (seg (queue_state \<beta>)) t"
  obtains \<beta>' where "solo_step sz n \<beta> \<beta>'" "others_same \<beta> \<beta>'"
    "seg_hi (seg (queue_state \<beta>')) = seg_hi (seg (queue_state \<beta>))"
    "claim_fits 1048576 (ticket_start t) (unat sz) \<Longrightarrow>
       producer_phase \<beta>' 0 = Writing \<and> (\<exists>b. threads (queue_state \<beta>') 0 = Some (Holding b) \<and>
         claimed_at (seg (queue_state \<beta>')) b = ticket_start t)"
    "\<not> claim_fits 1048576 (ticket_start t) (unat sz) \<Longrightarrow>
       producer_phase \<beta>' 0 = Claiming \<and> threads (queue_state \<beta>') 0 = None"
proof -
  let ?\<sigma> = "queue_state \<beta>"
  obtain A where R: "refines write_queue (grid (unat sz + 18)) ?\<sigma> A" using reachable_refines [OF bench_reach [OF inv]] .
  obtain e where "e \<in> set (s_log A)"
    and e: "e_start e = ticket_start t" "unat sz < 2 ^ 31" "header_room 1048576 (e_start e)"
    by (rule waiting_entry [OF R th go]) simp
  show ?thesis
  proof (cases "claim_fits 1048576 (ticket_start t) (unat sz)")
    case True
    let ?b = "\<lparr>wrapper_data = ticket_start t mod 1048576, wrapper_size = sz + sizeof_MessageHeader\<rparr>"
    obtain s' where place: "place_claim write_queue (seg ?\<sigma>) sz t = Inr (s', Some ?b)"
      and s': "seg_hi s' = seg_hi (seg ?\<sigma>)" "seg_lo s' = seg_lo (seg ?\<sigma>)" "claimed_at s' ?b = ticket_start t"
      using place_claim_fits [of write_queue sz t "seg ?\<sigma>"] e(2) True
      by (simp add: claimed_at_def header_ring_header ticket_start_def)
    note step = producer_step.places [OF ph refl th go place, of 1 sz]
    from True s' show ?thesis
      by (intro that [OF solo_producer [OF step]]) (simp_all add: others_same_def th)
  next
    case False
    obtain s' where place: "place_claim write_queue (seg ?\<sigma>) sz t = Inr (s', None)"
      and s': "seg_hi s' = seg_hi (seg ?\<sigma>)" "seg_lo s' = seg_lo (seg ?\<sigma>)"
      using place_claim_skips [of write_queue sz t "seg ?\<sigma>"] e False by simp
    note step = producer_step.skips [OF ph refl th go place, of 1 sz]
    from False s' ph show ?thesis
      by (intro that [OF solo_producer [OF step]]) (simp_all add: others_same_def th)
  qed
qed

lemma solo_write:
  assumes inv: "bench_inv sz n \<beta>" and size: "bench_size sz" and ph: "producer_phase \<beta> 0 = Writing"
    and th: "threads (queue_state \<beta>) 0 = Some (Holding b)"
  obtains \<beta>' where "(solo_step sz n)\<^sup>*\<^sup>* \<beta> \<beta>'" "others_same \<beta> \<beta>'" "producer_phase \<beta>' 0 = Checking_Stop"
    "threads (queue_state \<beta>') 0 = None" "seg_hi (seg (queue_state \<beta>')) = seg_hi (seg (queue_state \<beta>))"
    "sent (queue_state \<beta>') = (sent (queue_state \<beta>))(claimed_at (seg (queue_state \<beta>)) b \<mapsto> bench_message sz)"
proof -
  let ?\<sigma> = "queue_state \<beta>"
  have pr: "producers_ok sz \<beta>" using inv by (simp add: bench_inv_def)
  have "wrapper_size b = sz + sizeof_MessageHeader" using thread_okD(2) [OF pr th] by simp
  note whole = whole_payload [OF this]
  have small: "unat sz + 18 < 2 ^ 64" using size by (simp add: bench_size_nat)
  obtain s' where wrote: "write_to_buffer (seg ?\<sigma>) b (bench_message sz) = Inr s'"
    and s': "seg_hi s' = seg_hi (seg ?\<sigma>)" "seg_lo s' = seg_lo (seg ?\<sigma>)"
    using whole(1) [OF small]
    by (simp add: write_to_buffer_def bench_message_def sizeof_MessageHeader_def commit_buffer_def)
  let ?\<beta>1 = "set_phase 0 Counting (\<beta>\<lparr>queue_state := ?\<sigma>\<lparr>seg := s', threads := (threads ?\<sigma>)(0 := None),
    sent := (sent ?\<sigma>)(claimed_at (seg ?\<sigma>) b \<mapsto> payload_after_write (seg ?\<sigma>) b (bench_message sz))\<rparr>\<rparr>)"
  let ?\<beta>2 = "set_phase 0 Checking_Stop (?\<beta>1\<lparr>produced := produced ?\<beta>1 + 1\<rparr>)"
  have "solo_step sz n \<beta> ?\<beta>1" by (rule solo_producer [OF producer_step.writes_message [OF ph refl th wrote]]) (simp add: th)
  moreover have "solo_step sz n ?\<beta>1 ?\<beta>2" by (rule solo_producer [OF producer_step.counts]) simp_all
  ultimately have "(solo_step sz n)\<^sup>*\<^sup>* \<beta> ?\<beta>2" by (meson r_into_rtranclp rtranclp.rtrancl_into_rtrancl)
  then show ?thesis by (rule that) (use s' whole(2) [OF small] in \<open>simp_all add: others_same_def\<close>)
qed

lemma bench_offsets:
  assumes "bench_inv sz n \<beta>"
  shows "header_room 1048576 (seg_hi (seg (queue_state \<beta>)))"
proof -
  obtain A where "refines write_queue (grid (unat sz + 18)) (queue_state \<beta>) A"
    using reachable_refines [OF bench_reach [OF assms]] .
  then show ?thesis by (simp add: refines_def rel_offsets_def)
qed

text \<open>One message, where it fits before the end of the ring and need not wait.\<close>

lemma solo_produce:
  assumes inv: "bench_inv sz n \<beta>" and size: "bench_size sz"
    and ph: "producer_phase \<beta> 0 = Checking_Stop" "\<not> stop_flag \<beta>"
    and off: "seg_lo (seg (queue_state \<beta>)) = seg_hi (seg (queue_state \<beta>))"
      "seg_hi (seg (queue_state \<beta>)) + unat sz + 36 \<le> 1048576"
  obtains \<beta>' where "(solo_step sz n)\<^sup>*\<^sup>* \<beta> \<beta>'" "others_same \<beta> \<beta>'" "producer_phase \<beta>' 0 = Checking_Stop"
    "seg_hi (seg (queue_state \<beta>')) = seg_hi (seg (queue_state \<beta>)) + unat sz + 18"
    "sent (queue_state \<beta>') (seg_hi (seg (queue_state \<beta>))) = Some (bench_message sz)"
proof -
  let ?hi = "seg_hi (seg (queue_state \<beta>))"
  let ?\<beta>1 = "set_phase 0 Claiming \<beta>"
  have s1: "(solo_step sz n)\<^sup>*\<^sup>* \<beta> ?\<beta>1"
    by (rule r_into_rtranclp) (rule solo_producer [OF producer_step.loops [OF ph]], simp add: ph)
  have inv1: "bench_inv sz n ?\<beta>1" by (rule solo_inv [OF inv size s1])
  have "thread_ok sz Checking_Stop (threads (queue_state \<beta>) 0)"
    using inv ph(1) unfolding bench_inv_def producers_ok_def by metis
  then have th1: "threads (queue_state ?\<beta>1) 0 = None" by simp
  have fits: "claim_fits 1048576 ?hi (unat sz)" using off(2) by (simp add: claim_fits_def)
  have ph1: "producer_phase ?\<beta>1 0 = Claiming"
    and room: "seg_hi (seg (queue_state ?\<beta>1)) + 2 * 1048576 < 2 ^ 56" using off(2) by simp_all
  from solo_reserve [OF inv1 size ph1 th1 room, unfolded set_phase_simps region_len_fits [OF fits]]
  obtain \<beta>2 t where
    s2: "solo_step sz n ?\<beta>1 \<beta>2" "others_same ?\<beta>1 \<beta>2" "producer_phase \<beta>2 0 = Claiming"
      "threads (queue_state \<beta>2) 0 = Some (Waiting sz t)"
    and t: "ticket_start t = ?hi" "ticket_end t = seg_hi (seg (queue_state \<beta>2))"
      "seg_hi (seg (queue_state \<beta>2)) = ?hi + (unat sz + 18)" .
  have r2: "(solo_step sz n)\<^sup>*\<^sup>* \<beta> \<beta>2" using s1 s2(1) by (rule rtranclp.rtrancl_into_rtrancl)
  have lo2: "seg_lo (seg (queue_state \<beta>2)) = ?hi" using s2(2) off(1) by (simp add: others_same_def)
  have "\<not> must_wait write_queue (seg (queue_state \<beta>2)) t"
    using must_wait_nat [of "seg (queue_state \<beta>2)" t write_queue] t lo2 off(2) by simp
  from solo_place [OF solo_inv [OF inv size r2] s2(3,4) this] obtain \<beta>3 b where
    s3: "solo_step sz n \<beta>2 \<beta>3" "others_same \<beta>2 \<beta>3" "producer_phase \<beta>3 0 = Writing"
      "seg_hi (seg (queue_state \<beta>3)) = seg_hi (seg (queue_state \<beta>2))"
    and b: "threads (queue_state \<beta>3) 0 = Some (Holding b)" "claimed_at (seg (queue_state \<beta>3)) b = ?hi"
    using fits t(1) by metis
  have r3: "(solo_step sz n)\<^sup>*\<^sup>* \<beta> \<beta>3" using r2 s3(1) by (rule rtranclp.rtrancl_into_rtrancl)
  from solo_write [OF solo_inv [OF inv size r3] size s3(3) b(1)] obtain \<beta>4 where
    s4: "(solo_step sz n)\<^sup>*\<^sup>* \<beta>3 \<beta>4" "others_same \<beta>3 \<beta>4" "producer_phase \<beta>4 0 = Checking_Stop"
      "seg_hi (seg (queue_state \<beta>4)) = seg_hi (seg (queue_state \<beta>3))"
      "sent (queue_state \<beta>4) ?hi = Some (bench_message sz)"
    unfolding b(2) by (metis fun_upd_same)
  show ?thesis
  proof (rule that [of \<beta>4])
    show "(solo_step sz n)\<^sup>*\<^sup>* \<beta> \<beta>4" using r3 s4(1) by (rule rtranclp_trans)
    show "others_same \<beta> \<beta>4" using s2(2) s3(2) s4(2) by (simp add: others_same_def)
  qed (use s3 s4 t in simp_all)
qed

text \<open>While nobody reads, the producer fills the ring and waits.\<close>

lemma solo_fill:
  assumes "bench_inv sz n \<beta>" "bench_size sz" "producer_phase \<beta> 0 = Claiming"
    "threads (queue_state \<beta>) 0 = None" "\<not> stop_flag \<beta>"
    "seg_lo (seg (queue_state \<beta>)) \<le> seg_hi (seg (queue_state \<beta>))"
    "seg_hi (seg (queue_state \<beta>)) \<le> seg_lo (seg (queue_state \<beta>)) + 1048576"
    "seg_lo (seg (queue_state \<beta>)) \<le> 1048576"
  shows "\<exists>\<beta>' t. (solo_step sz n)\<^sup>*\<^sup>* \<beta> \<beta>' \<and> others_same \<beta> \<beta>' \<and> producer_phase \<beta>' 0 = Claiming \<and>
    threads (queue_state \<beta>') 0 = Some (Waiting sz t) \<and> must_wait write_queue (seg (queue_state \<beta>')) t"
  using assms
proof (induction \<beta> rule: measure_induct_rule
    [of "\<lambda>\<beta>. seg_lo (seg (queue_state \<beta>)) + 1048576 - seg_hi (seg (queue_state \<beta>))"])
  case (less \<beta>)
  let ?hi = "seg_hi (seg (queue_state \<beta>))" and ?lo = "seg_lo (seg (queue_state \<beta>))"
  note inv = less.prems(1) and size = less.prems(2)
  have "?hi + 2 * 1048576 < 2 ^ 56" using less.prems(7,8) by simp
  from solo_reserve [OF inv size less.prems(3,4) this] obtain \<beta>1 t where
    s1: "solo_step sz n \<beta> \<beta>1" "others_same \<beta> \<beta>1" "producer_phase \<beta>1 0 = Claiming"
      "threads (queue_state \<beta>1) 0 = Some (Waiting sz t)"
    and t: "ticket_start t = ?hi" "ticket_end t = seg_hi (seg (queue_state \<beta>1))"
      "seg_hi (seg (queue_state \<beta>1)) = ?hi + region_len 1048576 ?hi (unat sz + 18)" .
  have r1: "(solo_step sz n)\<^sup>*\<^sup>* \<beta> \<beta>1" using s1(1) by blast
  have inv1: "bench_inv sz n \<beta>1" by (rule solo_inv [OF inv size r1])
  have longer: "?hi < seg_hi (seg (queue_state \<beta>1))"
    using region_len_ge [OF bench_offsets [OF inv], of "unat sz + 18"] t(3) by simp
  have lo1: "seg_lo (seg (queue_state \<beta>1)) = ?lo" "stop_flag \<beta>1 = stop_flag \<beta>"
    using s1(2) by (simp_all add: others_same_def)
  have again: ?case
    if \<beta>2: "(solo_step sz n)\<^sup>*\<^sup>* \<beta>1 \<beta>2" "others_same \<beta>1 \<beta>2" "producer_phase \<beta>2 0 = Claiming"
      "threads (queue_state \<beta>2) 0 = None" "seg_hi (seg (queue_state \<beta>2)) = seg_hi (seg (queue_state \<beta>1))"
      and room: "seg_hi (seg (queue_state \<beta>1)) \<le> ?lo + 1048576" for \<beta>2
  proof -
    have r2: "(solo_step sz n)\<^sup>*\<^sup>* \<beta> \<beta>2" using r1 \<beta>2(1) by (rule rtranclp_trans)
    have same: "others_same \<beta> \<beta>2" using s1(2) \<beta>2(2) by (rule others_same_trans)
    then have "\<exists>\<beta>' t. (solo_step sz n)\<^sup>*\<^sup>* \<beta>2 \<beta>' \<and> others_same \<beta>2 \<beta>' \<and> producer_phase \<beta>' 0 = Claiming \<and>
      threads (queue_state \<beta>') 0 = Some (Waiting sz t) \<and> must_wait write_queue (seg (queue_state \<beta>')) t"
      using less.prems longer \<beta>2 room
      by (intro less.IH solo_inv [OF inv size r2]) (simp_all add: others_same_def)
    with r2 same show ?thesis by (meson rtranclp_trans others_same_trans)
  qed
  show ?case
  proof (cases "must_wait write_queue (seg (queue_state \<beta>1)) t")
    case True
    with r1 s1 show ?thesis by blast
  next
    case False
    then have room: "seg_hi (seg (queue_state \<beta>1)) \<le> ?lo + 1048576"
      using must_wait_nat [of "seg (queue_state \<beta>1)" t write_queue] t(2) lo1(1) longer less.prems(6) by simp
    from solo_place [OF inv1 s1(3,4) False] obtain \<beta>2 where
      s2: "solo_step sz n \<beta>1 \<beta>2" "others_same \<beta>1 \<beta>2"
        "seg_hi (seg (queue_state \<beta>2)) = seg_hi (seg (queue_state \<beta>1))"
      and fits: "claim_fits 1048576 (ticket_start t) (unat sz) \<Longrightarrow>
        producer_phase \<beta>2 0 = Writing \<and> (\<exists>b. threads (queue_state \<beta>2) 0 = Some (Holding b))"
      and pads: "\<not> claim_fits 1048576 (ticket_start t) (unat sz) \<Longrightarrow>
        producer_phase \<beta>2 0 = Claiming \<and> threads (queue_state \<beta>2) 0 = None" by metis
    have r2: "(solo_step sz n)\<^sup>*\<^sup>* \<beta>1 \<beta>2" using s2(1) by blast
    show ?thesis
    proof (cases "claim_fits 1048576 (ticket_start t) (unat sz)")
      case False
      with pads have "producer_phase \<beta>2 0 = Claiming" "threads (queue_state \<beta>2) 0 = None" by blast+
      from again [OF r2 s2(2) this s2(3) room] show ?thesis .
    next
      case True
      then obtain b where b: "producer_phase \<beta>2 0 = Writing" "threads (queue_state \<beta>2) 0 = Some (Holding b)"
        using fits by blast
      from solo_write [OF solo_inv [OF inv1 size r2] size b] obtain \<beta>3 where
        s3: "(solo_step sz n)\<^sup>*\<^sup>* \<beta>2 \<beta>3" "others_same \<beta>2 \<beta>3" "producer_phase \<beta>3 0 = Checking_Stop"
          "threads (queue_state \<beta>3) 0 = None" "seg_hi (seg (queue_state \<beta>3)) = seg_hi (seg (queue_state \<beta>2))"
        by metis
      have "\<not> stop_flag \<beta>3" using less.prems(5) s1(2) s2(2) s3(2) by (simp add: others_same_def)
      then have "solo_step sz n \<beta>3 (set_phase 0 Claiming \<beta>3)"
        by (rule solo_producer [OF producer_step.loops [OF s3(3)]]) (simp add: s3(3))
      with r2 s3(1) have "(solo_step sz n)\<^sup>*\<^sup>* \<beta>1 (set_phase 0 Claiming \<beta>3)"
        by (meson rtranclp.rtrancl_into_rtrancl rtranclp_trans)
      moreover have "others_same \<beta>1 (set_phase 0 Claiming \<beta>3)"
        using s2(2) s3(2) by (simp add: others_same_def)
      ultimately show ?thesis using again [of "set_phase 0 Claiming \<beta>3"] s2(3) s3(4,5) room by simp
    qed
  qed
qed

section \<open>Runs of the main thread\<close>

lemma only_reader_level:
  assumes "reachable wq G \<sigma>" "open_readers \<sigma> = [r \<mapsto> q]" "reader_at q = seg_hi (seg \<sigma>)"
  shows "seg_lo (seg \<sigma>) = seg_hi (seg \<sigma>)"
proof (rule ccontr)
  have "open_readers \<sigma> r = Some q" using assms(2) by simp
  then have "seg_lo (seg \<sigma>) \<le> seg_hi (seg \<sigma>)"
    using watermark_is_slowest_reader [OF assms(1)] assms(3) by metis
  moreover assume "seg_lo (seg \<sigma>) \<noteq> seg_hi (seg \<sigma>)"
  ultimately have "seg_lo (seg \<sigma>) < seg_hi (seg \<sigma>)" by simp
  then obtain r' q' where "open_readers \<sigma> r' = Some q'" "reader_at q' = seg_lo (seg \<sigma>)"
    using watermark_is_slowest_reader [OF assms(1)] by blast
  then show False using assms(2,3) \<open>seg_lo (seg \<sigma>) < seg_hi (seg \<sigma>)\<close> by (auto split: if_splits)
qed

text \<open>One iteration of the loop, when the next message is there and is the last one.\<close>

lemma solo_read:
  assumes inv: "bench_inv sz n \<beta>" and size: "bench_size sz" and main: "main_phase \<beta> = Measuring (Suc k)"
    and q: "open_readers (queue_state \<beta>) 0 = Some q"
    and sent: "sent (queue_state \<beta>) (reader_at q) = Some (bench_message sz)"
    and last: "seg_hi (seg (queue_state \<beta>)) = reader_at q + (unat sz + 18)"
  obtains \<beta>' q' where "(solo_step sz n)\<^sup>*\<^sup>* \<beta> \<beta>'" "main_phase \<beta>' = Measuring k"
    "producer_phase \<beta>' = producer_phase \<beta>" "stop_flag \<beta>' = stop_flag \<beta>"
    "open_readers (queue_state \<beta>') 0 = Some q'"
    "reader_at q' = seg_hi (seg (queue_state \<beta>))"
    "seg_hi (seg (queue_state \<beta>')) = seg_hi (seg (queue_state \<beta>))"
    "seg_lo (seg (queue_state \<beta>')) = seg_hi (seg (queue_state \<beta>))"
proof -
  let ?\<sigma> = "queue_state \<beta>" and ?q = "q\<lparr>read_message_cnt := read_message_cnt q + 1\<rparr>"
  obtain A where R: "refines write_queue (grid (unat sz + 18)) ?\<sigma> A" using reachable_refines [OF bench_reach [OF inv]] .
  then obtain e where e: "e \<in> set (s_log A)" "e_start e = reader_at q"
    "e_state e = Published_Entry (bench_message sz)"
    using sent unfolding refines_def rel_sent_def by blast
  obtain wr where poll: "poll_once q (seg ?\<sigma>) = Inr (Poll_Return ?q (seg ?\<sigma>) (Some wr))"
    using poll_view [OF R q e] by blast
  let ?\<beta>1 = "\<beta>\<lparr>queue_state := ?\<sigma>\<lparr>seg := seg ?\<sigma>, open_readers := (open_readers ?\<sigma>)(0 \<mapsto> ?q),
    held := (held ?\<sigma>)(0 := Some wr)\<rparr>, main_phase := Copying k\<rparr>"
  have s1: "solo_step sz n \<beta> ?\<beta>1"
    by (rule solo_main) (use main_step.reads [OF main refl q poll, of 1 sz n] in simp)
  have inv1: "bench_inv sz n ?\<beta>1" by (rule solo_inv [OF inv size]) (use s1 in blast)
  let ?\<sigma>1 = "queue_state ?\<beta>1"
  have q1: "open_readers ?\<sigma>1 0 = Some ?q" "held ?\<sigma>1 0 = Some wr" by simp_all
  have "queue_ok sz ?\<sigma>1" using inv1 unfolding bench_inv_def by blast
  note held = bench_held [OF this q1]
  let ?buf = "bench_message sz @ drop (length (bench_message sz)) (read_message_buffer ?\<beta>1)"
  let ?\<beta>2 = "?\<beta>1\<lparr>read_message_buffer := ?buf, main_phase := Tallying k\<rparr>"
  have s2: "solo_step sz n ?\<beta>1 ?\<beta>2"
    by (rule solo_main [OF main_step.copies [OF _ q1(2) held(3)]]) simp
  let ?\<beta>3 = "?\<beta>2\<lparr>consumed := consumed ?\<beta>2 + 1, main_phase := Destroying k\<rparr>"
  have s3: "solo_step sz n ?\<beta>2 ?\<beta>3" by (rule solo_main [OF main_step.tallies]) simp
  obtain A1 where R1: "refines write_queue (grid (unat sz + 18)) ?\<sigma>1 A1"
    using reachable_refines [OF bench_reach [OF inv1]] .
  from held_facts [OF R1 q1] obtain e1 bs where e1: "e1 \<in> set (s_log A1)" "e_start e1 = reader_at ?q"
    "e_state e1 = Published_Entry bs" "wrapper_data wr = e_start e1 mod q_cap write_queue"
    "get_as_view (seg ?\<sigma>1) wr = bs" .
  have inv1': "spec_inv (q_cap write_queue) A1" using R1 by (simp add: refines_def)
  have "read_bytes (ring (seg ?\<sigma>1)) (e_start e1 mod q_cap write_queue + 18) (e_len e1 - 18) = bs"
    using live_at_reader(2) [OF R1 q1(1) e1(1,2)] e1(3) by (simp add: live_ok_def Let_def)
  then have "length bs = e_len e1 - 18" by (metis length_read_bytes)
  moreover have "length bs = unat sz" using held(1) e1(5) by (metis bench_message_def length_replicate)
  ultimately have len: "e_len e1 = unat sz + 18" using spec_log_facts(1) [OF inv1' e1(1)] by simp
  from refines_release [OF R1 q1(1) e1(1,2)] e1(3) obtain q' s' where
    rel: "release_buffer ?q (seg ?\<sigma>1) (e_start e1 mod q_cap write_queue) = Inr (q', s')"
    and R': "refines write_queue (grid (unat sz + 18)) (?\<sigma>1\<lparr>seg := s', open_readers := (open_readers ?\<sigma>1)(0 \<mapsto> q'),
      held := (held ?\<sigma>1)(0 := None),
      received := (received ?\<sigma>1)(0 := received ?\<sigma>1 0 @ payload_of (e_state e1))\<rparr>) (advanced 0 e1 A1)"
    by fastforce
  let ?\<sigma>' = "?\<sigma>1\<lparr>seg := s', open_readers := (open_readers ?\<sigma>1)(0 \<mapsto> q'), held := (held ?\<sigma>1)(0 := None),
    received := (received ?\<sigma>1)(0 := received ?\<sigma>1 0 @ [get_as_view (seg ?\<sigma>1) wr])\<rparr>"
  let ?\<beta>' = "?\<beta>3\<lparr>queue_state := ?\<sigma>', main_phase := Measuring k\<rparr>"
  have "wrapper_destruct ?q (seg ?\<sigma>1) wr = Inr (q', s')"
    using rel e1(4) poll_not_released [OF poll] by (simp add: wrapper_destruct_def wrapper_release_def)
  then have s4: "solo_step sz n ?\<beta>3 ?\<beta>'"
    by (intro solo_main main_step.destroys) (simp_all add: q1)
  have run: "(solo_step sz n)\<^sup>*\<^sup>* \<beta> ?\<beta>'"
    using s1 s2 s3 s4 by (meson r_into_rtranclp rtranclp.rtrancl_into_rtrancl)
  have at': "reader_at q' = reader_at q + (unat sz + 18)"
    using reader_facts(1) [OF R', of 0 q'] e1(2) len by (simp add: e_end_def reader_at_def)
  have hi': "seg_hi s' = seg_hi (seg ?\<sigma>)"
    using R1 R' by (simp add: refines_def rel_offsets_def)
  have "reader_ok (main_phase ?\<beta>') (queue_state ?\<beta>')"
    using solo_inv [OF inv size run] unfolding bench_inv_def by blast
  then have "\<exists>x. open_readers ?\<sigma>' = [0 \<mapsto> x]" by (simp add: reader_ok_def reader_open_def)
  then obtain x where x: "open_readers ?\<sigma>' = [0 \<mapsto> x]" ..
  have "x = q'" using fun_cong [OF x, of 0] by simp
  have "reachable write_queue (grid (unat sz + 18)) ?\<sigma>'"
    using bench_reach [OF solo_inv [OF inv size run]] by simp
  from only_reader_level [OF this x] have lo': "seg_lo s' = seg_hi (seg ?\<sigma>)"
    using at' last hi' \<open>x = q'\<close> by simp
  show ?thesis by (rule that [OF run]) (use at' hi' lo' last in simp_all)
qed

text \<open>From the start to the first iteration: both threads meet at the barrier.\<close>

definition bench_start :: "u64 \<Rightarrow> Bench" where
  "bench_start sz =
     \<lparr>queue_state = \<lparr>seg = set_writers 1 (init_new_file write_queue), open_readers = Map.empty,
        held = Map.empty, threads = Map.empty, received = (\<lambda>_. []), joined = (\<lambda>_. 0), sent = Map.empty,
        dropped = {}\<rparr>,
      main_phase = Opening_Reader, producer_phase = (\<lambda>_. Preparing), arrived = 0, start_flag = False,
      stop_flag = False, produced = 0, consumed = 0, read_message_buffer = replicate (unat sz) 0,
      crashed = None\<rparr>"

lemma bench_start_init: "bench_init sz (bench_start sz)"
  unfolding bench_init_def
proof (intro conjI exI)
  let ?\<sigma> = "(queue_state (bench_start sz))\<lparr>seg := init_new_file write_queue\<rparr>"
  show "sys_init write_queue ?\<sigma>" by (simp add: sys_init_def bench_start_def)
  show "queue_state (bench_start sz) = ?\<sigma>\<lparr>seg := set_writers (writers_of (seg ?\<sigma>) + 1) (seg ?\<sigma>)\<rparr>"
    by (simp add: bench_start_def init_new_file_def writers_of_def)
qed (simp_all add: bench_start_def)

lemma solo_start:
  obtains \<beta> q where "(solo_step sz n)\<^sup>*\<^sup>* (bench_start sz) \<beta>" "main_phase \<beta> = Measuring n"
    "producer_phase \<beta> 0 = Checking_Stop" "\<not> stop_flag \<beta>"
    "seg_hi (seg (queue_state \<beta>)) = 0" "seg_lo (seg (queue_state \<beta>)) = 0"
    "open_readers (queue_state \<beta>) 0 = Some q" "reader_at q = 0"
proof -
  let ?\<beta>0 = "bench_start sz"
  let ?\<sigma>0 = "queue_state ?\<beta>0"
  obtain s' wr where join: "modify_readers True (seg ?\<sigma>0) = (s', wr)"
    by (cases "modify_readers True (seg ?\<sigma>0)")
  let ?q = "joined_reader write_queue (IpcQueue_members (bench_params False)) wr"
  let ?\<beta>1 = "?\<beta>0\<lparr>queue_state := ?\<sigma>0\<lparr>seg := s', open_readers := (open_readers ?\<sigma>0)(0 \<mapsto> ?q),
      received := (received ?\<sigma>0)(0 := []), joined := (joined ?\<sigma>0)(0 := seg_hi (seg ?\<sigma>0))\<rparr>,
    main_phase := Arriving\<rparr>"
  let ?\<beta>2 = "?\<beta>1\<lparr>arrived := 1, main_phase := Main_At_Barrier\<rparr>"
  let ?\<beta>3 = "set_phase 0 At_Barrier (?\<beta>2\<lparr>arrived := 2\<rparr>)"
  let ?\<beta>4 = "?\<beta>3\<lparr>main_phase := Starting\<rparr>"
  let ?\<beta>5 = "set_phase 0 Awaiting_Start ?\<beta>4"
  let ?\<beta>6 = "?\<beta>5\<lparr>start_flag := True, main_phase := Measuring n\<rparr>"
  let ?\<beta>7 = "set_phase 0 Checking_Stop ?\<beta>6"
  have hi0: "seg_hi (seg ?\<sigma>0) = 0" "seg_lo (seg ?\<sigma>0) = 0"
    by (simp_all add: bench_start_def init_new_file_def seg_hi_def seg_lo_def unwrap_def
        packed_of_def read_offset_of_def set_writers_def)
  let ?p = "return_add_reader (unwrap (packed_of (seg ?\<sigma>0)))"
  have p: "s' = set_packed (fst ?p) (seg ?\<sigma>0)" "wr = snd ?p"
    using join by (simp_all add: modify_readers_def case_prod_beta)
  have "unat (write_offset (snd ?p)) = 0" using hi0(1) by (simp add: return_add_reader_def seg_hi_def)
  then have s': "seg_hi s' = 0" "seg_lo s' = 0" "unat (write_offset wr) = 0"
    using hi0 by (simp_all add: p seg_hi_def packed_frames)
  have "solo_step sz n ?\<beta>0 ?\<beta>1"
    by (rule solo_main [OF main_step.open_reader [OF _ refl join]]) (simp add: bench_start_def)
  moreover have "solo_step sz n ?\<beta>1 ?\<beta>2"
    by (rule solo_main) (use main_step.main_arrives [of ?\<beta>1 1 sz n] in \<open>simp add: bench_start_def\<close>)
  moreover have "solo_step sz n ?\<beta>2 ?\<beta>3"
    by (rule solo_producer) (use producer_step.arrives [of ?\<beta>2 0 1 sz] in \<open>simp_all add: bench_start_def numeral_2_eq_2\<close>)
  moreover have "solo_step sz n ?\<beta>3 ?\<beta>4"
    by (rule solo_main [OF main_step.main_passes]) (simp_all add: set_phase_def)
  moreover have "solo_step sz n ?\<beta>4 ?\<beta>5"
    by (rule solo_producer [OF producer_step.passes]) (simp_all add: set_phase_def)
  moreover have "solo_step sz n ?\<beta>5 ?\<beta>6"
    by (rule solo_main [OF main_step.starts]) (simp add: set_phase_def)
  moreover have "solo_step sz n ?\<beta>6 ?\<beta>7"
    by (rule solo_producer [OF producer_step.sees_start]) (simp_all add: set_phase_def)
  ultimately have run: "(solo_step sz n)\<^sup>*\<^sup>* ?\<beta>0 ?\<beta>7"
    by (meson r_into_rtranclp rtranclp.rtrancl_into_rtrancl)
  have at: "reader_at ?q = 0"
    using s'(3) by (simp add: joined_reader_def reader_at_def)
  show ?thesis
    by (rule that [OF run _ _ _ _ _ _ at]) (use s' in \<open>simp_all add: set_phase_def bench_start_def\<close>)
qed

text \<open>After \<open>k\<close> iterations in which each message was read before the next was claimed.\<close>

lemma solo_iterate:
  assumes size: "bench_size sz" and fits: "n * (unat sz + 18) + 18 \<le> 1048576" and "k \<le> n"
  shows "\<exists>\<beta> q. (solo_step sz n)\<^sup>*\<^sup>* (bench_start sz) \<beta> \<and> main_phase \<beta> = Measuring (n - k) \<and>
    producer_phase \<beta> 0 = Checking_Stop \<and> \<not> stop_flag \<beta> \<and>
    seg_hi (seg (queue_state \<beta>)) = k * (unat sz + 18) \<and> seg_lo (seg (queue_state \<beta>)) = k * (unat sz + 18) \<and>
    open_readers (queue_state \<beta>) 0 = Some q \<and> reader_at q = k * (unat sz + 18)"
  using assms(3)
proof (induction k)
  case 0
  show ?case by (rule solo_start [of sz n]) auto
next
  case (Suc k)
  let ?L = "unat sz + 18"
  from Suc obtain \<beta> q where r: "(solo_step sz n)\<^sup>*\<^sup>* (bench_start sz) \<beta>" "main_phase \<beta> = Measuring (n - k)"
    "producer_phase \<beta> 0 = Checking_Stop" "\<not> stop_flag \<beta>"
    and off: "seg_hi (seg (queue_state \<beta>)) = k * ?L" "seg_lo (seg (queue_state \<beta>)) = k * ?L"
    and q: "open_readers (queue_state \<beta>) 0 = Some q" "reader_at q = k * ?L" by auto
  have inv: "bench_inv sz n \<beta>" by (rule solo_inv [OF bench_init_inv [OF bench_start_init] size r(1)])
  have "Suc k * ?L + 18 \<le> 1048576"
    using fits Suc.prems by (meson add_le_mono1 mult_le_mono1 order_trans)
  then have room: "seg_hi (seg (queue_state \<beta>)) + unat sz + 36 \<le> 1048576" using off(1) by simp
  have level: "seg_lo (seg (queue_state \<beta>)) = seg_hi (seg (queue_state \<beta>))" using off by simp
  from solo_produce [OF inv size r(3,4) level room] obtain \<beta>1 where
    s1: "(solo_step sz n)\<^sup>*\<^sup>* \<beta> \<beta>1" "others_same \<beta> \<beta>1" "producer_phase \<beta>1 0 = Checking_Stop"
    and hi1: "seg_hi (seg (queue_state \<beta>1)) = k * ?L + ?L"
    and sent1: "sent (queue_state \<beta>1) (reader_at q) = Some (bench_message sz)"
    unfolding off q(2) by (metis add.assoc)
  have r1: "(solo_step sz n)\<^sup>*\<^sup>* (bench_start sz) \<beta>1" using r(1) s1(1) by (rule rtranclp_trans)
  have inv1: "bench_inv sz n \<beta>1" by (rule solo_inv [OF inv size s1(1)])
  have main1: "main_phase \<beta>1 = Measuring (Suc (n - Suc k))"
    using s1(2) r(2) Suc.prems by (simp add: others_same_def Suc_diff_Suc)
  have q1: "open_readers (queue_state \<beta>1) 0 = Some q" using s1(2) q(1) by (simp add: others_same_def)
  have last: "seg_hi (seg (queue_state \<beta>1)) = reader_at q + ?L" using hi1 q(2) by simp
  from solo_read [OF inv1 size main1 q1 sent1 last] obtain \<beta>2 q2 where
    s2: "(solo_step sz n)\<^sup>*\<^sup>* \<beta>1 \<beta>2" "main_phase \<beta>2 = Measuring (n - Suc k)"
      "producer_phase \<beta>2 = producer_phase \<beta>1" "stop_flag \<beta>2 = stop_flag \<beta>1"
      "open_readers (queue_state \<beta>2) 0 = Some q2" "reader_at q2 = k * ?L + ?L"
      "seg_hi (seg (queue_state \<beta>2)) = k * ?L + ?L" "seg_lo (seg (queue_state \<beta>2)) = k * ?L + ?L"
    unfolding hi1 by metis
  have "(solo_step sz n)\<^sup>*\<^sup>* (bench_start sz) \<beta>2" using r1 s2(1) by (rule rtranclp_trans)
  with s2 s1(2,3) r(4) show ?case by (auto simp: others_same_def algebra_simps)
qed

text \<open>After the last iteration the only producer may see \<open>stop\<close> before it claims again.\<close>

lemma solo_stop:
  assumes "main_phase \<beta> = Measuring 0"
  shows "solo_step sz n \<beta> (\<beta>\<lparr>stop_flag := True, main_phase := Joining\<rparr>)"
  by (rule solo_main [OF main_step.stops [OF assms]])

lemma solo_reaches:
  "(solo_step sz n)\<^sup>*\<^sup>* (bench_start sz) \<beta> \<Longrightarrow> bench_reachable 1 sz n \<beta>"
  using bench_start_init unfolding bench_reachable_def by blast

lemma benchmark_can_report:
  assumes "bench_size sz" "n * (unat sz + 18) + 18 \<le> 1048576"
  shows "\<exists>\<beta>. bench_reachable 1 sz n \<beta> \<and> main_phase \<beta> = Reported"
proof -
  obtain \<beta> where r: "(solo_step sz n)\<^sup>*\<^sup>* (bench_start sz) \<beta>" "main_phase \<beta> = Measuring 0"
    "producer_phase \<beta> 0 = Checking_Stop"
    using solo_iterate [OF assms order_refl] by auto
  let ?\<beta>1 = "\<beta>\<lparr>stop_flag := True, main_phase := Joining\<rparr>"
  let ?\<beta>2 = "set_phase 0 Exited ?\<beta>1"
  let ?\<beta>3 = "?\<beta>2\<lparr>main_phase := Reported\<rparr>"
  have "solo_step sz n ?\<beta>1 ?\<beta>2"
    by (rule solo_producer [OF producer_step.sees_stop]) (use r(3) in simp_all)
  moreover have "solo_step sz n ?\<beta>2 ?\<beta>3" by (rule solo_main [OF main_step.reports]) simp_all
  ultimately have "(solo_step sz n)\<^sup>*\<^sup>* (bench_start sz) ?\<beta>3"
    using r(1) solo_stop [OF r(2)] by (meson rtranclp.rtrancl_into_rtrancl)
  from solo_reaches [OF this] show ?thesis by (intro exI [of _ ?\<beta>3]) simp
qed

text \<open>The first configuration of the benchmark: one producer, 64 bytes, 1024 iterations.\<close>

theorem benchmark_measures_witness:
  "\<exists>\<beta>. bench_reachable 1 64 1024 \<beta> \<and> main_phase \<beta> = Reported \<and> crashed \<beta> = None \<and> consumed \<beta> = 1024 \<and>
     received (queue_state \<beta>) 0 = replicate 1024 (bench_message 64) \<and>
     read_message_buffer \<beta> = bench_message 64"
proof -
  have size: "bench_size 64" by (simp add: bench_size_nat)
  then obtain \<beta> where \<beta>: "bench_reachable 1 64 1024 \<beta>" "main_phase \<beta> = Reported"
    using benchmark_can_report [of 64 1024] by auto
  have "of_nat 1024 = (1024 :: u64)" by simp
  with benchmark_measures [OF \<beta>(1) size] \<beta> show ?thesis by (intro exI [of _ \<beta>]) simp
qed

section \<open>The benchmark may not end\<close>

text \<open>
  The main thread waits for its producers, and one of them waits for space that only the main
  thread would make: its region ends more than the size of the ring behind the only reader, which is
  the main thread's.
\<close>

definition benchmark_stuck :: "u64 \<Rightarrow> Bench \<Rightarrow> bool" where
  "benchmark_stuck sz \<beta> \<longleftrightarrow> main_phase \<beta> = Joining \<and> producer_phase \<beta> 0 = Claiming \<and>
     (\<exists>t q. threads (queue_state \<beta>) 0 = Some (Waiting sz t) \<and>
        must_wait write_queue (seg (queue_state \<beta>)) t \<and>
        open_readers (queue_state \<beta>) = [0 \<mapsto> q] \<and> reader_at q + q_cap write_queue < ticket_end t)"

text \<open>No thread has a step: the producer only finds again that it must wait.\<close>

lemma stuck_step:
  assumes "benchmark_stuck sz \<beta>" shows "\<not> bench_step 1 sz n \<beta> \<beta>'"
proof
  obtain t where b: "main_phase \<beta> = Joining" "producer_phase \<beta> 0 = Claiming"
    "threads (queue_state \<beta>) 0 = Some (Waiting sz t)" "must_wait write_queue (seg (queue_state \<beta>)) t"
    using assms unfolding benchmark_stuck_def by blast
  assume "bench_step 1 sz n \<beta> \<beta>'"
  then consider "main_step 1 sz n \<beta> \<beta>'" | "producer_step 1 sz 0 \<beta> \<beta>'"
    unfolding bench_step_def by auto
  then show False
  proof cases
    case 1
    then show ?thesis using b by cases auto
  next
    case 2
    then show ?thesis using b by cases auto
  qed
qed

lemma waiting_ticket_end:
  assumes "reachable wq G \<sigma>" "threads \<sigma> w = Some (Waiting sz t)"
  shows "seg_lo (seg \<sigma>) \<le> ticket_end t"
proof -
  obtain A where R: "refines wq G \<sigma> A" and inv: "spec_inv (q_cap wq) A"
    using reachable_refines [OF assms(1)] .
  then have th: "rel_threads wq \<sigma> A" and lo: "seg_lo (seg \<sigma>) = s_lo A"
    by (simp_all add: refines_def rel_offsets_def)
  obtain x where "rel_thread wq A (Some (Waiting sz t)) (Some x)"
    using rel_threads_owner [OF th assms(2)] by blast
  then obtain e where "e \<in> set (s_log A)" "\<not> final_state (e_state e)" "ticket_end t = e_end e" by auto
  with nonfinal_ahead(1) [OF inv, of e] lo show ?thesis by (simp add: e_end_def)
qed

lemma solo_hang:
  assumes "bench_size sz" "n * (unat sz + 18) + 18 \<le> 1048576"
  shows "\<exists>\<beta>. bench_reachable 1 sz n \<beta> \<and> benchmark_stuck sz \<beta>"
proof -
  obtain \<beta> q where r: "(solo_step sz n)\<^sup>*\<^sup>* (bench_start sz) \<beta>" "main_phase \<beta> = Measuring 0"
    "producer_phase \<beta> 0 = Checking_Stop" "\<not> stop_flag \<beta>"
    and off: "seg_hi (seg (queue_state \<beta>)) = n * (unat sz + 18)"
      "seg_lo (seg (queue_state \<beta>)) = n * (unat sz + 18)"
    and q: "open_readers (queue_state \<beta>) 0 = Some q" "reader_at q = n * (unat sz + 18)"
    using solo_iterate [OF assms order_refl] by auto
  have inv: "bench_inv sz n \<beta>" by (rule solo_inv [OF bench_init_inv [OF bench_start_init] assms(1) r(1)])
  let ?\<beta>1 = "set_phase 0 Claiming \<beta>"
  have s1: "(solo_step sz n)\<^sup>*\<^sup>* \<beta> ?\<beta>1"
    by (rule r_into_rtranclp) (rule solo_producer [OF producer_step.loops [OF r(3,4)]], simp add: r(3))
  have "thread_ok sz Checking_Stop (threads (queue_state \<beta>) 0)"
    using inv r(3) unfolding bench_inv_def producers_ok_def by metis
  then have "threads (queue_state ?\<beta>1) 0 = None" by simp
  from solo_fill [OF solo_inv [OF inv assms(1) s1] assms(1) _ this] off r(4) assms(2)
  obtain \<beta>2 t where s2: "(solo_step sz n)\<^sup>*\<^sup>* ?\<beta>1 \<beta>2" "others_same ?\<beta>1 \<beta>2" "producer_phase \<beta>2 0 = Claiming"
    "threads (queue_state \<beta>2) 0 = Some (Waiting sz t)" "must_wait write_queue (seg (queue_state \<beta>2)) t"
    by auto
  let ?\<beta>3 = "\<beta>2\<lparr>stop_flag := True, main_phase := Joining\<rparr>"
  have "main_phase \<beta>2 = Measuring 0" using s2(2) r(2) by (simp add: others_same_def)
  from solo_stop [OF this] r(1) s1 s2(1) have run: "(solo_step sz n)\<^sup>*\<^sup>* (bench_start sz) ?\<beta>3"
    by (meson rtranclp.rtrancl_into_rtrancl rtranclp_trans)
  have inv2: "bench_inv sz n \<beta>2" by (rule solo_inv [OF solo_inv [OF inv assms(1) s1] assms(1) s2(1)])
  have "reader_ok (main_phase \<beta>) (queue_state \<beta>)" using inv by (simp add: bench_inv_def)
  with r(2) q(1) have "open_readers (queue_state \<beta>) = [0 \<mapsto> q]" by (auto simp: reader_ok_def reader_open_def)
  moreover have "reader_at q + q_cap write_queue < ticket_end t"
    using s2(2,5) q(2) off(2) must_wait_nat [OF waiting_ticket_end [OF bench_reach [OF inv2] s2(4)], of write_queue]
    by (simp add: others_same_def)
  ultimately have "benchmark_stuck sz ?\<beta>3" using s2(2-5) by (auto simp: benchmark_stuck_def others_same_def)
  with solo_reaches [OF run] show ?thesis by blast
qed

text \<open>
  C28. The benchmark may finish, and it may hang. With one producer there is a run that ends with the
  report. And there is one that does not: the producer claims once more before it sees \<open>stop\<close>, on a
  ring that is full, so that it must wait; the main thread, whose queue is the only reader and stands
  more than the size of the ring before the end of what the producer has reserved, has read its last
  message and waits for the producer. From there no thread has a step that changes anything, whatever
  the bounds of the model are.
\<close>

theorem benchmark_may_hang:
  assumes "bench_size sz" "n * (unat sz + 18) + 18 \<le> 1048576"
  shows "(\<exists>\<beta>. bench_reachable 1 sz n \<beta> \<and> main_phase \<beta> = Reported) \<and>
    (\<exists>\<beta> t q. bench_reachable 1 sz n \<beta> \<and> main_phase \<beta> = Joining \<and> producer_phase \<beta> 0 = Claiming \<and>
       threads (queue_state \<beta>) 0 = Some (Waiting sz t) \<and>
       must_wait write_queue (seg (queue_state \<beta>)) t \<and>
       open_readers (queue_state \<beta>) = [0 \<mapsto> q] \<and> reader_at q + q_cap write_queue < ticket_end t \<and>
       (\<forall>\<beta>'. \<not> bench_step 1 sz n \<beta> \<beta>'))"
  using benchmark_can_report [OF assms] solo_hang [OF assms] stuck_step [of sz]
  unfolding benchmark_stuck_def by meson

text \<open>The same configuration.\<close>

theorem benchmark_may_hang_witness:
  "\<exists>\<beta> t. bench_reachable 1 64 1024 \<beta> \<and> main_phase \<beta> = Joining \<and>
     threads (queue_state \<beta>) 0 = Some (Waiting 64 t) \<and> (\<forall>\<beta>'. \<not> bench_step 1 64 1024 \<beta> \<beta>')"
proof -
  have "bench_size 64" "1024 * (unat (64 :: u64) + 18) + 18 \<le> 1048576" by (simp_all add: bench_size_nat)
  from benchmark_may_hang [OF this] show ?thesis by blast
qed

end
