(* ===== verification/Message_Flow.thy ===== *)
theory Message_Flow
  imports Ledger Publication_Runs
begin

text \<open>
  From a publisher to a handler. What a publication does is a run of the queue system, and so is a
  poll of a subscription; put together, what is claimed, written and committed through a publication
  reaches the handlers of the subscribers, in order, and in particular an order message reaches the
  ledger, which drops it.
\<close>

section \<open>What a reader has still to read\<close>

definition unread :: "Sys \<Rightarrow> nat \<Rightarrow> IpcQueue \<Rightarrow> u8 list list" where
  "unread \<sigma> r q = listed (\<lambda>x. joined \<sigma> r \<le> x \<and> reader_at q \<le> x) (sent \<sigma>)"

text \<open>The messages since a reader joined are those it has received and those it has not read.\<close>

lemma received_and_unread:
  assumes "reachable wq G \<sigma>" "open_readers \<sigma> r = Some q"
  shows "received \<sigma> r @ unread \<sigma> r q =
    map (the \<circ> sent \<sigma>) (sorted_list_of_set {x \<in> dom (sent \<sigma>). joined \<sigma> r \<le> x})"
proof -
  obtain A where "refines wq G \<sigma> A" using reachable_refines [OF assms(1)] .
  then have se: "rel_sent \<sigma> A" by (simp add: refines_def)
  then have "dom (sent \<sigma>) \<subseteq> e_start ` set (s_log A)" by (auto simp: rel_sent_def)
  then have "finite (dom (sent \<sigma>))" by (rule finite_subset) simp
  then have "finite {x \<in> dom (sent \<sigma>). joined \<sigma> r \<le> x}" by simp
  from sorted_list_of_set_split [OF this, of "reader_at q"] delivered [OF assms] show ?thesis
    by (simp add: unread_def listed_def conj_assoc flip: map_append)
qed

text \<open>Nobody is writing and nothing was aborted: every message has been committed.\<close>

definition at_leisure :: "IpcQueue \<Rightarrow> nat set \<Rightarrow> nat \<Rightarrow> Sys \<Rightarrow> IpcQueue \<Rightarrow> bool" where
  "at_leisure wq G r \<sigma> q \<longleftrightarrow> reachable wq G \<sigma> \<and> open_readers \<sigma> r = Some q \<and> held \<sigma> r = None \<and>
     threads \<sigma> = Map.empty \<and> dropped \<sigma> = {}"

lemma all_final:
  assumes R: "refines wq G \<sigma> A" and idle: "threads \<sigma> = Map.empty" and e: "e \<in> set (s_log A)"
  shows "final_state (e_state e)"
proof -
  have th: "rel_threads wq \<sigma> A" and inv: "spec_inv (q_cap wq) A" using R by (simp_all add: refines_def)
  have "s_owner A w = None" for w
    using rel_threadsD [OF th, of w] idle by (simp add: rel_thread_None)
  with inv e show ?thesis unfolding spec_inv_def spec_owner_ok_def by (metis option.distinct(1))
qed

lemma lag_bounded:
  assumes R: "refines wq G \<sigma> A" and idle: "threads \<sigma> = Map.empty" and q: "open_readers \<sigma> r = Some q"
  shows "seg_hi (seg \<sigma>) - reader_at q \<le> q_cap wq"
proof -
  have inv: "spec_inv (q_cap wq) A" and hi: "seg_hi (seg \<sigma>) = s_hi A"
    using R by (simp_all add: refines_def rel_offsets_def)
  have ch: "chain 0 (s_log A) (s_hi A)" by (rule spec_chain [OF inv])
  have "s_hi A \<le> s_lo A + q_cap wq"
  proof (cases "s_log A" rule: rev_cases)
    case Nil
    with ch show ?thesis by simp
  next
    case (snoc L e)
    with ch have "e_end e = s_hi A" by (auto simp: chain_append)
    moreover have "final_state (e_state e)" using all_final [OF R idle] snoc by simp
    then have "e_state e \<noteq> Reserved_Entry" by auto
    ultimately show ?thesis using spec_log_facts(4) [OF inv, of e] snoc by simp
  qed
  with hi reader_facts(7) [OF R q] show ?thesis by simp
qed

lemma poll_once_nothing: "poll_once q s = Inr (Poll_Return q' s' None) \<Longrightarrow> q' = q \<and> s' = s"
  by (auto simp: poll_once_def Let_def bindE_eq_Inr split: option.splits CommitFlag.splits if_splits)

lemma poll_buffer_stops:
  "poll_buffer n q s = Some (Inr (q', s', None)) \<Longrightarrow> poll_once q' s' = Inr (Poll_Return q' s' None)"
proof (induction n arbitrary: q s)
  case (Suc n)
  show ?case
  proof (cases "poll_once q s")
    case (Inr p)
    with Suc show ?thesis by (cases p) (auto dest: poll_once_nothing)
  qed (use Suc.prems in simp)
qed simp

text \<open>A reader that finds nothing while nobody is writing has read everything.\<close>

lemma nothing_left:
  assumes L: "at_leisure wq G r \<sigma> q" and poll: "poll_once q (seg \<sigma>) = Inr (Poll_Return q' s' None)"
  shows "unread \<sigma> r q = []"
proof -
  have q: "open_readers \<sigma> r = Some q" and idle: "threads \<sigma> = Map.empty"
    and reach: "reachable wq G \<sigma>" using L by (simp_all add: at_leisure_def)
  obtain A where R: "refines wq G \<sigma> A" using reachable_refines [OF reach] .
  then have inv: "spec_inv (q_cap wq) A" and se: "rel_sent \<sigma> A" by (simp_all add: refines_def)
  have "\<not> (\<exists>e\<in>set (s_log A). e_start e = reader_at q)"
    using reader_finds [OF R q _ _ all_final [OF R idle]] poll by fastforce
  then have at_end: "reader_at q = s_hi A" using reader_facts(6) [OF R q] by (auto simp: boundary_def)
  have "x < reader_at q" if "x \<in> dom (sent \<sigma>)" for x
  proof -
    from that se obtain e where "e \<in> set (s_log A)" "e_start e = x" by (auto simp: rel_sent_def)
    with spec_log_facts(1,3) [OF inv, of e] at_end show ?thesis by (simp add: e_end_def)
  qed
  then have none: "{x \<in> dom (sent \<sigma>). joined \<sigma> r \<le> x \<and> reader_at q \<le> x} = {}" by (auto simp: not_le)
  show ?thesis unfolding unread_def listed_def none by simp
qed

section \<open>Polling again and again\<close>

fun subscription_polls ::
    "nat \<Rightarrow> nat \<Rightarrow> 'h callback \<Rightarrow> 'h \<Rightarrow> IpcQueue \<Rightarrow> Segment \<Rightarrow> (error + ('h \<times> IpcQueue \<times> Segment)) option" where
  "subscription_polls 0 fuel handler h q s = Some (Inr (h, q, s))"
| "subscription_polls (Suc k) fuel handler h q s =
     (case subscription_poll fuel handler h q s of
        None \<Rightarrow> None
      | Some (Inl e) \<Rightarrow> Some (Inl e)
      | Some (Inr (h', q', s', outcome)) \<Rightarrow> subscription_polls k fuel handler h' q' s')"

text \<open>While nobody is writing a poll hands the handler the first message that is left.\<close>

lemma poll_takes_first:
  assumes L: "at_leisure wq G r \<sigma> q" and fuel: "q_cap wq < 18 * n"
  obtains q' \<sigma>' outcome where
    "subscription_poll n handler h q (seg \<sigma>) =
       Some (Inr (if unread \<sigma> r q = [] then h else fst (handler h (hd (unread \<sigma> r q))), q', seg \<sigma>', outcome))"
    "at_leisure wq G r \<sigma>' q'" "unread \<sigma>' r q' = tl (unread \<sigma> r q)"
    "received \<sigma>' r = received \<sigma> r @ take 1 (unread \<sigma> r q)" "reader_moved r \<sigma> \<sigma>'"
proof -
  have q: "open_readers \<sigma> r = Some q" "held \<sigma> r = None" and idle: "threads \<sigma> = Map.empty"
    and reach: "reachable wq G \<sigma>" and safe: "no_lapped_abort wq \<sigma>"
    using L by (simp_all add: at_leisure_def no_lapped_abort_def)
  obtain A where R: "refines wq G \<sigma> A" using reachable_refines [OF reach] .
  have "seg_hi (seg \<sigma>) - reader_at q < 18 * n" using lag_bounded [OF R idle q(1)] fuel by linarith
  from subscription_run [OF reach q safe this, of handler h] obtain h' q' outcome \<sigma>' where
    poll: "subscription_poll n handler h q (seg \<sigma>) = Some (Inr (h', q', seg \<sigma>', outcome))"
    and new: "reachable wq G \<sigma>'" "open_readers \<sigma>' r = Some q'" "held \<sigma>' r = None"
    and moved: "reader_moved r \<sigma> \<sigma>'"
    and what: "case outcome of
       No_Data \<Rightarrow> h' = h \<and> received \<sigma>' r = received \<sigma> r
     | Handled bytes code \<Rightarrow> handler h bytes = (h', Some code) \<and> received \<sigma>' r = received \<sigma> r @ [bytes]
     | Threw bytes \<Rightarrow> handler h bytes = (h', None) \<and> received \<sigma>' r = received \<sigma> r @ [bytes]"
    by blast
  have L': "at_leisure wq G r \<sigma>' q'" using new moved L by (simp add: at_leisure_def reader_moved_def)
  have all: "received \<sigma>' r @ unread \<sigma>' r q' = received \<sigma> r @ unread \<sigma> r q"
    using received_and_unread [OF new(1,2)] received_and_unread [OF reach q(1)] moved
    by (simp add: reader_moved_def)
  have one: "h' = (if unread \<sigma> r q = [] then h else fst (handler h (hd (unread \<sigma> r q)))) \<and>
      unread \<sigma>' r q' = tl (unread \<sigma> r q) \<and> received \<sigma>' r = received \<sigma> r @ take 1 (unread \<sigma> r q)"
  proof (cases "outcome = No_Data")
    case True
    with poll have "poll_buffer n q (seg \<sigma>) = Some (Inr (q', seg \<sigma>', None))"
      by (auto simp: subscription_poll_def Let_def bindE_eq_Inr split: option.splits sum.splits prod.splits)
    then have "unread \<sigma>' r q' = []" by (intro nothing_left [OF L' poll_buffer_stops])
    with all what True show ?thesis by simp
  next
    case False
    with what obtain bytes where "fst (handler h bytes) = h'" "received \<sigma>' r = received \<sigma> r @ [bytes]"
      by (cases outcome; fastforce)
    moreover from this all have "unread \<sigma> r q = bytes # unread \<sigma>' r q'" by simp
    ultimately show ?thesis by auto
  qed
  show ?thesis
    by (rule that [OF _ L' conjunct1 [OF conjunct2 [OF one]] conjunct2 [OF conjunct2 [OF one]] moved])
      (use poll one in simp)
qed

lemma polls_drain:
  assumes "at_leisure wq G r \<sigma> q" "q_cap wq < 18 * n"
  shows "\<exists>q' \<sigma>'. subscription_polls (length (unread \<sigma> r q)) n handler h q (seg \<sigma>) =
      Some (Inr (foldl (\<lambda>h bs. fst (handler h bs)) h (unread \<sigma> r q), q', seg \<sigma>')) \<and>
    at_leisure wq G r \<sigma>' q' \<and> unread \<sigma>' r q' = [] \<and> received \<sigma>' r = received \<sigma> r @ unread \<sigma> r q"
  using assms
proof (induction "unread \<sigma> r q" arbitrary: \<sigma> q h)
  case Nil
  then show ?case by (intro exI [of _ q] exI [of _ \<sigma>]) simp
next
  case (Cons bs rest)
  note un = Cons.hyps(2) [symmetric]
  obtain q1 \<sigma>1 outcome where poll: "subscription_poll n handler h q (seg \<sigma>) =
      Some (Inr (fst (handler h bs), q1, seg \<sigma>1, outcome))"
    and one: "at_leisure wq G r \<sigma>1 q1" "unread \<sigma>1 r q1 = rest" "received \<sigma>1 r = received \<sigma> r @ [bs]"
    by (rule poll_takes_first [OF Cons.prems, of handler h]) (simp add: un)
  from Cons.hyps(1) [OF one(2) [symmetric] one(1) Cons.prems(2), of "fst (handler h bs)"] one(2,3) poll
  show ?case by (auto simp: un)
qed

section \<open>From a publication to a handler\<close>

text \<open>What is sent beyond the write offset comes after all that a reader has still to read.\<close>

lemma sent_each_unread:
  assumes L: "at_leisure wq G r \<sigma> q" and xs: "sorted_wrt (<) xs" "\<forall>x\<in>set xs. seg_hi (seg \<sigma>) \<le> x"
    and n: "length xs = length datas"
  shows "unread (\<sigma>\<lparr>seg := s, threads := Map.empty, sent := sent_each xs datas (sent \<sigma>)\<rparr>) r q =
    unread \<sigma> r q @ datas"
proof -
  have q: "open_readers \<sigma> r = Some q" and reach: "reachable wq G \<sigma>" using L by (simp_all add: at_leisure_def)
  obtain A where R: "refines wq G \<sigma> A" using reachable_refines [OF reach] .
  then have inv: "spec_inv (q_cap wq) A" and se: "rel_sent \<sigma> A" and rd: "rel_readers wq \<sigma> A"
    and hi: "seg_hi (seg \<sigma>) = s_hi A"
    by (simp_all add: refines_def rel_offsets_def)
  have below: "y < s_hi A" if "y \<in> dom (sent \<sigma>)" for y
  proof -
    from that se obtain e where "e \<in> set (s_log A)" "e_start e = y" by (auto simp: rel_sent_def)
    with spec_log_facts(1,3) [OF inv, of e] show ?thesis by (simp add: e_end_def)
  qed
  then have fin: "finite (dom (sent \<sigma>))" by (auto intro: bounded_nat_set_is_finite)
  have "joined \<sigma> r \<le> reader_at q" and since: "reader_at q \<le> s_hi A"
    using inv rd q reader_facts(1,8) [OF R q]
    by (auto simp: spec_inv_def spec_received_ok_def rel_readers_def)
  moreover have "listed P (sent_each xs datas (sent \<sigma>)) = listed P (sent \<sigma>) @ datas"
    if "\<forall>x\<ge>s_hi A. P x" for P
    using that xs hi n fin by (intro listed_sent_each) (auto intro: less_le_trans [OF below])
  ultimately show ?thesis by (simp add: unread_def)
qed

text \<open>
  Claiming buffers through a publication with nothing to commit, writing a payload into each of their
  spans and committing adds the payloads to what every reader has still to read, in the order of the
  claims.
\<close>

lemma published_are_unread:
  assumes L: "at_leisure wq G r \<sigma> q" and p: "pub_queue p = wq" "to_commit p = []"
    and claims: "pub_claims k p (seg \<sigma>) szs = Some (p1, s1, spans)"
    and place: "\<forall>(a, len)\<in>set spans. (a + unat len) mod q_cap wq \<in> G"
      "seg_hi (seg \<sigma>) + (k * length szs + 1) * q_cap wq < 2 ^ 56"
    and datas: "list_all2 (\<lambda>(a, len) data. length data = unat len) spans datas"
    and commit: "pub_commit p1 (s1\<lparr>ring := fill_spans spans datas (ring s1)\<rparr>) = (m, p2, s2)"
  shows "m = length datas \<and> to_commit p2 = [] \<and>
    (\<exists>\<sigma>2. seg \<sigma>2 = s2 \<and> at_leisure wq G r \<sigma>2 q \<and> received \<sigma>2 = received \<sigma> \<and>
      unread \<sigma>2 r q = unread \<sigma> r q @ datas)"
proof -
  have q: "open_readers \<sigma> r = Some q" and idle: "threads \<sigma> = Map.empty"
    and reach: "reachable wq G \<sigma>" using L by (simp_all add: at_leisure_def)
  have readers: "open_readers \<sigma> \<noteq> Map.empty" using q by auto
  obtain bs where bs: "to_commit p1 = bs" "spans = map get_as_span bs"
    "map (\<lambda>b. unat (wrapper_size b)) bs = map (\<lambda>sz. unat sz + 18) szs"
    and run: "reachable wq G (\<sigma>\<lparr>seg := s1, threads := holding 0 bs\<rparr>)"
    and order: "sorted_wrt (<) (map (claimed_at s1) bs)" "\<forall>b\<in>set bs. seg_hi (seg \<sigma>) \<le> claimed_at s1 b"
    using claims_run [OF reach _ readers p(1) claims place] idle p(2) by auto
  have fits: "list_all2 fits_in bs datas" by (rule spans_fit [OF bs(3) datas [unfolded bs(2)]])
  have apart: "sorted_wrt disjoint_spans bs" using holding_apart [OF run, of 0 bs] by simp
  have s2: "s2 = publish_each bs datas s1" and counts: "m = length datas" "to_commit p2 = []"
    using commit bs fill_then_commit [OF fits apart, of s1] list_all2_lengthD [OF fits]
    by (auto simp: pub_commit_def)
  let ?xs = "map (claimed_at s1) bs"
  let ?\<sigma>2 = "\<sigma>\<lparr>seg := s2, threads := Map.empty, sent := sent_each ?xs datas (sent \<sigma>)\<rparr>"
  have "reachable wq G ?\<sigma>2" using publishes_run [OF fits run, of 0] s2 by simp
  then have "at_leisure wq G r ?\<sigma>2 q" using L by (auto simp: at_leisure_def)
  moreover have "unread ?\<sigma>2 r q = unread \<sigma> r q @ datas"
    using order list_all2_lengthD [OF fits] by (intro sent_each_unread [OF L]) simp_all
  ultimately show ?thesis using s2 counts by (auto intro!: exI [of _ ?\<sigma>2])
qed

section \<open>Running the ledger again and again\<close>

fun ledger_runs ::
    "nat \<Rightarrow> 'w SbeCodec \<Rightarrow> 'w reads list \<Rightarrow> Ledger \<Rightarrow> IpcQueue \<Rightarrow> Segment \<Rightarrow>
     (LedgerStop + (Ledger \<times> IpcQueue \<times> Segment)) option" where
  "ledger_runs fuel sbe [] l q s = Some (Inr (l, q, s))"
| "ledger_runs fuel sbe (m # ms) l q s =
     (case ledger_run fuel sbe m l q s of
        None \<Rightarrow> None
      | Some (Inl e) \<Rightarrow> Some (Inl e)
      | Some (Inr (l', q', s', outcome)) \<Rightarrow> ledger_runs fuel sbe ms l' q' s')"

lemma ledger_run_first:
  assumes L: "at_leisure wq G r \<sigma> q" and fuel: "q_cap wq < 18 * n" and first: "unread \<sigma> r q = bytes # rest"
  obtains q' \<sigma>' outcome where "ledger_run n sbe m l q (seg \<sigma>) =
      (case on_fragment sbe m bytes l of
         None \<Rightarrow> Some (Inl Memory_Fault)
       | Some (action, l', log) \<Rightarrow> Some (Inr (l', q', seg \<sigma>', outcome)))"
    "at_leisure wq G r \<sigma>' q'" "unread \<sigma>' r q' = rest" "received \<sigma>' r = received \<sigma> r @ [bytes]"
proof -
  obtain q' \<sigma>' outcome where "subscription_poll n (ledger_callback sbe m) (Some l) q (seg \<sigma>) =
      Some (Inr (fst (ledger_callback sbe m (Some l) bytes), q', seg \<sigma>', outcome))"
    and new: "at_leisure wq G r \<sigma>' q'" "unread \<sigma>' r q' = rest" "received \<sigma>' r = received \<sigma> r @ [bytes]"
    by (rule poll_takes_first [OF L fuel, of "ledger_callback sbe m" "Some l"]) (simp add: first)
  then have "ledger_run n sbe m l q (seg \<sigma>) =
      (case on_fragment sbe m bytes l of
         None \<Rightarrow> Some (Inl Memory_Fault)
       | Some (action, l', log) \<Rightarrow> Some (Inr (l', q', seg \<sigma>', outcome)))"
    by (auto simp: ledger_run_def ledger_callback_run split: option.splits)
  from that [OF this new] show ?thesis .
qed

lemma ledger_runs_drain:
  assumes "at_leisure wq G r \<sigma> q" "q_cap wq < 18 * n" "length ms = length (unread \<sigma> r q)"
  shows "case handle_fragments sbe (zip ms (unread \<sigma> r q)) l of
      None \<Rightarrow> ledger_runs n sbe ms l q (seg \<sigma>) = Some (Inl Memory_Fault)
    | Some l' \<Rightarrow> \<exists>q' \<sigma>'. ledger_runs n sbe ms l q (seg \<sigma>) = Some (Inr (l', q', seg \<sigma>')) \<and>
        at_leisure wq G r \<sigma>' q' \<and> unread \<sigma>' r q' = [] \<and> received \<sigma>' r = received \<sigma> r @ unread \<sigma> r q"
  using assms
proof (induction ms arbitrary: \<sigma> q l)
  case Nil
  then show ?case by auto
next
  case (Cons m ms)
  then obtain bytes rest where un: "unread \<sigma> r q = bytes # rest" by (cases "unread \<sigma> r q") simp_all
  obtain q1 \<sigma>1 outcome where run: "ledger_run n sbe m l q (seg \<sigma>) =
      (case on_fragment sbe m bytes l of
         None \<Rightarrow> Some (Inl Memory_Fault)
       | Some (action, l', log) \<Rightarrow> Some (Inr (l', q1, seg \<sigma>1, outcome)))"
    and one: "at_leisure wq G r \<sigma>1 q1" "unread \<sigma>1 r q1 = rest" "received \<sigma>1 r = received \<sigma> r @ [bytes]"
    by (rule ledger_run_first [OF Cons.prems(1,2) un])
  have "length ms = length (unread \<sigma>1 r q1)" using Cons.prems(3) un one(2) by simp
  note IH = Cons.IH [OF one(1) Cons.prems(2) this, unfolded one(2,3)]
  show ?case
  proof (cases "on_fragment sbe m bytes l")
    case None
    with run un show ?thesis by simp
  next
    case (Some x)
    then obtain action l1 log where "on_fragment sbe m bytes l = Some (action, l1, log)" by (cases x) simp
    with run un IH [of l1] show ?thesis by (simp split: option.splits)
  qed
qed

section \<open>A concrete claim for the witnesses\<close>

text \<open>After \<open>demo_final\<close> 28 bytes are claimed through a publication: a buffer at 46, its span at 64.\<close>

definition demo_claimed :: Segment where
  "demo_claimed = set_count (count_of (seg demo_final) + 1)
     ((set_packed 23553 (seg demo_final))\<lparr>ring := header_ring 46 46 28 1 (ring (seg demo_final))\<rparr>)"

definition demo_payload :: "u8 list" where
  "demo_payload = 2 # replicate 27 0"

lemma demo_final_segment:
  "packed_of (seg demo_final) = 11777" "read_offset_of (seg demo_final) = 46"
  "seg_hi (seg demo_final) = 46"
proof -
  show packed: "packed_of (seg demo_final) = 11777"
    by (simp add: demo_final_def after_last_release_def demo_published_packed)
  have "read_offset_of demo_published = 0"
    by (simp add: demo_published_def commit_buffer_def demo_placed_def demo_reserved_def)
  moreover have "msg_total (ring demo_published) 0 = 46"
    by (simp add: msg_total_def demo_header sizeof_MessageHeader_def)
  ultimately show "read_offset_of (seg demo_final) = 46"
    by (simp add: demo_final_def after_last_release_def)
  show "seg_hi (seg demo_final) = 46"
    using packed by (simp add: seg_hi_def unat_write_offset_unwrap)
qed

lemma demo_first_claim:
  "claim_buffer (Suc k) (demo_writer 128) (seg demo_final) 28 = Some (Inr (Claimed demo_claimed demo_buffer2))"
proof -
  let ?q = "demo_writer 128" and ?s = "set_packed 23553 (seg demo_final)"
  have "\<not> must_wait ?q ?s demo_ticket2"
    using demo_final_segment(2) by (simp add: must_wait_def demo_ticket2_def)
  moreover have "place_claim ?q ?s 28 demo_ticket2 = Inr (demo_claimed, Some demo_buffer2)"
    using place_claim_fits [of ?q 28 demo_ticket2 ?s]
    by (simp add: sane_queue_def claim_fits_def ticket_start_def demo_ticket2_def demo_claimed_def
        demo_buffer2_def sizeof_MessageHeader_def)
  ultimately show ?thesis
    using demo_reserve_more(1) [OF demo_final_segment(1)] demo_offsets(1)
    by (auto simp: claim_buffer.simps claim_resume.simps claim_checks_def)
qed

lemma demo_publication_claim:
  "pub_claim_buffer 1 (make_publication (demo_writer 128)) (seg demo_final) 28 =
     Some (Inr (Pub_Span ((make_publication (demo_writer 128))\<lparr>to_commit := [demo_buffer2]\<rparr>) demo_claimed (64, 28)))"
  using demo_first_claim [of 0]
  by (simp add: pub_claim_buffer_def make_publication_def get_as_span_def demo_buffer2_def
      sizeof_MessageHeader_def)

text \<open>
  A second claim of 28 bytes through the same publication does not fit in front of the end of the
  ring: it is padded, and the buffer is the one at the start, with its span at 18.
\<close>

definition demo_padded :: Segment where
  "demo_padded = (set_packed 32769 demo_claimed)\<lparr>ring := skip_ring 92 92 18 1 (ring demo_claimed)\<rparr>"

definition demo_claimed2 :: Segment where
  "demo_claimed2 = set_count (count_of demo_padded + 1)
     ((set_packed 44545 demo_padded)\<lparr>ring := header_ring 0 128 28 1 (ring demo_padded)\<rparr>)"

lemma demo_publication_claims:
  "pub_claims 2 (make_publication (demo_writer 128)) (seg demo_final) [28, 28] =
     Some ((make_publication (demo_writer 128))\<lparr>to_commit := [demo_buffer2, demo_buffer]\<rparr>, demo_claimed2,
       [(64, 28), (18, 28)])"
proof -
  let ?q = "demo_writer 128"
  have packed: "packed_of demo_claimed = 23553" "packed_of demo_padded = 32769"
    and at: "read_offset_of demo_claimed = 46" "read_offset_of demo_padded = 46"
    using demo_final_segment(2) by (simp_all add: demo_claimed_def demo_padded_def)
  have "\<not> must_wait ?q (set_packed 32769 demo_claimed) demo_ticket3"
    "\<not> must_wait ?q (set_packed 44545 demo_padded) demo_ticket4"
    using at by (simp_all add: must_wait_def demo_ticket3_def demo_ticket4_def)
  moreover have "place_claim ?q (set_packed 32769 demo_claimed) 28 demo_ticket3 = Inr (demo_padded, None)"
    using place_claim_skips [of ?q 28 demo_ticket3 "set_packed 32769 demo_claimed"]
    by (simp add: sane_queue_def claim_fits_def header_room_def ticket_start_def demo_ticket3_def
        demo_padded_def sizeof_MessageHeader_def)
  moreover have "place_claim ?q (set_packed 44545 demo_padded) 28 demo_ticket4 = Inr (demo_claimed2, Some demo_buffer)"
    using place_claim_fits [of ?q 28 demo_ticket4 "set_packed 44545 demo_padded"]
    by (simp add: sane_queue_def claim_fits_def ticket_start_def demo_ticket4_def demo_claimed2_def
        demo_buffer_def sizeof_MessageHeader_def)
  ultimately have "claim_buffer 2 ?q demo_claimed 28 = Some (Inr (Claimed demo_claimed2 demo_buffer))"
    using demo_reserve_more(2) [OF packed(1)] demo_reserve_more(3) [OF packed(2)] demo_offsets(1)
    by (auto simp: claim_buffer.simps claim_resume.simps claim_checks_def numeral_2_eq_2)
  moreover have "claim_buffer 2 ?q (seg demo_final) 28 = Some (Inr (Claimed demo_claimed demo_buffer2))"
    using demo_first_claim [of 1] by (simp add: numeral_2_eq_2)
  ultimately show ?thesis
    by (simp add: pub_claim_buffer_def make_publication_def get_as_span_def demo_buffer_def demo_buffer2_def
        sizeof_MessageHeader_def)
qed

lemma demo_at_leisure:
  "at_leisure (demo_writer 128) (grid 46) 0 demo_final
     (after_release 0 (demo_joined\<lparr>read_message_cnt := 1\<rparr>) demo_published)"
  "unread demo_final 0 (after_release 0 (demo_joined\<lparr>read_message_cnt := 1\<rparr>) demo_published) = []"
  "seg_hi demo_claimed = 92"
proof -
  show "at_leisure (demo_writer 128) (grid 46) 0 demo_final
     (after_release 0 (demo_joined\<lparr>read_message_cnt := 1\<rparr>) demo_published)"
    using demo_final_reachable by (simp add: at_leisure_def) (simp add: demo_final_def demo_system_def)
  have none: "{x. x = 0 \<and> 46 \<le> x} = ({} :: nat set)" by auto
  show "unread demo_final 0 (after_release 0 (demo_joined\<lparr>read_message_cnt := 1\<rparr>) demo_published) = []"
    using none by (simp add: unread_def listed_def)
  show "seg_hi demo_claimed = 92" by (simp add: demo_claimed_def seg_hi_packed)
qed


text \<open>
  C20. What becomes of an order. Messages that are claimed, written and committed together through a
  publication to the order entry queue are taken by the ledger after those that were left, one per
  run, in order, and each is given to \<open>on_fragment\<close>. So as many runs as there are messages leave
  nothing to read and the ledger in the state that the messages lead to; unless a read through the
  bytes of one of them faults, which ends the ledger. A ledger as it was constructed is the same
  after them, without a product and without an order: whatever was sent, it is dropped.
\<close>

theorem orders_reach_the_ledger:
  assumes "at_leisure wq G r \<sigma> q" "pub_queue p = wq" "to_commit p = []"
    and "pub_claims k p (seg \<sigma>) szs = Some (p1, s1, spans)"
    and "\<forall>(a, len)\<in>set spans. (a + unat len) mod q_cap wq \<in> G"
    and "seg_hi (seg \<sigma>) + (k * length szs + 1) * q_cap wq < 2 ^ 56"
    and "list_all2 (\<lambda>(a, len) data. length data = unat len) spans datas"
    and "pub_commit p1 (s1\<lparr>ring := fill_spans spans datas (ring s1)\<rparr>) = (c, p2, s2)"
    and "q_cap wq < 18 * n" "length ms = length (unread \<sigma> r q @ datas)"
  shows "case handle_fragments sbe (zip ms (unread \<sigma> r q @ datas)) l of
      None \<Rightarrow> ledger_runs n sbe ms l q s2 = Some (Inl Memory_Fault)
    | Some l' \<Rightarrow>
        (\<exists>q' \<sigma>'. ledger_runs n sbe ms l q s2 = Some (Inr (l', q', seg \<sigma>')) \<and>
           at_leisure wq G r \<sigma>' q' \<and> unread \<sigma>' r q' = [] \<and>
           received \<sigma>' r = received \<sigma> r @ unread \<sigma> r q @ datas) \<and>
        (make_Ledger db = Inr l \<longrightarrow> l' = l \<and> products l = Map.empty \<and> active_orders l = Map.empty)"
proof -
  from published_are_unread [OF assms(1-8)] obtain \<sigma>2 where
    2: "seg \<sigma>2 = s2" "at_leisure wq G r \<sigma>2 q" "received \<sigma>2 = received \<sigma>"
      "unread \<sigma>2 r q = unread \<sigma> r q @ datas" by blast
  have "length ms = length (unread \<sigma>2 r q)" using assms(10) 2(4) by simp
  from ledger_runs_drain [OF 2(2) assms(9) this, of sbe l] 2(1,3,4) show ?thesis
    by (auto split: option.splits dest: make_Ledger_empty ledger_stays_empty)
qed


text \<open>
  Both messages are taken by a new ledger whose memory holds a template id it does not know, and
  dropped; with a memory that ends before where the first message points, the first run faults.
\<close>

theorem orders_reach_the_ledger_witness:
  "\<exists>c p2 s2 q' s'. pub_commit ((make_publication (demo_writer 128))\<lparr>to_commit := [demo_buffer2, demo_buffer]\<rparr>)
      (demo_claimed2\<lparr>ring := fill_spans [(64, 28), (18, 28)] [demo_payload, demo_payload] (ring demo_claimed2)\<rparr>) =
      (c, p2, s2) \<and>
    ledger_runs 8 demo_codec [\<lambda>_. [1, 3, 9], \<lambda>_. [1, 3, 9]] \<lparr>products = Map.empty, active_orders = Map.empty\<rparr>
      (after_release 0 (demo_joined\<lparr>read_message_cnt := 1\<rparr>) demo_published) s2 =
      Some (Inr (\<lparr>products = Map.empty, active_orders = Map.empty\<rparr>, q', s')) \<and>
    ledger_runs 8 demo_codec [\<lambda>_. [1], \<lambda>_. [1, 3, 9]] \<lparr>products = Map.empty, active_orders = Map.empty\<rparr>
      (after_release 0 (demo_joined\<lparr>read_message_cnt := 1\<rparr>) demo_published) s2 =
      Some (Inl Memory_Fault)"
proof -
  let ?l = "\<lparr>products = Map.empty, active_orders = Map.empty\<rparr> :: Ledger"
  obtain c p2 s2 where c: "pub_commit ((make_publication (demo_writer 128))\<lparr>to_commit := [demo_buffer2, demo_buffer]\<rparr>)
      (demo_claimed2\<lparr>ring := fill_spans [(64, 28), (18, 28)] [demo_payload, demo_payload] (ring demo_claimed2)\<rparr>) =
      (c, p2, s2)"
    by (metis prod_cases3)
  have n: "list_all2 (\<lambda>(a, len) data. length data = unat len) [(64, 28), (18, 28 :: u64)] [demo_payload, demo_payload]"
    by (simp add: demo_payload_def)
  have queue: "pub_queue (make_publication (demo_writer 128)) = demo_writer 128"
    "to_commit (make_publication (demo_writer 128)) = []" by (simp_all add: make_publication_def)
  have place: "\<forall>(a, len)\<in>set [(64, 28), (18, 28 :: u64)]. (a + unat len) mod q_cap (demo_writer 128) \<in> grid 46"
    and far: "seg_hi (seg demo_final) + (2 * length [28, 28 :: u64] + 1) * q_cap (demo_writer 128) < 2 ^ 56"
    and fuel: "q_cap (demo_writer 128) < 18 * 8"
    using demo_final_segment(3) by simp_all
  note run = orders_reach_the_ledger [OF demo_at_leisure(1) queue demo_publication_claims place far n c fuel,
      unfolded demo_at_leisure(2) append_Nil, of _ demo_codec ?l]
  have one: "on_fragment demo_codec (\<lambda>_. [1, 3, 9]) demo_payload ?l =
      Some (CONTINUE, ?l, Some (Unknown_Template 9))"
    "on_fragment demo_codec (\<lambda>_. [1]) demo_payload ?l = None"
    by (simp_all add: on_fragment_def demo_codec_def demo_payload_def demo_field_def template_defs)
  from run [of "[\<lambda>_. [1, 3, 9], \<lambda>_. [1, 3, 9]]"] run [of "[\<lambda>_. [1], \<lambda>_. [1, 3, 9]]"] c one
  show ?thesis by fastforce
qed

end
