(* ===== verification/Services.thy ===== *)
theory Services
  imports Ledger
begin

text \<open>
  The two programs, message_archive/media_driver.cpp and ledger/ledger_main.cpp. The command line
  parser and the configuration reader are libraries; what they answer is a parameter. An exception
  that leaves \<open>main\<close>, or a failed assertion, ends the process; what it had opened is then neither
  closed nor described here.
\<close>

section \<open>What main starts from and ends with\<close>

datatype CommandLine =
    Help_Printed
  | Bad_Arguments
  | Parsed "string option"     \<comment> \<open>the value of -f, if it is defined\<close>

datatype 'v ConfigFile =
    File_Io_Error
  | File_Parse_Error
  | Config_Read "string \<rightharpoonup> 'v"

datatype Exit =
    Returned int Shm     \<comment> \<open>the exit code, and the shared memory it leaves\<close>
  | Terminated error

definition EXIT_FAILURE :: int where "EXIT_FAILURE = 1"

definition config_file_name_of :: "string option \<Rightarrow> string" where
  "config_file_name_of f = (case f of None \<Rightarrow> '''' | Some name \<Rightarrow> name)"

text \<open>The handlers stop every application; no program installs them.\<close>

definition signal_handler :: "('a \<Rightarrow> 'a) \<Rightarrow> 'a list \<Rightarrow> 'a list" where
  "signal_handler stop applications = map stop applications"

text \<open>The common entry point of the services (utils/Config.h) is a stub, which no program calls.\<close>

definition run_service :: "string list \<Rightarrow> int" where
  "run_service argv = 0"

section \<open>The media driver\<close>

text \<open>Leaving the try block destroys the driver, and with it the queue.\<close>

definition destroy_driver :: "nat \<Rightarrow> int \<Rightarrow> IpcQueue \<Rightarrow> Shm \<Rightarrow> Exit option" where
  "destroy_driver fuel ret q h =
     map_option (\<lambda>r. case r of Inl e \<Rightarrow> Terminated e | Inr (q', h') \<Rightarrow> Returned ret h')
       (destroy_queue fuel q h)"

text \<open>
  The only exception of \<open>run\<close> would come from its first poll, before anything changed; it is caught
  after the driver was destroyed.
\<close>

definition run_driver ::
    "nat \<Rightarrow> (nat \<Rightarrow> Segment \<Rightarrow> Segment) \<Rightarrow> MpscArchiveMediaDriver \<Rightarrow> Shm \<Rightarrow> Exit option" where
  "run_driver fuel others d h =
     (case driver_run fuel others (driver_start d) (mapped (driver_queue d) h) of
        None \<Rightarrow> None
      | Some (Inl (Assert_Failed w)) \<Rightarrow> Some (Terminated (Assert_Failed w))
      | Some (Inl e) \<Rightarrow> destroy_driver fuel 1 (driver_queue d) h
      | Some (Inr (d', s, cs)) \<Rightarrow>
          destroy_driver fuel 0 (driver_queue d') (put_mapped (driver_queue d') s h))"

definition media_driver_main ::
    "nat \<Rightarrow> CommandLine \<Rightarrow> (string \<Rightarrow> u64 ConfigFile) \<Rightarrow> (string \<Rightarrow> bool) \<Rightarrow>
     (nat \<Rightarrow> Segment \<Rightarrow> Segment) \<Rightarrow> Shm \<Rightarrow> Exit option" where
  "media_driver_main fuel args read_file may_open others h =
     (case args of
        Help_Printed \<Rightarrow> Some (Returned 0 h)
      | Bad_Arguments \<Rightarrow> Some (Returned 1 h)
      | Parsed f \<Rightarrow>
          (case read_file (config_file_name_of f) of
             File_Io_Error \<Rightarrow> Some (Returned EXIT_FAILURE h)
           | File_Parse_Error \<Rightarrow> Some (Returned EXIT_FAILURE h)
           | Config_Read lookup \<Rightarrow>
               (case open_driver may_open
                       \<lparr>rotation_size = DEFAULT_ROTATION_SIZE, file_pattern = DEFAULT_FILE_PATTERN\<rparr> lookup h of
                  Inl e \<Rightarrow> Some (Returned 1 h)
                | Inr (d, h') \<Rightarrow> run_driver fuel others d h')))"

text \<open>A reader that closes the file it has just created takes its name away again.\<close>

lemma fresh_reader_closes:
  assumes "open_queue may_open h params = Inr (q, h')" "\<not> param_is_writer params"
    and "names h (param_file_name params) = None"
  shows "\<exists>h''. close_queue (Suc n) q h' = Some (Inr (q\<lparr>fd := -1\<rparr>, h'')) \<and> names h'' = names h"
proof -
  let ?k = "next_object h"
  let ?q = "(IpcQueue_members params)\<lparr>fd := int ?k\<rparr>"
  let ?s = "init_new_file ?q"
  let ?p = "return_add_reader (unwrap (packed_of ?s))"
  have zero: "packed_of ?s = 0" by (simp add: init_new_file_def packed_of_def)
  have "open_queue may_open h params = Inr (?q\<lparr>abs_read_offset := write_offset (snd ?p)\<rparr>,
      shm_create (param_file_name params) (set_packed (fst ?p) ?s) h)"
    using assms
    by (auto simp: open_queue_def register_def modify_readers_def IpcQueue_members_def Let_def
        case_prod_beta split: if_splits)
  moreover have "write_offset (snd ?p) = 0" unfolding zero by (simp add: return_add_reader_def unwrap_def)
  ultimately have q: "q = ?q\<lparr>abs_read_offset := 0\<rparr>"
    and h': "h' = shm_create (param_file_name params) (set_packed (fst ?p) ?s) h"
    using assms(1) by simp_all
  let ?s1 = "set_packed (fst (return_sub_reader (unwrap (fst ?p)))) ?s"
  have m: "modify_readers False (mapped q h') = (?s1, snd (return_sub_reader (unwrap (fst ?p))))"
    by (simp add: q h' mapped_def shm_create_def modify_readers_def case_prod_beta)
  have "hdr_commit_flag (ring ?s1) 0 = 0" by (simp add: init_new_file_def hdr_commit_flag_def)
  then have "decrement_readers_until (Suc n) q ?s1 x = Some (Inr (q, ?s1))" for x
    by (simp add: q)
  moreover have "writers_of ?s1 = 0" by (simp add: writers_of_def set_packed_def init_new_file_def)
  moreover have "\<not> is_writer q" "fd q \<noteq> -1" "file_name q = param_file_name params"
    using assms(2) by (simp_all add: q IpcQueue_members_def)
  ultimately have "close_queue (Suc n) q h' =
      Some (Inr (q\<lparr>fd := -1\<rparr>, shm_unlink (param_file_name params) (put_mapped q ?s1 h')))"
    using m by (simp add: close_queue_def remove_file_def Let_def del: decrement_readers_until.simps)
  then show ?thesis
    using assms(3) by (simp add: h' shm_create_def shm_unlink_def put_mapped_def fun_upd_idem)
qed

lemma media_driver_with_queue:
  assumes "read_file (config_file_name_of f) = Config_Read lookup"
    and "lookup ''mpsc_queue.queue_size'' = Some sz" "is_power_of_two sz" "\<not> sz > MAX_QUEUE_SIZE_BYTES"
    and "names h DEFAULT_SHM_NAME = None" and may: "may_open DEFAULT_SHM_NAME"
  shows "\<exists>d h1 h'. open_driver may_open
      \<lparr>rotation_size = DEFAULT_ROTATION_SIZE, file_pattern = DEFAULT_FILE_PATTERN\<rparr> lookup h = Inr (d, h1) \<and>
    driver_run (Suc n) others (driver_start d) (mapped (driver_queue d) h1) =
      Some (Inr (driver_start d, mapped (driver_queue d) h1, [])) \<and>
    media_driver_main (Suc n) (Parsed f) read_file may_open others h = Some (Returned 0 h') \<and>
    names h' = names h"
proof -
  let ?params = "driver_queue_params sz"
  have params: "param_file_name ?params = DEFAULT_SHM_NAME" "\<not> param_is_writer ?params"
    "param_queue_size ?params = sz" by (simp_all add: driver_queue_params_def)
  obtain q h1 where opened: "open_queue may_open h ?params = Inr (q, h1)"
    using first_reader [of ?params may_open h] params assms by auto
  obtain h2 where closed: "close_queue (Suc n) q h1 = Some (Inr (q\<lparr>fd := -1\<rparr>, h2))" "names h2 = names h"
    using fresh_reader_closes [OF opened params(2)] params(1) assms(5) by auto
  have same: "put_mapped q (mapped q h1) h1 = h1" by (simp add: put_mapped_def mapped_def)
  have "open_driver may_open p lookup h = Inr (make_driver p q, h1)" for p
    using assms(2) opened by (simp add: open_driver_def config_lookup_def)
  with assms(1) closed same show ?thesis
    by (simp add: media_driver_main_def run_driver_def driver_start_def make_driver_def
        destroy_driver_def destroy_queue_def)
qed

text \<open>
  C36. How the media driver ends. Its queue has a name with a slash behind the first character, and a
  system whose \<open>shm_open\<close> rejects such names, as that of Linux does, makes the program return 1
  whatever it is given, but for a request for help, for which it returns 0; the shared memory is as it
  was. On a system that accepts the name, with a usable configuration and when the name is free, the
  program returns 0 at once: \<open>run\<close> handles no message and leaves its queue object and the segment as
  they were, and the name of the queue that was created is gone again.
\<close>

theorem media_driver_main_exits:
  "((\<forall>name. may_open name \<longrightarrow> CHR ''/'' \<notin> set (tl name)) \<longrightarrow>
      media_driver_main n args read_file may_open others h =
        Some (Returned (if args = Help_Printed then 0 else 1) h)) \<and>
   (read_file (config_file_name_of f) = Config_Read lookup \<and>
      lookup ''mpsc_queue.queue_size'' = Some sz \<and> is_power_of_two sz \<and> \<not> sz > MAX_QUEUE_SIZE_BYTES \<and>
      names h DEFAULT_SHM_NAME = None \<and> may_open DEFAULT_SHM_NAME \<longrightarrow>
      (\<exists>d h1 h'. open_driver may_open
          \<lparr>rotation_size = DEFAULT_ROTATION_SIZE, file_pattern = DEFAULT_FILE_PATTERN\<rparr> lookup h = Inr (d, h1) \<and>
        driver_run (Suc n) others (driver_start d) (mapped (driver_queue d) h1) =
          Some (Inr (driver_start d, mapped (driver_queue d) h1, [])) \<and>
        media_driver_main (Suc n) (Parsed f) read_file may_open others h = Some (Returned 0 h') \<and>
        names h' = names h))"
proof (intro conjI impI)
  assume names: "\<forall>name. may_open name \<longrightarrow> CHR ''/'' \<notin> set (tl name)"
  have closed: "\<exists>e. open_driver may_open p lookup h = Inl e" for p and lookup :: "string \<rightharpoonup> u64"
    using names by (intro driver_name_rejected) blast
  show "media_driver_main n args read_file may_open others h =
      Some (Returned (if args = Help_Printed then 0 else 1) h)"
  proof (cases args)
    case (Parsed f)
    show ?thesis
    proof (cases "read_file (config_file_name_of f)")
      case (Config_Read lookup)
      obtain e where "open_driver may_open
          \<lparr>rotation_size = DEFAULT_ROTATION_SIZE, file_pattern = DEFAULT_FILE_PATTERN\<rparr> lookup h = Inl e"
        using closed by blast
      with Config_Read Parsed show ?thesis by (simp add: media_driver_main_def)
    qed (simp_all add: Parsed media_driver_main_def EXIT_FAILURE_def)
  qed (simp_all add: media_driver_main_def)
qed (use media_driver_with_queue [of read_file f lookup sz h may_open n others] in blast)

theorem media_driver_main_exits_witness:
  "media_driver_main 1 (Parsed None) (\<lambda>_. Config_Read (\<lambda>_. Some 64)) (\<lambda>name. CHR ''/'' \<notin> set (tl name)) (\<lambda>_ s. s)
      (demo_shm\<lparr>names := Map.empty\<rparr>) = Some (Returned 1 (demo_shm\<lparr>names := Map.empty\<rparr>)) \<and>
   (\<exists>h'. media_driver_main 1 (Parsed None) (\<lambda>_. Config_Read (\<lambda>_. Some 64)) (\<lambda>_. True) (\<lambda>_ s. s)
      (demo_shm\<lparr>names := Map.empty\<rparr>) = Some (Returned 0 h') \<and> names h' = Map.empty)"
  using media_driver_main_exits [of "\<lambda>name. CHR ''/'' \<notin> set (tl name)" 1 "Parsed None"
      "\<lambda>_. Config_Read (\<lambda>_. Some 64)" "\<lambda>_ s. s" "demo_shm\<lparr>names := Map.empty\<rparr>" None "\<lambda>_. Some 64" 64]
    media_driver_main_exits [of "\<lambda>_. True" 0 "Parsed None" "\<lambda>_. Config_Read (\<lambda>_. Some 64)" "\<lambda>_ s. s"
      "demo_shm\<lparr>names := Map.empty\<rparr>" None "\<lambda>_. Some 64" 64] demo_power
  by (auto simp: MAX_QUEUE_SIZE_BYTES_def)

section \<open>The ledger\<close>

text \<open>The loop waits for the flag \<open>quit\<close>, which nothing sets; the fuel bounds its rounds.\<close>

fun wait_for_quit :: "nat \<Rightarrow> bool \<Rightarrow> unit option" where
  "wait_for_quit 0 quit = None"
| "wait_for_quit (Suc n) quit = (if quit then Some () else wait_for_quit n quit)"

definition ledger_main ::
    "nat \<Rightarrow> CommandLine \<Rightarrow> (string \<Rightarrow> string ConfigFile) \<Rightarrow> int \<Rightarrow> (string \<Rightarrow> bool) \<Rightarrow> Shm \<Rightarrow>
     Exit option" where
  "ledger_main fuel args read_file db may_open h =
     (case args of
        Help_Printed \<Rightarrow> Some (Returned 0 h)
      | Bad_Arguments \<Rightarrow> Some (Returned 1 h)
      | Parsed f \<Rightarrow>
          (case read_file (config_file_name_of f) of
             File_Io_Error \<Rightarrow> Some (Returned EXIT_FAILURE h)
           | File_Parse_Error \<Rightarrow> Some (Returned EXIT_FAILURE h)
           | Config_Read lookup \<Rightarrow>
               (case make_Ledger db of
                  Inl e \<Rightarrow> Some (Terminated e)
                | Inr l \<Rightarrow>
                    (case ledger_start may_open lookup h of
                       Inl e \<Rightarrow> Some (Terminated e)
                     | Inr (order_entry, admin_out, admin_in, h') \<Rightarrow>
                         map_option (\<lambda>_. Returned 0 h') (wait_for_quit fuel False)))))"

lemma wait_for_quit_never: "wait_for_quit n False = None"
  by (induction n) simp_all

text \<open>
  How the ledger ends. Once its database and its queues are open, \<open>main\<close> never returns and
  never runs the ledger: it waits for a flag that stays false. An error in the database or in one
  of the queues ends the process with an exception that nothing catches.
\<close>

lemma ledger_main_never_returns:
  assumes "read_file (config_file_name_of f) = Config_Read lookup"
  shows "(ledger_main n (Parsed f) read_file db may_open h = None \<longleftrightarrow>
      db = 0 \<and> (\<exists>res. ledger_start may_open lookup h = Inr res)) \<and>
    (db \<noteq> 0 \<longrightarrow>
      ledger_main n (Parsed f) read_file db may_open h = Some (Terminated Db_Open_Failed)) \<and>
    (\<forall>e. db = 0 \<and> ledger_start may_open lookup h = Inl e \<longrightarrow>
      ledger_main n (Parsed f) read_file db may_open h = Some (Terminated e))"
  using assms
  by (cases "ledger_start may_open lookup h")
    (auto simp: ledger_main_def make_Ledger_def make_ManagedDb_def wait_for_quit_never split: prod.splits)

lemma ledger_main_never_returns_witness:
  "ledger_main 5 (Parsed None) (\<lambda>_. Config_Read Map.empty) 14 (\<lambda>_. True) demo_shm =
     Some (Terminated Db_Open_Failed) \<and>
   ledger_main 5 (Parsed None) (\<lambda>_. Config_Read Map.empty) 0 (\<lambda>_. True) demo_shm =
     Some (Terminated Config_Lookup_Failed)"
  using ledger_main_never_returns [of "\<lambda>_. Config_Read Map.empty" None Map.empty 5 14 "\<lambda>_. True" demo_shm]
    ledger_main_never_returns [of "\<lambda>_. Config_Read Map.empty" None Map.empty 5 0 "\<lambda>_. True" demo_shm]
  by (simp add: ledger_start_def config_lookup_def)

end
