(* ===== verification/Spec2Isabelle.thy ===== *)
theory Spec2Isabelle
  imports Spin_Policy Ipc_Guarantees Ipc_Lifecycle Archive Ledger Polling
    Ipc_Sessions Ipc_Processes Ipc_Fine_Guarantees Ipc_First_Lap Ipc_Hazards Ipc_Closing Benchmark Message_Flow
    Services
begin

text \<open>
  A verification of mock_exchange: a message queue in shared memory, the archive library on top of
  it, the ledger that reads orders from it, and the poll runner.

  \<^bold>\<open>The program.\<close> Processes share a file: a global header and a ring of bytes
  (message_transport). Writers claim space in it by a compare-and-exchange on a word that packs the
  number of readers and the absolute write offset, wait until the slowest reader has made room,
  write a header and a payload, and commit. Every reader reads every message: a message counts how
  many readers have still to release it, and the last one clears it and moves the low watermark.
  Where a message would straddle the end of the ring the writer inserts a skip message and claims
  again. A publication (message_archive) collects claimed buffers and commits them together; a
  subscription polls a queue and hands each message to a handler; both are exported to Python. The
  ledger (ledger) is a handler that keeps products, order books and active orders. The poll runner
  (polling) drives a list of pollables, of which the TCP server is one.

  \<^bold>\<open>The theories\<close>, with what they model:

  \<^item> \<open>Prelude\<close>: word arithmetic without wrap-around, errors as a sum type, byte memory with
    little-endian loads and stores. \<open>State_Machine\<close>: the interfaces of a machine with an invariant
    and of a forward simulation.
  \<^item> \<open>Readers_And_Offset\<close>: \<open>UnpackedReadersAndWriterOffset\<close> and \<open>is_power_of_two\<close> of
    messaging/ipc_queue.h. \<open>Spin_Policy\<close>: messaging/SpinPolicy.h. \<open>Ipc_Headers\<close>: the layout in
    messaging/ipc_queue_headers.h, the segment and the accessors of a message header.
  \<^item> \<open>Ipc_Queue\<close>: the operations of ipc_queue.cpp and of the wrappers in
    ipc_queue_element_wrapper.h. A segment is the global header and the ring; an \<open>IpcQueue\<close> is the
    queue object of one process. \<open>Ipc_Claim\<close> and \<open>Ipc_Read\<close> hold what the operations do on their
    own. \<open>Ipc_Lifecycle\<close>: the constructor, \<open>close\<close> and the destructor, on named shared memory
    objects.
  \<^item> \<open>Broadcast_Spec\<close>: the specification, a log of spans with a position and a count of pending
    readers. \<open>Ipc_System\<close>: any number of writers and readers on one segment as a step relation; writers
    commit or abort what they claim.
    \<open>Ipc_Refinement\<close>: the simulation of the specification by the system. \<open>Ipc_Guarantees\<close>: what
    follows for the users of the queue. \<open>Ipc_Sessions\<close>: the constructor and \<open>close\<close> as steps of the
    system, so that a process that opens the file becomes one of its readers and one that closes it
    leaves. \<open>Ipc_Processes\<close>: the constructor and \<open>close\<close> of any number of processes, one system call,
    store or load at a time.
  \<^item> \<open>Ipc_Stores\<close>: placing a header, padding, publishing, aborting and releasing as lists of single stores,
    and a poll in two parts. \<open>Ipc_Fine_Grained\<close>: the system with one step per store.
    \<open>Ipc_Fine_Refinement\<close>: every run of it has the effect of a run of \<open>Ipc_System\<close>.
    \<open>Ipc_Fine_Guarantees\<close>: what follows for the users, whatever acts between the stores.
    \<open>Ipc_First_Lap\<close>: messages of any sizes, until the ring has been filled once.
    \<open>Ipc_Hazards\<close>: histories outside the conditions of the system, and what goes wrong in them.
    \<open>Ipc_Closing\<close>: why \<open>close\<close> must not meet a full ring, for every state with one.
    \<open>Benchmark\<close>: message_transport/benchmark/consumer_benchmark.cpp, a reader and its producers as the
    threads of one process.
  \<^item> \<open>Archive\<close>: ArchivePublication, ArchiveSubscription, the control messages, the media driver and
    python_wrapper.cpp. \<open>Order_Book\<close>: Book, PriceLevel, ActiveOrder, Product. \<open>Ledger\<close>: Ledger.cpp.
    \<open>Publication_Runs\<close>: claiming, filling and committing through a publication as runs of the
    system. \<open>Message_Flow\<close>: from there to a subscriber's handler and to the ledger.
    \<open>Polling\<close>: the interface of a pollable, RuntimePollRunner, its builder, TcpPollable,
    CoreAffinity; pollables may share state, and the calls of a runner are stated as a log. \<open>Services\<close>: the \<open>main\<close> functions of message_archive/media_driver.cpp and
    ledger/ledger_main.cpp.

  \<^bold>\<open>What the lemmas show.\<close> Every operation has lemmas for its branches, errors included. The
  queue has an invariant in \<open>Broadcast_Spec\<close>; \<open>Ipc_Refinement\<close> has one lemma per kind of step,
  that relates the bytes of the ring before and after. From them \<open>Ipc_Guarantees\<close> derives that
  every reader gets every message once, in order and intact, whatever the interleaving; that no
  assertion of the code fails; that buffers in use never overlap; that a waiting writer is never
  deadlocked; and that polling ends and finds exactly the committed messages. The archive and the
  ledger rest on these. So does \<open>Benchmark\<close>: each of its threads' steps is one of the queue system or
  leaves the queue as it is, which makes the conditions below theorems about this program, all but
  the bound on the write offset: its runs are those in which no claim would pass the bound, and the
  steps of its threads are without it. \<open>Ipc_Fine_Refinement\<close> carries delivery, intact views and the absence of
  failed assertions over to the machine of single stores: a byte that an operation has still to
  store belongs to no other operation and to no message that somebody else reads, so the state at
  every moment is that of the atomic machine but for the bytes that operations in progress own. An
  operation takes effect with its last store, a release that is not the last with its
  \<open>fetch_sub\<close>. \<open>Ipc_Processes\<close> shows that the protocol of the magic number works: no process
  registers in a file before it is ready, none is lost from the counts, and the constructor has the
  effect of the atomic one where it registers. Some properties state what the code does where it is not what it means to do; the
  text of the property says so.

  \<^bold>\<open>How the code is read.\<close> An error or a failed assertion is a value (the build that the
  repository documents keeps assertions). Machine integers keep their width. The system has two
  grains. In \<open>Ipc_System\<close> the placement of a header, the write of a payload with its commit, one
  level of a poll, an abortion, and a release are one step each. In \<open>Ipc_Fine_Grained\<close> every store of theirs is
  a step, a \<open>memset\<close> or \<open>memcpy\<close> one per byte, and a poll loads the flag in one step and the rest of
  the header in another. In both a loop around a compare-and-exchange is one step, and so are
  the constructor and \<open>close\<close>. Memory orders are taken as
  sequentially consistent. \<open>Ipc_Processes\<close> has the third grain, for opening and closing.

  \<^bold>\<open>Conditions\<close> of the theorems on the systems that the code does not check: a writer claims only
  when there is a reader; a reader joins only while what is reserved is at most one lap ahead of
  the slowest reader, and at most 255 readers join; a reader leaves only while no writer is at
  work, no operation is in progress, the ring is not full and no aborted message is before it; a
  reader one ring's size ahead of the slowest reader does not poll while that one stands at an
  aborted message; the places in the ring where messages start are at least a header
  apart, which messages of one size keep and messages of any sizes until the ring has been filled
  once; the write offset stays below 2 to the power 56. In the machine of single stores a poll is split only when
  its reader is less than one ring's size ahead of the slowest reader. \<open>Ipc_Hazards\<close> shows for most
  of them that the code fails without.

  \<^bold>\<open>Fuel.\<close> The recursions of \<open>claim_buffer\<close>, \<open>poll_buffer\<close>, \<open>decrement_readers_until\<close> and
  \<open>read_buffer\<close> and the loop of the media driver are bounded by fuel, and running out is \<open>None\<close>. Each
  level of a poll releases at least one header, 18 bytes, so one unit of fuel for every 18 unread
  bytes is enough (\<open>poll_buffer_terminates\<close>); a claim that has room takes at most one skip message, so
  three units are enough (\<open>claim_succeeds\<close>). The fuel of \<open>read_buffer\<close> and of the media driver bounds
  how often they find nothing, which depends on the other processes; that of \<open>ledger_main\<close> bounds
  the rounds of its last loop, which has no end. The histories of \<open>Ipc_Hazards\<close> run with fuel 10,
  and none uses it up.

  \<^bold>\<open>Parameters.\<close> The operating system's answers (whether a name may be opened, the sockets), the
  configuration library, sqlite and the accessors of the messages, which are generated from
  sbe_messages/public/sbe/order_entry.xml when the project is built. The ledger casts the bytes of a
  message to the generated classes, which hold a pointer; so what an accessor returns depends on the
  message and on the memory of the process at that moment, which may be another one at the next
  read, and the access may fault. The theorems on the ledger hold for any such accessors.

  \<^bold>\<open>Not modelled\<close>: the examples and tests (they call the library), the
  Python code, logging, and the floating point price that nothing uses.
\<close>

end
